(* ===== verification/Wimp_Prelude.thy ===== *)
theory Wimp_Prelude
  imports Main "HOL-Library.Word"
begin

section \<open>Shared vocabulary of the WIMP model\<close>

text \<open>
  Bytes, C strings, little-endian integers, the outcome of a C operation (a result, or the
  fault that makes the rest of the run undefined), and the \<open>malloc\<close> heap. Every component
  theory builds on this one.

  \<^item> A byte is a HOL \<open>char\<close> (eight bits), a buffer is a list of bytes, and a C string is the
    list of its bytes without the terminating NUL; \<open>cstring\<close> says that the list holds no NUL.
  \<^item> \<open>Ok\<close> is a normal result. \<open>Fault\<close> stands for undefined behaviour, a failed \<open>assert\<close> or
    a loop whose fuel has run out: the C program has no defined continuation from there.
  \<^item> \<open>malloc\<close> returns the number of the call as the address, and NULL when the heap's
    \<open>fails\<close> says so. Addresses are never reused, so a dangling pointer is one that is not in
    the domain of \<open>cells\<close>.
\<close>

named_theorems outcome_simps "simplification of outcomes and of their sequencing"
named_theorems heap_simps "simplification of heap operations"

type_synonym bytes = "char list"
type_synonym size_t = "64 word"
type_synonym int32 = "32 word"
type_synonym addr = nat

abbreviation NUL :: char where
  "NUL \<equiv> CHR 0x00"

subsection \<open>Outcomes\<close>

datatype fault =
    NullDeref
  | UseAfterFree
  | OutOfBounds
  | AssertFailed
  | DivByZero
  | BadLibCall
  | Overflow
  | OutOfFuel

datatype 'a outcome = Ok 'a | Fault fault

fun bnd :: "'a outcome \<Rightarrow> ('a \<Rightarrow> 'b outcome) \<Rightarrow> 'b outcome" where
  "bnd (Ok x) f = f x"
| "bnd (Fault e) f = Fault e"

fun is_ok :: "'a outcome \<Rightarrow> bool" where
  "is_ok (Ok _) = True"
| "is_ok (Fault _) = False"

fun guard_or :: "fault \<Rightarrow> bool \<Rightarrow> unit outcome" where
  "guard_or e True = Ok ()"
| "guard_or e False = Fault e"

text \<open>Following a pointer that may be NULL.\<close>

definition deref :: "'a option \<Rightarrow> 'a outcome" where
  "deref p = (case p of None \<Rightarrow> Fault NullDeref | Some x \<Rightarrow> Ok x)"

lemma deref_simps [simp]: "deref None = Fault NullDeref" "deref (Some x) = Ok x"
  by (simp_all add: deref_def)

lemma bnd_Ok_iff [outcome_simps]: "bnd r f = Ok y \<longleftrightarrow> (\<exists>x. r = Ok x \<and> f x = Ok y)"
  by (cases r) auto

lemma bnd_Fault_iff: "bnd r f = Fault e \<longleftrightarrow> r = Fault e \<or> (\<exists>x. r = Ok x \<and> f x = Fault e)"
  by (cases r) auto

lemma bnd_assoc: "bnd (bnd r f) g = bnd r (\<lambda>x. bnd (f x) g)"
  by (cases r) auto

lemma bnd_Ok_right [simp]: "bnd r Ok = r"
  by (cases r) auto

lemma bnd_cong [fundef_cong]:
  "r = r' \<Longrightarrow> (\<And>x. r' = Ok x \<Longrightarrow> f x = g x) \<Longrightarrow> bnd r f = bnd r' g"
  by (cases r') auto

lemma guard_or_iff [simp]: "guard_or e b = Ok u \<longleftrightarrow> b"
  by (cases b) auto

lemma guard_or_True [simp]: "b \<Longrightarrow> guard_or e b = Ok ()"
  by simp

lemma guard_or_False [simp]: "\<not> b \<Longrightarrow> guard_or e b = Fault e"
  by (cases b) auto

lemma is_ok_iff: "is_ok r \<longleftrightarrow> (\<exists>x. r = Ok x)"
  by (cases r) auto

subsection \<open>C strings in buffers\<close>

definition cstring :: "bytes \<Rightarrow> bool" where
  "cstring s \<longleftrightarrow> NUL \<notin> set s"

definition until_nul :: "bytes \<Rightarrow> bytes" where
  "until_nul bs = takeWhile (\<lambda>c. c \<noteq> NUL) bs"

text \<open>\<open>isspace\<close> in the C locale.\<close>

definition is_space :: "char \<Rightarrow> bool" where
  "is_space c \<longleftrightarrow> (of_char c :: nat) = 32 \<or> 9 \<le> (of_char c :: nat) \<and> (of_char c :: nat) \<le> 13"

text \<open>Reading the string that starts at an offset: the read runs off a buffer that has no NUL.\<close>

definition cstr_at :: "bytes \<Rightarrow> nat \<Rightarrow> bytes outcome" where
  "cstr_at b off =
     (if NUL \<in> set (drop off b) then Ok (until_nul (drop off b)) else Fault OutOfBounds)"

definition byte_at :: "bytes \<Rightarrow> nat \<Rightarrow> char outcome" where
  "byte_at b i = (if i < length b then Ok (b ! i) else Fault OutOfBounds)"

text \<open>\<open>memcpy\<close> of a list of bytes to an offset of a buffer.\<close>

definition write_at :: "bytes \<Rightarrow> nat \<Rightarrow> bytes \<Rightarrow> bytes outcome" where
  "write_at b off src =
     (if off + length src \<le> length b
      then Ok (take off b @ src @ drop (off + length src) b)
      else Fault OutOfBounds)"

lemma cstring_Nil [simp]: "cstring []"
  by (simp add: cstring_def)

lemma cstring_Cons [simp]: "cstring (c # cs) \<longleftrightarrow> c \<noteq> NUL \<and> cstring cs"
  by (auto simp: cstring_def)

lemma cstring_append [simp]: "cstring (xs @ ys) \<longleftrightarrow> cstring xs \<and> cstring ys"
  by (auto simp: cstring_def)

lemma until_nul_cstring: "cstring (until_nul bs)"
  by (auto simp: cstring_def until_nul_def dest: set_takeWhileD)

lemma until_nul_append [simp]: "cstring s \<Longrightarrow> until_nul (s @ NUL # rest) = s"
  by (induction s) (auto simp: until_nul_def)

lemma cstr_at_append: "cstring s \<Longrightarrow> cstr_at (pre @ s @ NUL # rest) (length pre) = Ok s"
  by (simp add: cstr_at_def)

lemma cstr_at_cstring: "cstr_at b off = Ok s \<Longrightarrow> cstring s"
  by (auto simp: cstr_at_def until_nul_cstring split: if_splits)

lemma write_at_length: "write_at b off src = Ok b' \<Longrightarrow> length b' = length b"
  by (auto simp: write_at_def split: if_splits)

subsection \<open>Little-endian integers\<close>

fun le_bytes :: "nat \<Rightarrow> nat \<Rightarrow> bytes" where
  "le_bytes 0 n = []"
| "le_bytes (Suc k) n = char_of (n mod 256) # le_bytes k (n div 256)"

fun le_val :: "bytes \<Rightarrow> nat" where
  "le_val [] = 0"
| "le_val (c # cs) = of_char c + 256 * le_val cs"

text \<open>The C conversions: an unsigned value read as \<open>int32_t\<close>, a signed value as \<open>size_t\<close>.\<close>

definition to_int32 :: "nat \<Rightarrow> int" where
  "to_int32 n = signed_take_bit 31 (int n)"

definition to_size :: "int \<Rightarrow> nat" where
  "to_size i = nat (i mod 2 ^ 64)"

lemma length_le_bytes [simp]: "length (le_bytes k n) = k"
  by (induction k arbitrary: n) auto

lemma le_val_le_bytes: "le_val (le_bytes k n) = n mod 256 ^ k"
proof (induction k arbitrary: n)
  case 0
  show ?case by simp
next
  case (Suc k)
  have "le_val (le_bytes (Suc k) n) = n mod 256 + 256 * (n div 256 mod 256 ^ k)"
    using Suc.IH by simp
  also have "\<dots> = n mod (256 * 256 ^ k)"
    by (simp add: mod_mult2_eq)
  finally show ?case by simp
qed

lemma to_int32_small: "n < 2 ^ 31 \<Longrightarrow> to_int32 n = int n"
  by (simp add: to_int32_def signed_take_bit_int_eq_self)

lemma to_int32_range: "- (2 ^ 31) \<le> to_int32 n \<and> to_int32 n < 2 ^ 31"
  using signed_take_bit_int_greater_eq_minus_exp [of 31 "int n"]
    signed_take_bit_int_less_exp [of 31 "int n"]
  by (simp add: to_int32_def)

lemma to_int32_mod: "to_int32 (n mod 2 ^ 32) = to_int32 n"
  unfolding to_int32_def
  by (rule signed_take_bit_eq_iff_take_bit_eq [THEN iffD2]) (simp add: take_bit_eq_mod zmod_int)

lemma to_size_nonneg [simp]: "0 \<le> i \<Longrightarrow> i < 2 ^ 64 \<Longrightarrow> to_size i = nat i"
  by (simp add: to_size_def)

lemma to_size_minus_one: "to_size (- 1) = 2 ^ 64 - 1"
  by (simp add: to_size_def)

subsection \<open>The heap\<close>

record 'a heap =
  cells :: "addr \<Rightarrow> 'a option"
  calls :: nat
  fails :: "nat \<Rightarrow> bool"

definition empty_heap :: "(nat \<Rightarrow> bool) \<Rightarrow> 'a heap" where
  "empty_heap f = \<lparr>cells = (\<lambda>_. None), calls = 0, fails = f\<rparr>"

definition halloc :: "'a heap \<Rightarrow> 'a \<Rightarrow> addr option \<times> 'a heap" where
  "halloc h x =
     (if fails h (calls h) then (None, h\<lparr>calls := Suc (calls h)\<rparr>)
      else (Some (calls h),
            h\<lparr>cells := (cells h)(calls h \<mapsto> x), calls := Suc (calls h)\<rparr>))"

definition hload :: "'a heap \<Rightarrow> addr \<Rightarrow> 'a outcome" where
  "hload h a = (case cells h a of Some x \<Rightarrow> Ok x | None \<Rightarrow> Fault UseAfterFree)"

definition hstore :: "'a heap \<Rightarrow> addr \<Rightarrow> 'a \<Rightarrow> 'a heap outcome" where
  "hstore h a x =
     (case cells h a of Some _ \<Rightarrow> Ok (h\<lparr>cells := (cells h)(a \<mapsto> x)\<rparr>) | None \<Rightarrow> Fault UseAfterFree)"

text \<open>\<open>free\<close>: a second \<open>free\<close> of the same address is a fault, \<open>free(NULL)\<close> is a no-op.\<close>

definition hfree :: "'a heap \<Rightarrow> addr option \<Rightarrow> 'a heap outcome" where
  "hfree h p =
     (case p of None \<Rightarrow> Ok h
      | Some a \<Rightarrow>
          (case cells h a of Some _ \<Rightarrow> Ok (h\<lparr>cells := (cells h)(a := None)\<rparr>)
           | None \<Rightarrow> Fault UseAfterFree))"

text \<open>Every allocated address was returned by an earlier call.\<close>

definition heap_ok :: "'a heap \<Rightarrow> bool" where
  "heap_ok h \<longleftrightarrow> (\<forall>a. cells h a \<noteq> None \<longrightarrow> a < calls h)"

lemma heap_ok_empty [simp]: "heap_ok (empty_heap f)"
  by (simp add: heap_ok_def empty_heap_def)

lemma heap_ok_fresh: "heap_ok h \<Longrightarrow> cells h (calls h) = None"
  by (auto simp: heap_ok_def)

lemma hload_Ok [heap_simps]: "hload h a = Ok x \<longleftrightarrow> cells h a = Some x"
  by (auto simp: hload_def split: option.splits)

lemma hload_Some [simp]: "cells h a = Some x \<Longrightarrow> hload h a = Ok x"
  by (simp add: hload_def)

lemma hload_None [simp]: "cells h a = None \<Longrightarrow> hload h a = Fault UseAfterFree"
  by (simp add: hload_def)

lemma hstore_Ok [heap_simps]:
  "hstore h a x = Ok h' \<longleftrightarrow> cells h a \<noteq> None \<and> h' = h\<lparr>cells := (cells h)(a \<mapsto> x)\<rparr>"
  by (auto simp: hstore_def split: option.splits)

lemma hstore_Some [simp]:
  "cells h a = Some y \<Longrightarrow> hstore h a x = Ok (h\<lparr>cells := (cells h)(a \<mapsto> x)\<rparr>)"
  by (simp add: hstore_def)

lemma hfree_Some [simp]:
  "cells h a = Some x \<Longrightarrow> hfree h (Some a) = Ok (h\<lparr>cells := (cells h)(a := None)\<rparr>)"
  by (simp add: hfree_def)

lemma hfree_NULL [simp]: "hfree h None = Ok h"
  by (simp add: hfree_def)

lemma halloc_ok [simp]: "heap_ok h \<Longrightarrow> heap_ok (snd (halloc h x))"
  by (auto simp: heap_ok_def halloc_def less_Suc_eq)

lemma heap_ok_update: "heap_ok h \<Longrightarrow> cells h a \<noteq> None \<Longrightarrow> heap_ok (h\<lparr>cells := (cells h)(a := v)\<rparr>)"
  by (auto simp: heap_ok_def)

lemma heap_ok_delete: "heap_ok h \<Longrightarrow> heap_ok (h\<lparr>cells := (cells h)(a := None)\<rparr>)"
  by (auto simp: heap_ok_def)

text \<open>Memory never runs out.\<close>

definition no_fail :: "'a heap \<Rightarrow> bool" where
  "no_fail h \<longleftrightarrow> (\<forall>i. \<not> fails h i)"

text \<open>The heap without the blocks in a set, as a sequence of calls of \<open>free\<close> leaves it.\<close>

definition without :: "'a heap \<Rightarrow> addr set \<Rightarrow> 'a heap" where
  "without h as = h\<lparr>cells := (\<lambda>a. if a \<in> as then None else cells h a)\<rparr>"

lemma without_cells [simp]: "cells (without h as) a = (if a \<in> as then None else cells h a)"
  by (simp add: without_def)

lemma without_empty [simp]: "without h {} = h"
  by (simp add: without_def)

lemma hfree_without: "cells h a \<noteq> None \<Longrightarrow> hfree h (Some a) = Ok (without h {a})"
  by (auto simp: hfree_def without_def fun_upd_def intro!: heap.equality)

lemma without_without: "without (without h as) bs = without h (as \<union> bs)"
  by (auto simp: without_def intro!: heap.equality)

lemma without_fails [simp]: "fails (without h as) = fails h"
  by (simp add: without_def)

lemma heap_ok_without: "heap_ok h \<Longrightarrow> heap_ok (without h as)"
  by (auto simp: without_def heap_ok_def)

end
