(* ===== verification/HashString.thy ===== *)
theory HashString
  imports Wimp_Prelude
begin

unbundle bit_operations_syntax

section \<open>The string hash table (\<open>wimp/src/utility/HashString.c\<close>)\<close>

text \<open>
  A table of buckets, each a chain of entries. A chain is the list of its entries in the
  order of the \<open>next\<close> pointers; a pointer to an entry is the suffix of its chain that starts
  there, with the empty list for NULL. Keys are C strings copied by the table; values are the
  caller's pointers. The outcome of each \<open>malloc\<close> is an argument (\<open>True\<close> when it succeeds).

  The first part holds the operations, the second the invariant and the map that a table
  stands for, the third the interface that the process table and the data cache rely on, with
  its interpretation on these operations.
\<close>

subsection \<open>Data and construction\<close>

record 'v HashStringEntry =
  hkey :: bytes
  hvalue :: 'v

record 'v HashString =
  hsize :: int
  htable :: "'v HashStringEntry list list"

definition HashString_create :: "bool \<Rightarrow> bool \<Rightarrow> int \<Rightarrow> 'v HashString option" where
  "HashString_create container_ok table_ok tsize =
     (if \<not> container_ok then None
      else if \<not> table_ok then None
      else Some \<lparr>hsize = tsize, htable = replicate (nat tsize) []\<rparr>)"

text \<open>\<open>HashString_destroy\<close>: the entries freed (each with its key), in order, chain by chain.
  The container and its table are not freed.\<close>

fun destroy_chain :: "'v HashStringEntry list \<Rightarrow> 'v HashStringEntry list" where
  "destroy_chain [] = []"
| "destroy_chain (delEntry # nextEntry) = delEntry # destroy_chain nextEntry"

fun destroy_from :: "'v HashStringEntry list list \<Rightarrow> 'v HashStringEntry list" where
  "destroy_from [] = []"
| "destroy_from (entry # entries) = destroy_chain entry @ destroy_from entries"

definition HashString_destroy :: "'v HashString \<Rightarrow> 'v HashStringEntry list" where
  "HashString_destroy h = destroy_from (take (nat (hsize h)) (htable h))"

subsection \<open>Hashing\<close>

definition FNV_OFFSET_BASIS :: "32 word" where
  "FNV_OFFSET_BASIS = 0x811C9DC5"

definition FNV_PRIME :: "32 word" where
  "FNV_PRIME = 0x01000193"

fun fnv1a :: "32 word \<Rightarrow> bytes \<Rightarrow> 32 word" where
  "fnv1a hashValue [] = hashValue"
| "fnv1a hashValue (c # key) = fnv1a ((hashValue XOR of_char c) * FNV_PRIME) key"

text \<open>The hash of a key, reduced to a bucket when a table is given; a NULL key hashes to 0.\<close>

definition HashString_hash :: "'v HashString option \<Rightarrow> bytes option \<Rightarrow> 32 word outcome" where
  "HashString_hash hash key =
     (case key of None \<Rightarrow> Ok 0
      | Some k \<Rightarrow>
          (let hashValue = fnv1a FNV_OFFSET_BASIS k in
           case hash of None \<Rightarrow> Ok hashValue
           | Some h \<Rightarrow>
               if hsize h = 0 then Fault DivByZero
               else Ok (hashValue mod word_of_int (hsize h))))"

text \<open>The Murmur2 variant, compiled in with \<open>HASH_MURMUR\<close>.\<close>

definition MURMUR2_MIX1 :: "32 word" where
  "MURMUR2_MIX1 = 0x5BD1E995"

definition MURMUR2_SEED :: "32 word" where
  "MURMUR2_SEED = 0x93C467E3"

fun murmur2_blocks :: "32 word \<Rightarrow> bytes \<Rightarrow> 32 word \<times> bytes" where
  "murmur2_blocks hashValue (a # b # c # d # key) =
     (let tmp = word_of_nat (le_val [a, b, c, d]);
          tmp = tmp * MURMUR2_MIX1;
          tmp = tmp XOR drop_bit 24 tmp;
          tmp = tmp * MURMUR2_MIX1
      in murmur2_blocks ((hashValue * MURMUR2_MIX1) XOR tmp) key)"
| "murmur2_blocks hashValue key = (hashValue, key)"

definition murmur2_tail :: "32 word \<Rightarrow> bytes \<Rightarrow> 32 word" where
  "murmur2_tail hashValue key =
     (let hashValue = (if length key = 3 then hashValue XOR push_bit 16 (of_char (key ! 2)) else hashValue);
          hashValue = (if length key = 3 \<or> length key = 2 then hashValue XOR push_bit 8 (of_char (key ! 1)) else hashValue);
          hashValue = (if length key = 3 \<or> length key = 2 \<or> length key = 1
                       then (hashValue XOR of_char (key ! 0)) XOR MURMUR2_MIX1 else hashValue)
      in hashValue)"

definition HashString_hash_murmur :: "'v HashString option \<Rightarrow> bytes option \<Rightarrow> 32 word outcome" where
  "HashString_hash_murmur hash key =
     (case key of None \<Rightarrow> Ok 0
      | Some k \<Rightarrow>
          (let hashValue = MURMUR2_SEED XOR word_of_nat (length k);
               (hashValue, rest) = murmur2_blocks hashValue k;
               hashValue = murmur2_tail hashValue rest;
               hashValue = hashValue XOR drop_bit 13 hashValue;
               hashValue = hashValue * MURMUR2_MIX1;
               hashValue = hashValue XOR drop_bit 15 hashValue
           in case hash of None \<Rightarrow> Ok hashValue
              | Some h \<Rightarrow>
                  if hsize h = 0 then Fault DivByZero
                  else Ok (hashValue mod word_of_int (hsize h))))"

subsection \<open>Find, add and remove\<close>

definition bucket :: "'v HashString \<Rightarrow> nat \<Rightarrow> 'v HashStringEntry list outcome" where
  "bucket h i = (if i < length (htable h) then Ok (htable h ! i) else Fault OutOfBounds)"

fun find_chain :: "'v HashStringEntry list \<Rightarrow> bytes \<Rightarrow> 'v HashStringEntry option" where
  "find_chain [] key = None"
| "find_chain (entry # nextEntry) key =
     (if hkey entry = key then Some entry else find_chain nextEntry key)"

definition HashString_find :: "'v HashString \<Rightarrow> bytes \<Rightarrow> 'v HashStringEntry option outcome" where
  "HashString_find h key =
     bnd (HashString_hash (Some h) (Some key)) (\<lambda>hashValue.
     bnd (bucket h (unat hashValue)) (\<lambda>ch.
     Ok (find_chain ch key)))"

definition HashString_add ::
    "bool \<Rightarrow> bool \<Rightarrow> 'v HashString option \<Rightarrow> bytes option \<Rightarrow> 'v \<Rightarrow> (int \<times> 'v HashString option) outcome" where
  "HashString_add entry_ok key_ok hash key v =
     (case (hash, key) of
        (Some h, Some k) \<Rightarrow>
          bnd (HashString_find h k) (\<lambda>oldEntry.
          if oldEntry \<noteq> None then Ok (1, hash)
          else if \<not> entry_ok then Ok (2, hash)
          else if \<not> key_ok then Ok (2, hash)
          else
            bnd (HashString_hash (Some h) (Some k)) (\<lambda>hashValue.
            bnd (bucket h (unat hashValue)) (\<lambda>ch.
            Ok (0, Some (h\<lparr>htable := (htable h)[unat hashValue := \<lparr>hkey = k, hvalue = v\<rparr> # ch]\<rparr>)))))
      | _ \<Rightarrow> Ok (3, hash))"

text \<open>
  The \<open>while\<close> loop of \<open>HashString_remove\<close>, entered with \<open>currEntry\<close> at the second entry of
  the ch. The body first steps to the next entry and then compares its key, so it reads the
  key of a NULL entry once the chain ends. The result is the chain from \<open>currEntry\<close> on
  without the removed entry, or \<open>None\<close> when the loop is never entered.
\<close>

fun remove_loop :: "'v HashStringEntry list \<Rightarrow> bytes \<Rightarrow> 'v HashStringEntry list option outcome" where
  "remove_loop [] key = Ok None"
| "remove_loop [currEntry] key = Fault NullDeref"
| "remove_loop (prevEntry # currEntry # nextEntry) key =
     (if hkey currEntry = key then Ok (Some (prevEntry # nextEntry))
      else bnd (remove_loop (currEntry # nextEntry) key) (\<lambda>r. Ok (map_option (\<lambda>es. prevEntry # es) r)))"

definition HashString_remove :: "'v HashString \<Rightarrow> bytes \<Rightarrow> (int \<times> 'v HashString) outcome" where
  "HashString_remove h key =
     bnd (HashString_hash (Some h) (Some key)) (\<lambda>hashValue.
     bnd (bucket h (unat hashValue)) (\<lambda>ch.
     case ch of
       [] \<Rightarrow> Ok (1, h)
     | currEntry # nextEntry \<Rightarrow>
         if hkey currEntry = key
         then Ok (0, h\<lparr>htable := (htable h)[unat hashValue := nextEntry]\<rparr>)
         else
           bnd (remove_loop nextEntry key) (\<lambda>r.
           case r of
             None \<Rightarrow> Ok (1, h)
           | Some rest \<Rightarrow> Ok (0, h\<lparr>htable := (htable h)[unat hashValue := currEntry # rest]\<rparr>))))"


subsection \<open>Iteration\<close>

text \<open>
  An iterator is an entry pointer and a table index. Both helpers end in the same loop,
  \<open>for (; i < size && entry == NULL; ++i) entry = table[i]\<close>, which leaves the index one past
  the bucket it stopped at.
\<close>

function scan_buckets ::
    "'v HashString \<Rightarrow> 'v HashStringEntry list \<Rightarrow> nat \<Rightarrow> ('v HashStringEntry list \<times> nat) outcome" where
  "scan_buckets h entry i =
     (if int i < hsize h \<and> entry = []
      then bnd (bucket h i) (\<lambda>ch. scan_buckets h ch (Suc i))
      else Ok (entry, i))"
  by pat_completeness auto
termination
  by (relation "measure (\<lambda>(h, entry, i). nat (hsize h) - i)") auto

declare scan_buckets.simps [simp del]

definition HashString_firstEntry ::
    "'v HashString \<Rightarrow> 'v HashStringEntry list \<Rightarrow> ('v HashStringEntry list \<times> nat) outcome" where
  "HashString_firstEntry h entry = scan_buckets h entry 0"

definition HashString_nextEntry ::
    "'v HashString \<Rightarrow> 'v HashStringEntry list \<Rightarrow> nat \<Rightarrow> ('v HashStringEntry list \<times> nat) outcome" where
  "HashString_nextEntry h entry i =
     (if entry = [] then Ok ([], nat (hsize h))
      else
        let entry' = tl entry in
        if entry' \<noteq> [] then Ok (entry', i) else scan_buckets h entry' i)"

text \<open>\<open>HASH_STRING_ITER\<close>: the entries the loop body sees, in order. Every iteration uses one
  unit of fuel.\<close>

fun iter_loop :: "nat \<Rightarrow> 'v HashString \<Rightarrow> 'v HashStringEntry list \<Rightarrow> nat \<Rightarrow> 'v HashStringEntry list outcome" where
  "iter_loop 0 h entry i = Fault OutOfFuel"
| "iter_loop (Suc fuel) h entry i =
     (if int i < hsize h \<and> entry \<noteq> []
      then
        bnd (HashString_nextEntry h entry i) (\<lambda>(entry', i').
        bnd (iter_loop fuel h entry' i') (\<lambda>visited.
        Ok (hd entry # visited)))
      else Ok [])"

definition entry_count :: "'v HashString \<Rightarrow> nat" where
  "entry_count h = length (concat (htable h))"

definition HASH_STRING_ITER :: "'v HashString \<Rightarrow> 'v HashStringEntry list outcome" where
  "HASH_STRING_ITER h =
     bnd (HashString_firstEntry h []) (\<lambda>(entry, i). iter_loop (Suc (entry_count h)) h entry i)"

section \<open>Invariant, abstraction and correctness\<close>

definition slot :: "'v HashString \<Rightarrow> bytes \<Rightarrow> nat" where
  "slot h key = unat (fnv1a FNV_OFFSET_BASIS key) mod nat (hsize h)"

definition chain_ok :: "'v HashString \<Rightarrow> nat \<Rightarrow> 'v HashStringEntry list \<Rightarrow> bool" where
  "chain_ok h i es \<longleftrightarrow> distinct (map hkey es) \<and> (\<forall>e \<in> set es. slot h (hkey e) = i)"

definition hash_ok :: "'v HashString \<Rightarrow> bool" where
  "hash_ok h \<longleftrightarrow> 0 < hsize h \<and> hsize h < 2 ^ 31 \<and> length (htable h) = nat (hsize h)
     \<and> (\<forall>i < length (htable h). chain_ok h i (htable h ! i))"

definition hash_lookup :: "'v HashString \<Rightarrow> bytes \<Rightarrow> 'v option" where
  "hash_lookup h key = map_option hvalue (find_chain (htable h ! slot h key) key)"

text \<open>The code's \<open>remove\<close> works for every position of the key in its chain but the second.\<close>

fun second_has :: "'v HashStringEntry list \<Rightarrow> bytes \<Rightarrow> bool" where
  "second_has (_ # e # _) key \<longleftrightarrow> hkey e = key"
| "second_has _ key \<longleftrightarrow> False"

definition removable :: "'v HashString \<Rightarrow> bytes \<Rightarrow> bool" where
  "removable h key \<longleftrightarrow> \<not> second_has (htable h ! slot h key) key"

fun del_first :: "bytes \<Rightarrow> 'v HashStringEntry list \<Rightarrow> 'v HashStringEntry list" where
  "del_first key [] = []"
| "del_first key (e # es) = (if hkey e = key then es else e # del_first key es)"

subsection \<open>Chains\<close>

lemma entry_eta [simp]: "\<lparr>hkey = hkey e, hvalue = hvalue e\<rparr> = e"
  by (cases e) simp

lemma find_chain_None: "find_chain es key = None \<longleftrightarrow> key \<notin> hkey ` set es"
  by (induction es) auto

lemma find_chain_Some: "find_chain es key = Some e \<Longrightarrow> e \<in> set es \<and> hkey e = key"
  by (induction es) (auto split: if_splits)

lemma find_chain_mem:
  "distinct (map hkey es) \<Longrightarrow> e \<in> set es \<Longrightarrow> find_chain es (hkey e) = Some e"
  by (induction es) (force simp: image_iff)+

lemma set_del_first: "set (del_first key es) \<subseteq> set es"
  by (induction es) auto

lemma distinct_del_first: "distinct (map hkey es) \<Longrightarrow> distinct (map hkey (del_first key es))"
  using set_del_first by (induction es) fastforce+

lemma find_del_first:
  "distinct (map hkey es) \<Longrightarrow>
   find_chain (del_first k es) k' = (if k' = k then None else find_chain es k')"
  by (induction es) (auto simp: find_chain_None image_iff)

lemma del_first_absent: "key \<notin> hkey ` set es \<Longrightarrow> del_first key es = es"
  by (induction es) auto

lemma remove_loop_spec:
  "remove_loop (e # es) key =
     (if find_chain es key = None then Fault NullDeref else Ok (Some (e # del_first key es)))"
  by (induction es arbitrary: e) auto

subsection \<open>Slots\<close>

lemma slot_less: "hash_ok h \<Longrightarrow> slot h key < length (htable h)"
  by (simp add: slot_def hash_ok_def)

lemma slot_update [simp]: "slot (h\<lparr>htable := t\<rparr>) key = slot h key"
  by (simp add: slot_def)

lemma unat_hsize: "0 < n \<Longrightarrow> n < 2 ^ 31 \<Longrightarrow> unat (word_of_int n :: 32 word) = nat n"
  by (simp add: unat_eq_nat_uint uint_word_of_int_eq take_bit_int_eq_self)

lemma HashString_hash_slot:
  assumes "hash_ok h"
  obtains w where "HashString_hash (Some h) (Some key) = Ok w" and "unat w = slot h key"
  using assms that
  by (auto simp: HashString_hash_def hash_ok_def Let_def slot_def unat_mod unat_hsize)

lemma bucket_slot [simp]: "hash_ok h \<Longrightarrow> bucket h (slot h key) = Ok (htable h ! slot h key)"
  by (simp add: bucket_def slot_less)

lemma chain_ok_slot: "hash_ok h \<Longrightarrow> chain_ok h (slot h key) (htable h ! slot h key)"
  using slot_less by (auto simp: hash_ok_def)

lemma chain_ok_update [simp]: "chain_ok (h\<lparr>htable := t\<rparr>) i es = chain_ok h i es"
  by (simp add: chain_ok_def)

lemma hash_ok_update:
  assumes "hash_ok h" and "chain_ok h (slot h key) es"
  shows "hash_ok (h\<lparr>htable := (htable h)[slot h key := es]\<rparr>)"
proof -
  have "chain_ok h i ((htable h)[slot h key := es] ! i)" if "i < length (htable h)" for i
    using assms that by (cases "i = slot h key") (auto simp: hash_ok_def)
  then show ?thesis using assms(1) by (simp add: hash_ok_def)
qed

lemma hash_lookup_update:
  assumes "hash_ok h" and "chain_ok h (slot h key) es"
    and "\<And>k. k \<noteq> key \<Longrightarrow> find_chain es k = find_chain (htable h ! slot h key) k"
  shows "hash_lookup (h\<lparr>htable := (htable h)[slot h key := es]\<rparr>)
       = (hash_lookup h)(key := map_option hvalue (find_chain es key))"
  using assms slot_less [OF assms(1)]
  by (auto simp: hash_lookup_def fun_eq_iff nth_list_update)

subsection \<open>Operations\<close>

lemma HashString_create_ok:
  "0 < n \<Longrightarrow> n < 2 ^ 31 \<Longrightarrow> HashString_create True True n = Some h \<Longrightarrow>
   hash_ok h \<and> hash_lookup h = (\<lambda>_. None)"
  by (auto simp: HashString_create_def hash_ok_def chain_ok_def hash_lookup_def slot_def fun_eq_iff)

lemma HashString_find_eq:
  assumes "hash_ok h"
  shows "HashString_find h key = Ok (find_chain (htable h ! slot h key) key)"
  using HashString_hash_slot [OF assms, of key] assms
  by (metis (no_types, lifting) HashString_find_def bnd.simps(1) bucket_slot)

lemma HashString_add_new:
  assumes "hash_ok h" and "hash_lookup h key = None"
  shows "HashString_add True True (Some h) (Some key) v =
    Ok (0, Some (h\<lparr>htable := (htable h)[slot h key := \<lparr>hkey = key, hvalue = v\<rparr> # htable h ! slot h key]\<rparr>))"
proof -
  obtain w where w: "HashString_hash (Some h) (Some key) = Ok w" "unat w = slot h key"
    using HashString_hash_slot [OF assms(1)] .
  show ?thesis
    using assms w by (simp add: HashString_add_def HashString_find_eq hash_lookup_def)
qed

lemma HashString_add_old:
  assumes "hash_ok h" and "hash_lookup h key \<noteq> None"
  shows "HashString_add a b (Some h) (Some key) v = Ok (1, Some h)"
  using assms by (simp add: HashString_add_def HashString_find_eq hash_lookup_def)

lemma HashString_remove_eq:
  assumes "hash_ok h"
  shows "HashString_remove h key =
    (case htable h ! slot h key of
       [] \<Rightarrow> Ok (1, h)
     | e # es \<Rightarrow>
         if hkey e = key then Ok (0, h\<lparr>htable := (htable h)[slot h key := es]\<rparr>)
         else (case es of
             [] \<Rightarrow> Ok (1, h)
           | e' # es' \<Rightarrow>
               if find_chain es' key = None then Fault NullDeref
               else Ok (0, h\<lparr>htable := (htable h)[slot h key := e # e' # del_first key es']\<rparr>)))"
proof -
  obtain w where w: "HashString_hash (Some h) (Some key) = Ok w" "unat w = slot h key"
    using HashString_hash_slot [OF assms(1)] .
  show ?thesis
    using assms w
    by (auto simp: HashString_remove_def remove_loop_spec simp del: remove_loop.simps(2-)
        split: list.splits)
qed

lemma hash_ok_add:
  assumes "hash_ok h" and "hash_lookup h key = None"
  shows "chain_ok h (slot h key) (\<lparr>hkey = key, hvalue = v\<rparr> # htable h ! slot h key)"
  using assms chain_ok_slot [OF assms(1), of key]
  by (auto simp: chain_ok_def hash_lookup_def find_chain_None)

text \<open>Removal from any position of the chain but the second takes the key out of the map.\<close>

lemma HashString_remove_map:
  assumes "hash_ok h" and "removable h key" and "hash_lookup h key \<noteq> None"
  obtains h' where "HashString_remove h key = Ok (0, h')" and "hash_ok h'"
    and "hash_lookup h' = (hash_lookup h)(key := None)"
proof -
  let ?s = "slot h key" and ?es = "htable h ! slot h key"
  let ?h = "h\<lparr>htable := (htable h)[?s := del_first key ?es]\<rparr>"
  have ok: "chain_ok h ?s ?es" by (rule chain_ok_slot [OF assms(1)])
  then have d: "distinct (map hkey ?es)" by (simp add: chain_ok_def)
  have "HashString_remove h key = Ok (0, ?h)"
    using assms(2,3) by (auto simp: HashString_remove_eq [OF assms(1)] removable_def hash_lookup_def
        split: list.splits if_splits)
  moreover have ok': "chain_ok h ?s (del_first key ?es)"
    using ok distinct_del_first [OF d] set_del_first [of key ?es] by (auto simp: chain_ok_def)
  moreover have "hash_lookup ?h = (hash_lookup h)(key := None)"
    using hash_lookup_update [OF assms(1) ok'] by (simp add: find_del_first [OF d])
  ultimately show thesis using that hash_ok_update [OF assms(1)] by blast
qed

lemma HashString_remove_absent:
  assumes "hash_ok h" and "hash_lookup h key = None"
  shows "HashString_remove h key =
    (if length (htable h ! slot h key) \<le> 1 then Ok (1, h) else Fault NullDeref)"
  using assms(2) by (auto simp: HashString_remove_eq [OF assms(1)] hash_lookup_def
      split: list.splits if_splits)

lemma HashString_remove_second:
  assumes "hash_ok h" and "htable h ! slot h key = e # e' # es" and "hkey e' = key"
  shows "HashString_remove h key = Fault NullDeref"
proof -
  have "key \<notin> hkey ` set es" and "hkey e \<noteq> key"
    using chain_ok_slot [OF assms(1), of key] assms(2,3) by (auto simp: chain_ok_def)
  then show ?thesis
    using assms(2) by (simp add: HashString_remove_eq [OF assms(1)] find_chain_None)
qed

subsection \<open>Iteration visits every bucket but the last\<close>

lemma concat_drop_butlast:
  "i < length t \<Longrightarrow> concat (drop i (butlast t)) =
    (if Suc i < length t then t ! i @ concat (drop (Suc i) (butlast t)) else [])"
  by (auto simp: Cons_nth_drop_Suc [symmetric] nth_butlast)

lemma concat_drop: "i < length t \<Longrightarrow> concat (drop i t) = t ! i @ concat (drop (Suc i) t)"
  by (simp add: Cons_nth_drop_Suc [symmetric])

lemma scan_buckets_spec:
  assumes h: "hash_ok h" and "i \<le> length (htable h)"
  shows "\<exists>es j. scan_buckets h [] i = Ok (es, j) \<and> j \<le> length (htable h)
    \<and> concat (drop i (butlast (htable h))) =
        (if j < length (htable h) \<and> es \<noteq> [] then es @ concat (drop j (butlast (htable h))) else [])
    \<and> length es + length (concat (drop j (htable h))) \<le> length (concat (drop i (htable h)))"
  using assms(2)
proof (induction "length (htable h) - i" arbitrary: i rule: less_induct)
  case less
  have len: "hsize h = int (length (htable h))" using h by (simp add: hash_ok_def)
  show ?case
  proof (cases "i < length (htable h)")
    case False
    then have "scan_buckets h [] i = Ok ([], i)"
      using len by (simp add: scan_buckets.simps [of h "[]" i])
    then show ?thesis using False less.prems by auto
  next
    case True
    then have step: "scan_buckets h [] i = scan_buckets h (htable h ! i) (Suc i)"
      using len by (simp add: scan_buckets.simps [of h "[]" i] bucket_def)
    show ?thesis
    proof (cases "htable h ! i")
      case Nil
      have "length (htable h) - Suc i < length (htable h) - i" and "Suc i \<le> length (htable h)"
        using True by auto
      from less.hyps [OF this] show ?thesis
        using True step Nil concat_drop_butlast [OF True] concat_drop [OF True] by auto
    next
      case (Cons e es)
      then show ?thesis
        using True step concat_drop_butlast [OF True] concat_drop [OF True]
        by (simp add: scan_buckets.simps [of h "e # es"] Suc_le_eq)
    qed
  qed
qed

lemma iter_loop_spec:
  assumes h: "hash_ok h" and "j \<le> length (htable h)"
    and "length es + length (concat (drop j (htable h))) < fuel"
  shows "iter_loop fuel h es j =
    Ok (if j < length (htable h) \<and> es \<noteq> [] then es @ concat (drop j (butlast (htable h))) else [])"
  using assms(2,3)
proof (induction fuel arbitrary: es j)
  case 0
  then show ?case by simp
next
  case (Suc fuel)
  have len: "hsize h = int (length (htable h))" using h by (simp add: hash_ok_def)
  show ?case
  proof (cases "j < length (htable h) \<and> es \<noteq> []")
    case False
    then have "iter_loop (Suc fuel) h es j = Ok []" using len by auto
    then show ?thesis using False by auto
  next
    case True
    then obtain e es' where es: "es = e # es'" by (cases es) auto
    show ?thesis
    proof (cases "es' = []")
      case False
      then show ?thesis
        using True Suc.IH [of j es'] Suc.prems es len
        by (simp add: HashString_nextEntry_def)
    next
      case es': True
      from scan_buckets_spec [OF h Suc.prems(1)]
      obtain es2 j2 where s: "scan_buckets h [] j = Ok (es2, j2)" "j2 \<le> length (htable h)"
        "length es2 + length (concat (drop j2 (htable h))) \<le> length (concat (drop j (htable h)))"
        "concat (drop j (butlast (htable h))) = (if j2 < length (htable h) \<and> es2 \<noteq> []
           then es2 @ concat (drop j2 (butlast (htable h))) else [])"
        by blast
      have "iter_loop fuel h es2 j2 = Ok (concat (drop j (butlast (htable h))))"
        using Suc.IH [OF s(2)] s(3) Suc.prems(2) es s(4) by simp
      then show ?thesis
        using True es es' s(1) len by (simp add: HashString_nextEntry_def)
    qed
  qed
qed

lemma HASH_STRING_ITER_eq:
  assumes h: "hash_ok h"
  shows "HASH_STRING_ITER h = Ok (concat (butlast (htable h)))"
proof -
  obtain es j where s: "scan_buckets h [] 0 = Ok (es, j)" "j \<le> length (htable h)"
    "concat (butlast (htable h)) =
        (if j < length (htable h) \<and> es \<noteq> [] then es @ concat (drop j (butlast (htable h))) else [])"
    "length es + length (concat (drop j (htable h))) \<le> length (concat (htable h))"
    using scan_buckets_spec [OF h, of 0] by auto
  then have "iter_loop (Suc (entry_count h)) h es j = Ok (concat (butlast (htable h)))"
    using iter_loop_spec [OF h, of j es "Suc (entry_count h)"] by (simp add: entry_count_def)
  then show ?thesis
    by (simp add: HASH_STRING_ITER_def HashString_firstEntry_def s(1) del: iter_loop.simps)
qed


subsection \<open>Destruction\<close>

lemma destroy_chain_eq [simp]: "destroy_chain es = es"
  by (induction es) auto

lemma destroy_from_eq [simp]: "destroy_from t = concat t"
  by (induction t) auto

lemma HashString_destroy_eq: "hash_ok h \<Longrightarrow> HashString_destroy h = concat (htable h)"
  by (simp add: HashString_destroy_def hash_ok_def)

lemma distinct_concat_chains:
  assumes "distinct is" and "\<And>i. i \<in> set is \<Longrightarrow> chain_ok h i (t i)"
  shows "distinct (map hkey (concat (map t is)))"
  using assms
proof (induction "is")
  case Nil
  then show ?case by simp
next
  case (Cons i js)
  have "hkey e \<noteq> hkey e'" if "e \<in> set (t i)" and "j \<in> set js" and "e' \<in> set (t j)" for e e' j
    using Cons.prems that by (auto simp: chain_ok_def) metis
  then show ?case using Cons by (auto simp: chain_ok_def)
qed

lemma distinct_keys:
  assumes "hash_ok h"
  shows "distinct (map hkey (concat (htable h)))"
proof -
  have "distinct (map hkey (concat (map (\<lambda>i. htable h ! i) [0..<length (htable h)])))"
    using assms by (intro distinct_concat_chains [of _ h]) (auto simp: hash_ok_def)
  then show ?thesis by (simp only: map_nth)
qed

lemma lookup_iff_entry:
  assumes "hash_ok h"
  shows "hash_lookup h key = Some v \<longleftrightarrow> \<lparr>hkey = key, hvalue = v\<rparr> \<in> set (concat (htable h))"
proof
  assume "hash_lookup h key = Some v"
  then obtain e where "find_chain (htable h ! slot h key) key = Some e" and v: "v = hvalue e"
    by (auto simp: hash_lookup_def)
  then have "e \<in> set (htable h ! slot h key)" and "e = \<lparr>hkey = key, hvalue = v\<rparr>"
    using v by (auto dest: find_chain_Some)
  then show "\<lparr>hkey = key, hvalue = v\<rparr> \<in> set (concat (htable h))"
    using slot_less [OF assms, of key] by (auto intro!: bexI [of _ "htable h ! slot h key"])
next
  assume "\<lparr>hkey = key, hvalue = v\<rparr> \<in> set (concat (htable h))"
  then obtain i where "i < length (htable h)" and "\<lparr>hkey = key, hvalue = v\<rparr> \<in> set (htable h ! i)"
    unfolding set_concat by (metis UN_E in_set_conv_nth)
  moreover from this have "chain_ok h i (htable h ! i)" using assms by (simp add: hash_ok_def)
  ultimately show "hash_lookup h key = Some v"
    using find_chain_mem [of "htable h ! i" "\<lparr>hkey = key, hvalue = v\<rparr>"]
    by (force simp: hash_lookup_def chain_ok_def)
qed

section \<open>The interface of a table of names\<close>

text \<open>
  What the process table and the data cache rely on. \<open>deletable\<close> is the provider's condition
  under which its \<open>delete\<close> is defined; a key that was just inserted is always deletable.
\<close>

locale name_table =
  fixes lookup :: "'t \<Rightarrow> bytes \<Rightarrow> 'v option"
    and find_val :: "'t \<Rightarrow> bytes \<Rightarrow> 'v option outcome"
    and insert_val :: "'t \<Rightarrow> bytes \<Rightarrow> 'v \<Rightarrow> (int \<times> 't) outcome"
    and delete_val :: "'t \<Rightarrow> bytes \<Rightarrow> (int \<times> 't) outcome"
    and deletable :: "'t \<Rightarrow> bytes \<Rightarrow> bool"
    and invar :: "'t \<Rightarrow> bool"
  assumes find_val: "invar t \<Longrightarrow> find_val t k = Ok (lookup t k)"
    and insert_new: "invar t \<Longrightarrow> lookup t k = None \<Longrightarrow>
      \<exists>t'. insert_val t k v = Ok (0, t') \<and> invar t' \<and> lookup t' = (lookup t)(k \<mapsto> v) \<and> deletable t' k"
    and insert_old: "invar t \<Longrightarrow> lookup t k \<noteq> None \<Longrightarrow> insert_val t k v = Ok (1, t)"
    and delete_old: "invar t \<Longrightarrow> lookup t k \<noteq> None \<Longrightarrow> deletable t k \<Longrightarrow>
      \<exists>t'. delete_val t k = Ok (0, t') \<and> invar t' \<and> lookup t' = (lookup t)(k := None)"
begin

lemma insert_outcome:
  assumes "invar t"
  obtains r t' where "insert_val t k v = Ok (r, t')" and "invar t'"
    and "r = 0 \<longleftrightarrow> lookup t k = None"
    and "lookup t' = (if lookup t k = None then (lookup t)(k \<mapsto> v) else lookup t)"
proof (cases "lookup t k")
  case None
  obtain t' where "insert_val t k v = Ok (0, t')" "invar t'" "lookup t' = (lookup t)(k \<mapsto> v)"
    using insert_new [OF assms None] by blast
  then show thesis using None by (intro that) simp_all
next
  case (Some w)
  then have "insert_val t k v = Ok (1, t)" by (intro insert_old [OF assms]) simp
  then show thesis using Some assms by (intro that [of 1 t]) auto
qed

lemma insert_find:
  assumes "invar t" and "lookup t k = None" and "insert_val t k v = Ok (r, t')"
  shows "r = 0 \<and> find_val t' k = Ok (Some v) \<and> (\<forall>k'. k' \<noteq> k \<longrightarrow> find_val t' k' = find_val t k')"
proof -
  obtain t1 where t1: "insert_val t k v = Ok (0, t1)" "invar t1" "lookup t1 = (lookup t)(k \<mapsto> v)"
    using insert_new [OF assms(1,2)] by blast
  then have "t' = t1" and "r = 0" using assms(3) by auto
  then show ?thesis using t1 by (simp add: find_val assms(1))
qed

lemma insert_delete:
  assumes "invar t" and "lookup t k = None" and "insert_val t k v = Ok (r, t')"
  shows "\<exists>t''. delete_val t' k = Ok (0, t'') \<and> invar t'' \<and> lookup t'' = lookup t"
proof -
  obtain t1 where t1: "insert_val t k v = Ok (0, t1)" "invar t1" "lookup t1 = (lookup t)(k \<mapsto> v)"
    "deletable t1 k"
    using insert_new [OF assms(1,2)] by blast
  then have "lookup t1 k \<noteq> None" by simp
  from delete_old [OF t1(2) this t1(4)] obtain t'' where "delete_val t1 k = Ok (0, t'')"
    "invar t''" "lookup t'' = (lookup t1)(k := None)" by blast
  moreover have "(lookup t1)(k := None) = lookup t" using t1(3) assms(2) by (simp add: fun_upd_idem)
  moreover have "t' = t1" using t1(1) assms(3) by simp
  ultimately show ?thesis by auto
qed

end

definition table_find :: "'v HashString \<Rightarrow> bytes \<Rightarrow> 'v option outcome" where
  "table_find h key = bnd (HashString_find h key) (\<lambda>e. Ok (map_option hvalue e))"

definition table_insert :: "'v HashString \<Rightarrow> bytes \<Rightarrow> 'v \<Rightarrow> (int \<times> 'v HashString) outcome" where
  "table_insert h key v =
     bnd (HashString_add True True (Some h) (Some key) v) (\<lambda>(r, h'). Ok (r, the h'))"

interpretation hs: name_table hash_lookup table_find table_insert HashString_remove removable hash_ok
proof unfold_locales
  fix t :: "'v HashString" and k v
  assume t: "hash_ok t"
  show "table_find t k = Ok (hash_lookup t k)"
    by (simp add: table_find_def HashString_find_eq [OF t] hash_lookup_def)
  show "table_insert t k v = Ok (1, t)" if "hash_lookup t k \<noteq> None"
    by (simp add: table_insert_def HashString_add_old [OF t that])
  show "\<exists>t'. table_insert t k v = Ok (0, t') \<and> hash_ok t' \<and> hash_lookup t' = (hash_lookup t)(k \<mapsto> v)
      \<and> removable t' k" if n: "hash_lookup t k = None"
  proof -
    let ?es = "\<lparr>hkey = k, hvalue = v\<rparr> # htable t ! slot t k"
    let ?t = "t\<lparr>htable := (htable t)[slot t k := ?es]\<rparr>"
    have "table_insert t k v = Ok (0, ?t)"
      by (simp add: table_insert_def HashString_add_new [OF t n])
    moreover have "hash_lookup ?t = (hash_lookup t)(k \<mapsto> v)"
      using hash_lookup_update [OF t hash_ok_add [OF t n, of v]] by simp
    moreover have "removable ?t k"
      using slot_less [OF t, of k] hash_ok_add [OF t n, of v]
      by (cases "htable t ! slot t k") (auto simp: removable_def chain_ok_def)
    ultimately show ?thesis using hash_ok_update [OF t hash_ok_add [OF t n, of v]] by blast
  qed
  show "\<exists>t'. HashString_remove t k = Ok (0, t') \<and> hash_ok t' \<and> hash_lookup t' = (hash_lookup t)(k := None)"
    if "hash_lookup t k \<noteq> None" and "removable t k"
    using HashString_remove_map [OF t that(2,1)] by metis
qed

section \<open>Properties\<close>

text \<open>Adding a name that \<open>HashString_find\<close> does not know succeeds, keeps the table well-formed,
  makes the value findable under that name, and leaves the answer for every other name alone.\<close>

lemma add_then_find:
  assumes "hash_ok h" and "HashString_find h key = Ok None"
  shows "\<exists>h'. HashString_add True True (Some h) (Some key) v = Ok (0, Some h') \<and> hash_ok h'
    \<and> (\<forall>k. table_find h' k = (if k = key then Ok (Some v) else table_find h k))"
proof -
  have n: "hash_lookup h key = None"
    using assms by (simp add: HashString_find_eq hash_lookup_def)
  obtain h' where h': "table_insert h key v = Ok (0, h')" "hash_ok h'" "hash_lookup h' = (hash_lookup h)(key \<mapsto> v)"
    using hs.insert_new [OF assms(1) n] by blast
  then have "HashString_add True True (Some h) (Some key) v = Ok (0, Some h')"
    using HashString_add_new [OF assms(1) n, of v] by (simp add: table_insert_def)
  then show ?thesis using h' hs.find_val [OF assms(1)] hs.find_val [OF h'(2)] by auto
qed

lemma add_then_find_witness:
  "\<exists>h'. HashString_add True True (Some \<lparr>hsize = 1, htable = [[\<lparr>hkey = ''a'', hvalue = 1 :: nat\<rparr>]]\<rparr>) (Some ''b'') 2
      = Ok (0, Some h') \<and> hash_ok h'
    \<and> (\<forall>k. table_find h' k = (if k = ''b'' then Ok (Some 2)
         else table_find \<lparr>hsize = 1, htable = [[\<lparr>hkey = ''a'', hvalue = 1\<rparr>]]\<rparr> k))"
proof (rule add_then_find)
  show "hash_ok \<lparr>hsize = 1, htable = [[\<lparr>hkey = ''a'', hvalue = 1 :: nat\<rparr>]]\<rparr>"
    by (simp add: hash_ok_def chain_ok_def slot_def)
  then show "HashString_find \<lparr>hsize = 1, htable = [[\<lparr>hkey = ''a'', hvalue = 1 :: nat\<rparr>]]\<rparr> ''b'' = Ok None"
    by (simp add: HashString_find_eq slot_def)
qed

text \<open>C25: Removing a name right after it was added succeeds and restores the lookup of every name.\<close>

theorem add_remove_roundtrip:
  assumes "hash_ok h" and "HashString_find h key = Ok None"
    and "HashString_add True True (Some h) (Some key) v = Ok (r, Some h')"
  shows "\<exists>h''. HashString_remove h' key = Ok (0, h'') \<and> hash_ok h'' \<and> (\<forall>k. table_find h'' k = table_find h k)"
proof -
  have n: "hash_lookup h key = None"
    using assms(1,2) by (simp add: HashString_find_eq hash_lookup_def)
  have "table_insert h key v = Ok (r, h')" using assms(3) by (simp add: table_insert_def)
  then obtain h'' where "HashString_remove h' key = Ok (0, h'')" "hash_ok h''" "hash_lookup h'' = hash_lookup h"
    using hs.insert_delete [OF assms(1) n] by blast
  then show ?thesis using assms(1) by (auto simp: hs.find_val)
qed

theorem add_remove_roundtrip_witness:
  "\<exists>h''. HashString_remove \<lparr>hsize = 1, htable = [[\<lparr>hkey = ''b'', hvalue = 2 :: nat\<rparr>, \<lparr>hkey = ''a'', hvalue = 1\<rparr>]]\<rparr> ''b''
      = Ok (0, h'') \<and> hash_ok h''
    \<and> (\<forall>k. table_find h'' k = table_find \<lparr>hsize = 1, htable = [[\<lparr>hkey = ''a'', hvalue = 1\<rparr>]]\<rparr> k)"
proof (rule add_remove_roundtrip)
  show ok: "hash_ok \<lparr>hsize = 1, htable = [[\<lparr>hkey = ''a'', hvalue = 1 :: nat\<rparr>]]\<rparr>"
    by (simp add: hash_ok_def chain_ok_def slot_def)
  show "HashString_find \<lparr>hsize = 1, htable = [[\<lparr>hkey = ''a'', hvalue = 1 :: nat\<rparr>]]\<rparr> ''b'' = Ok None"
    using ok by (simp add: HashString_find_eq slot_def)
  show "HashString_add True True (Some \<lparr>hsize = 1, htable = [[\<lparr>hkey = ''a'', hvalue = 1 :: nat\<rparr>]]\<rparr>) (Some ''b'') 2
      = Ok (0, Some \<lparr>hsize = 1, htable = [[\<lparr>hkey = ''b'', hvalue = 2 :: nat\<rparr>, \<lparr>hkey = ''a'', hvalue = 1\<rparr>]]\<rparr>)"
    by (subst HashString_add_new [OF ok]) (simp_all add: hash_lookup_def slot_def)
qed

text \<open>\<open>HashString_remove\<close> finds a key only at the head of its bucket's chain or behind the second
  entry: for a key that is absent, or that the second entry holds, a bucket of two or more entries makes it
  follow the NULL pointer at the end of the chain. The header promises the result 1 for an absent key.\<close>

lemma remove_runs_off_chain:
  assumes "hash_ok h" and "htable h ! slot h key = e # e' # es" and "hkey e \<noteq> key"
    and "key \<notin> hkey ` set es"
  shows "HashString_remove h key = Fault NullDeref"
  using assms by (simp add: HashString_remove_eq find_chain_None)

lemma remove_runs_off_chain_witness:
  "HashString_remove \<lparr>hsize = 1, htable = [[\<lparr>hkey = ''b'', hvalue = 2 :: nat\<rparr>, \<lparr>hkey = ''a'', hvalue = 1\<rparr>]]\<rparr> ''a''
    = Fault NullDeref"
  by (rule remove_runs_off_chain [of _ _ "\<lparr>hkey = ''b'', hvalue = 2\<rparr>" "\<lparr>hkey = ''a'', hvalue = 1\<rparr>" "[]"])
    (simp_all add: hash_ok_def chain_ok_def slot_def)

text \<open>A traversal with \<open>HASH_STRING_ITER\<close> terminates and visits every entry of the table exactly
  once, in the order of the buckets, except those of the last bucket, which it never visits.\<close>

lemma iter_visits:
  assumes "hash_ok h"
  shows "\<exists>es. HASH_STRING_ITER h = Ok es \<and> distinct (map hkey es)
    \<and> set es = (\<Union>i \<in> {..< nat (hsize h) - 1}. set (htable h ! i))"
proof -
  have l: "length (htable h) = nat (hsize h)" using assms by (simp add: hash_ok_def)
  have "set (concat (butlast (htable h))) = (\<Union>i \<in> {..< nat (hsize h) - 1}. set (htable h ! i))"
  proof -
    have "set (butlast (htable h)) = (!) (htable h) ` {..< nat (hsize h) - 1}"
      using nth_image [of "nat (hsize h) - 1" "htable h"] by (simp add: butlast_conv_take l atLeast0LessThan)
    then show ?thesis by (simp only: set_concat image_image)
  qed
  moreover have "distinct (map hkey (concat (butlast (htable h))))"
  proof (cases "htable h = []")
    case False
    then have "concat (htable h) = concat (butlast (htable h)) @ last (htable h)"
      by (metis append_butlast_last_id concat.simps concat_append append_Nil2)
    then show ?thesis using distinct_keys [OF assms] by simp
  qed simp
  ultimately show ?thesis using HASH_STRING_ITER_eq [OF assms] by blast
qed

lemma iter_visits_witness:
  "\<exists>es. HASH_STRING_ITER \<lparr>hsize = 1, htable = [[\<lparr>hkey = ''a'', hvalue = 1 :: nat\<rparr>]]\<rparr> = Ok es
    \<and> distinct (map hkey es) \<and> set es = {}"
  using iter_visits [of "\<lparr>hsize = 1, htable = [[\<lparr>hkey = ''a'', hvalue = 1 :: nat\<rparr>]]\<rparr>"]
  by (simp add: hash_ok_def chain_ok_def slot_def)

end
