(* ===== verification/Wimp_Instr.thy ===== *)
theory Wimp_Instr
  imports Wimp_Prelude
begin

section \<open>Instructions on the wire (\<open>wimp_instruction.c\<close>, \<open>wimp_server.c\<close>)\<close>

text \<open>
  An instruction is one buffer: its total size as \<open>int32_t\<close>, the destination, the source and
  the instruction name as C strings, the size of the arguments as \<open>int32_t\<close>, the arguments.
  The first part holds the encoder (\<open>wimp_server_bundle_instr\<close>) and the parser
  (\<open>wimp_instr_get_from_buffer\<close>), the second the string packs, the third the round trips.
  A pointer into a buffer is its offset, with \<open>None\<close> for NULL; the machine is little-endian
  with 8-byte \<open>size_t\<close>.
\<close>

subsection \<open>Instruction names and result codes\<close>

definition WIMP_INSTRUCTION_EXIT :: bytes where
  "WIMP_INSTRUCTION_EXIT = ''exit''"

definition WIMP_INSTRUCTION_LOG :: bytes where
  "WIMP_INSTRUCTION_LOG = ''log''"

definition WIMP_INSTRUCTION_DEST_OFFSET :: nat where
  "WIMP_INSTRUCTION_DEST_OFFSET = 4"

definition WIMP_INSTRUCTION_SUCCESS :: int where
  "WIMP_INSTRUCTION_SUCCESS = 0"

definition WIMP_INSTRUCTION_FAIL :: int where
  "WIMP_INSTRUCTION_FAIL = - 1"

lemmas instr_consts = WIMP_INSTRUCTION_EXIT_def WIMP_INSTRUCTION_LOG_def
  WIMP_INSTRUCTION_DEST_OFFSET_def WIMP_INSTRUCTION_SUCCESS_def WIMP_INSTRUCTION_FAIL_def

subsection \<open>Encoding\<close>

text \<open>The size that \<open>wimp_server_bundle_instr\<close> allocates, in \<open>size_t\<close> arithmetic.\<close>

definition bundle_size :: "bytes \<Rightarrow> bytes \<Rightarrow> bytes \<Rightarrow> nat \<Rightarrow> nat" where
  "bundle_size process dest instr arg_size =
     (4 + (length process + 1) + (length dest + 1) + (length instr + 1) + 4 + arg_size) mod 2 ^ 64"

text \<open>
  The writes into the allocated buffer \<open>buf\<close>, whose content \<open>malloc\<close> leaves unspecified. Only
  the low four bytes of the two \<open>size_t\<close> values are copied. \<open>args\<close> is the memory behind the
  argument pointer.
\<close>

definition fill_bundle :: "bytes \<Rightarrow> bytes \<Rightarrow> bytes \<Rightarrow> bytes \<Rightarrow> bytes option \<Rightarrow> nat \<Rightarrow> bytes outcome" where
  "fill_bundle buf process dest instr args arg_size =
     bnd (write_at buf 0 (le_bytes 4 (bundle_size process dest instr arg_size))) (\<lambda>buf.
     let offset = 4 in
     bnd (write_at buf offset (dest @ [NUL])) (\<lambda>buf.
     let offset = offset + (length dest + 1) in
     bnd (write_at buf offset (process @ [NUL])) (\<lambda>buf.
     let offset = offset + (length process + 1) in
     bnd (write_at buf offset (instr @ [NUL])) (\<lambda>buf.
     let offset = offset + (length instr + 1) in
     bnd (write_at buf offset (le_bytes 4 arg_size)) (\<lambda>buf.
     let offset = offset + 4 in
     if arg_size > 0 then
       (case args of
          None \<Rightarrow> Fault NullDeref
        | Some mem \<Rightarrow>
            if arg_size \<le> length mem then write_at buf offset (take arg_size mem)
            else Fault OutOfBounds)
     else Ok buf)))))"

definition bundle_bytes :: "bytes \<Rightarrow> bytes \<Rightarrow> bytes \<Rightarrow> bytes option \<Rightarrow> nat \<Rightarrow> bytes outcome" where
  "bundle_bytes process dest instr args arg_size =
     fill_bundle (replicate (bundle_size process dest instr arg_size) NUL) process dest instr args arg_size"

subsection \<open>Parsing\<close>

record WimpInstrMeta =
  source_process :: "nat option"
  dest_process :: "nat option"
  m_instr :: "nat option"
  m_args :: "nat option"
  total_bytes :: nat
  arg_bytes :: int
  instr_bytes :: int

definition null_meta :: WimpInstrMeta where
  "null_meta = \<lparr>source_process = None, dest_process = None, m_instr = None, m_args = None,
                total_bytes = 0, arg_bytes = 0, instr_bytes = 0\<rparr>"

text \<open>The three \<open>while\<close> loops of the parser: stop one past the next NUL, or at the buffer size
  the caller gave. A read beyond the real buffer is a fault.\<close>

function find_start :: "bytes \<Rightarrow> nat \<Rightarrow> char \<Rightarrow> nat \<Rightarrow> nat outcome" where
  "find_start buffer buffsize current_char offset =
     (if current_char \<noteq> NUL \<and> offset < buffsize
      then bnd (byte_at buffer offset) (\<lambda>c. find_start buffer buffsize c (Suc offset))
      else Ok offset)"
  by pat_completeness auto
termination
  by (relation "measure (\<lambda>(b, n, c, off). n - off)") auto

declare find_start.simps [simp del]

definition read_int32 :: "bytes \<Rightarrow> nat \<Rightarrow> int outcome" where
  "read_int32 b off =
     (if off + 4 \<le> length b then Ok (to_int32 (le_val (take 4 (drop off b)))) else Fault OutOfBounds)"

definition wimp_instr_get_from_buffer :: "bytes option \<Rightarrow> nat \<Rightarrow> WimpInstrMeta outcome" where
  "wimp_instr_get_from_buffer buffer buffsize =
     (case buffer of
        None \<Rightarrow> Ok null_meta
      | Some b \<Rightarrow>
          bnd (byte_at b 0) (\<lambda>c0.
          if c0 = NUL then Ok null_meta
          else
            bnd (find_start b buffsize (CHR '' '') (WIMP_INSTRUCTION_DEST_OFFSET + 1)) (\<lambda>source_start.
            bnd (find_start b buffsize (CHR '' '') (source_start + 1)) (\<lambda>instr_start.
            bnd (find_start b buffsize (CHR '' '') (instr_start + 1)) (\<lambda>offset.
            bnd (read_int32 b offset) (\<lambda>argb.
            bnd (read_int32 b 0) (\<lambda>total.
            Ok \<lparr>source_process = Some source_start,
                dest_process = Some WIMP_INSTRUCTION_DEST_OFFSET,
                m_instr = Some instr_start,
                m_args = (if argb \<noteq> 0 then Some (offset + 4) else None),
                total_bytes = to_size total,
                arg_bytes = argb,
                instr_bytes = to_int32 (offset - instr_start)\<rparr>)))))))"

text \<open>\<open>strcmp\<close> on two string pointers, NULL among them.\<close>

definition strings_equal :: "bytes option \<Rightarrow> bytes option \<Rightarrow> bool outcome" where
  "strings_equal s t =
     (case (s, t) of (Some a, Some b) \<Rightarrow> Ok (a = b) | _ \<Rightarrow> Fault NullDeref)"

definition wimp_instr_check :: "bytes option \<Rightarrow> bytes option \<Rightarrow> bool outcome" where
  "wimp_instr_check instr1 instr2 = strings_equal instr1 instr2"

text \<open>The string behind a pointer of the metadata.\<close>

definition meta_string :: "bytes option \<Rightarrow> nat option \<Rightarrow> bytes option outcome" where
  "meta_string buffer p =
     (case p of None \<Rightarrow> Ok None
      | Some off \<Rightarrow>
          (case buffer of None \<Rightarrow> Fault NullDeref
           | Some b \<Rightarrow> bnd (cstr_at b off) (\<lambda>s. Ok (Some s))))"

subsection \<open>String packs\<close>

text \<open>
  \<open>struct _WimpStrPack\<close> is ten \<open>size_t\<close> fields: \<open>pack_size\<close>, \<open>str_count\<close> and the offsets of up
  to eight strings, which follow in the same chunk.
\<close>

definition WIMP_STR_PACK_MAX_STRINGS :: nat where
  "WIMP_STR_PACK_MAX_STRINGS = 8"

definition STR_PACK_BYTES :: nat where
  "STR_PACK_BYTES = 80"

definition pack_total :: "bytes list \<Rightarrow> nat" where
  "pack_total strings = STR_PACK_BYTES + sum_list (map (\<lambda>s. length s + 2) strings)"

text \<open>The second loop: copy string \<open>i\<close> with its NUL to \<open>offset\<close>, and record the offset.\<close>

fun pack_loop :: "bytes \<Rightarrow> nat \<Rightarrow> nat \<Rightarrow> bytes list \<Rightarrow> bytes outcome" where
  "pack_loop pack i offset [] = Ok pack"
| "pack_loop pack i offset (s # strings) =
     bnd (write_at pack (STR_PACK_BYTES + offset) (s @ [NUL])) (\<lambda>pack.
     bnd (write_at pack (16 + 8 * i) (le_bytes 8 offset)) (\<lambda>pack.
     pack_loop pack (Suc i) (offset + (length s + 2)) strings))"

definition wimp_instr_pack_strings :: "bool \<Rightarrow> bytes list \<Rightarrow> bytes option outcome" where
  "wimp_instr_pack_strings malloc_ok strings =
     bnd (guard_or AssertFailed (length strings \<le> WIMP_STR_PACK_MAX_STRINGS)) (\<lambda>_.
     if \<not> malloc_ok then Ok None
     else
       bnd (pack_loop (replicate (pack_total strings) NUL) 0 0 strings) (\<lambda>pack.
       bnd (write_at pack 0 (le_bytes 8 (pack_total strings))) (\<lambda>pack.
       bnd (write_at pack 8 (le_bytes 8 (length strings))) (\<lambda>pack.
       Ok (Some pack)))))"

text \<open>Only the upper bound of the index is asserted; a negative index leaves the array.\<close>

definition wimp_instr_pack_get_string :: "bytes \<Rightarrow> int \<Rightarrow> bytes outcome" where
  "wimp_instr_pack_get_string pack index =
     bnd (guard_or AssertFailed (index < int WIMP_STR_PACK_MAX_STRINGS)) (\<lambda>_.
     bnd (guard_or OutOfBounds (0 \<le> index \<and> STR_PACK_BYTES \<le> length pack)) (\<lambda>_.
     let offset = le_val (take 8 (drop (16 + 8 * nat index) pack)) in
     cstr_at pack (STR_PACK_BYTES + offset)))"

text \<open>\<open>wimp_instr_pack_free\<close>: the pack freed, and the caller's pointer afterwards.\<close>

definition wimp_instr_pack_free :: "bytes heap \<Rightarrow> addr option \<Rightarrow> (addr option \<times> bytes heap) outcome" where
  "wimp_instr_pack_free h pack = bnd (hfree h pack) (\<lambda>h. Ok (None, h))"

section \<open>Round trips\<close>

text \<open>The documented wire format of an instruction with its argument bytes.\<close>

definition instr_size :: "bytes \<Rightarrow> bytes \<Rightarrow> bytes \<Rightarrow> bytes \<Rightarrow> nat" where
  "instr_size source dest name a = length source + length dest + length name + length a + 11"

definition instr_wire :: "bytes \<Rightarrow> bytes \<Rightarrow> bytes \<Rightarrow> bytes \<Rightarrow> bytes" where
  "instr_wire source dest name a =
     le_bytes 4 (instr_size source dest name a) @ dest @ NUL # source @ NUL # name @ NUL #
     le_bytes 4 (length a) @ a"

lemma length_instr_wire [simp]: "length (instr_wire source dest name a) = instr_size source dest name a"
  by (simp add: instr_wire_def instr_size_def)

lemma write_at_prefix:
  "length pre = off \<Longrightarrow> length src \<le> length old \<Longrightarrow>
   write_at (pre @ old) off src = Ok ((pre @ src) @ drop (length src) old)"
  by (auto simp: write_at_def)

lemma write_at_0: "length src \<le> length old \<Longrightarrow> write_at old 0 src = Ok (src @ drop (length src) old)"
  by (simp add: write_at_def)

text \<open>Whatever the allocated memory held, the writes produce exactly the wire format.\<close>

lemma fill_bundle_wire:
  assumes sz: "bundle_size source dest name (length a) = instr_size source dest name a"
    and len: "length buf = instr_size source dest name a"
    and mem: "a = [] \<or> (\<exists>rest. args = Some (a @ rest))"
  shows "fill_bundle buf source dest name args (length a) = Ok (instr_wire source dest name a)"
proof -
  let ?h = "le_bytes 4 (instr_size source dest name a)"
  have l: "length buf = length source + length dest + length name + length a + 11"
    using len by (simp add: instr_size_def)
  have 1: "write_at buf 0 ?h = Ok (?h @ drop 4 buf)"
    using l by (simp add: write_at_0)
  have 2: "write_at (?h @ drop 4 buf) 4 (dest @ [NUL]) =
      Ok ((?h @ dest @ [NUL]) @ drop (length dest + 5) buf)"
    using l by (subst write_at_prefix) (auto simp: add.commute)
  have 3: "write_at ((?h @ dest @ [NUL]) @ drop (length dest + 5) buf) (4 + (length dest + 1))
        (source @ [NUL]) =
      Ok ((?h @ dest @ NUL # source @ [NUL]) @ drop (length dest + length source + 6) buf)"
    using l by (subst write_at_prefix) (auto simp: add_ac)
  have 4: "write_at ((?h @ dest @ NUL # source @ [NUL]) @ drop (length dest + length source + 6) buf)
        (4 + (length dest + 1) + (length source + 1)) (name @ [NUL]) =
      Ok ((?h @ dest @ NUL # source @ NUL # name @ [NUL])
          @ drop (length dest + length source + length name + 7) buf)"
    using l by (subst write_at_prefix) (auto simp: add_ac)
  have 5: "write_at ((?h @ dest @ NUL # source @ NUL # name @ [NUL])
          @ drop (length dest + length source + length name + 7) buf)
        (4 + (length dest + 1) + (length source + 1) + (length name + 1)) (le_bytes 4 (length a)) =
      Ok ((?h @ dest @ NUL # source @ NUL # name @ NUL # le_bytes 4 (length a))
          @ drop (length dest + length source + length name + 11) buf)"
    using l by (subst write_at_prefix) (auto simp: add_ac)
  have 6: "write_at ((?h @ dest @ NUL # source @ NUL # name @ NUL # le_bytes 4 (length a))
          @ drop (length dest + length source + length name + 11) buf)
        (4 + (length dest + 1) + (length source + 1) + (length name + 1) + 4) a =
      Ok (instr_wire source dest name a)"
    using l by (subst write_at_prefix) (auto simp: add_ac instr_wire_def)
  show ?thesis
  proof (cases "a = []")
    case True
    have "drop (length dest + length source + length name + 11) buf = []"
      using l True by simp
    then show ?thesis using True 1 2 3 4 5 sz
      by (simp add: fill_bundle_def Let_def instr_wire_def)
  next
    case False
    with mem obtain rest where "args = Some (a @ rest)" by blast
    then show ?thesis using False 1 2 3 4 5 6 sz by (simp add: fill_bundle_def Let_def)
  qed
qed

lemma bundle_size_eq:
  "instr_size source dest name a < 2 ^ 64 \<Longrightarrow>
   bundle_size source dest name (length a) = instr_size source dest name a"
  by (simp add: bundle_size_def instr_size_def)

lemma bundle_bytes_wire:
  assumes "instr_size source dest name a < 2 ^ 64" and "a = [] \<or> (\<exists>rest. args = Some (a @ rest))"
  shows "bundle_bytes source dest name args (length a) = Ok (instr_wire source dest name a)"
  unfolding bundle_bytes_def bundle_size_eq [OF assms(1)]
  using assms by (intro fill_bundle_wire) (simp_all add: bundle_size_eq)

subsection \<open>Parsing the wire format\<close>

lemma find_start_string:
  assumes "cstring s" and "buffer = pre @ s @ NUL # rest" and "off = length pre"
    and "length pre + length s < buffsize" and "c \<noteq> NUL"
  shows "find_start buffer buffsize c off = Ok (length pre + length s + 1)"
  using assms
proof (induction s arbitrary: pre c off)
  case Nil
  then show ?case by (simp add: find_start.simps [of _ _ c] find_start.simps [of _ _ NUL] byte_at_def)
next
  case (Cons x xs)
  have "find_start buffer buffsize x (Suc off) = Ok (length (pre @ [x]) + length xs + 1)"
    using Cons.prems by (intro Cons.IH) auto
  then show ?case using Cons.prems
    by (simp add: find_start.simps [of _ _ c] byte_at_def nth_append)
qed

lemma nth_0_le_bytes: "0 < k \<Longrightarrow> le_bytes k n ! 0 = char_of n"
  by (cases k) simp_all

lemma char_of_NUL: "char_of n = NUL \<longleftrightarrow> n mod 256 = (0::nat)"
  by (simp add: char_of_eq_iff take_bit_eq_mod)

lemma first_byte_wire:
  "byte_at (instr_wire source dest name a) 0 = Ok (char_of (instr_size source dest name a))"
  by (simp add: byte_at_def instr_wire_def nth_append nth_0_le_bytes instr_size_def)

text \<open>A total size that is a multiple of 256 makes the first byte zero, the mark of a ping.\<close>

lemma parse_wire_ping:
  "instr_size source dest name a mod 256 = 0 \<Longrightarrow>
   wimp_instr_get_from_buffer (Some (instr_wire source dest name a)) n = Ok null_meta"
  by (simp add: wimp_instr_get_from_buffer_def first_byte_wire char_of_NUL)

definition wire_meta :: "bytes \<Rightarrow> bytes \<Rightarrow> bytes \<Rightarrow> bytes \<Rightarrow> WimpInstrMeta" where
  "wire_meta source dest name a =
     \<lparr>source_process = Some (length dest + 5),
      dest_process = Some 4,
      m_instr = Some (length dest + length source + 6),
      m_args = (if a = [] then None else Some (length dest + length source + length name + 11)),
      total_bytes = instr_size source dest name a,
      arg_bytes = int (length a),
      instr_bytes = int (length name + 1)\<rparr>"

lemma read_int32_at:
  "n < 2 ^ 31 \<Longrightarrow> buf = pre @ le_bytes 4 n @ rest \<Longrightarrow> off = length pre \<Longrightarrow>
   read_int32 buf off = Ok (int n)"
  by (simp add: read_int32_def le_val_le_bytes to_int32_small)

lemma parse_wire:
  assumes "cstring dest" "cstring source" "cstring name" "dest \<noteq> []" "source \<noteq> []" "name \<noteq> []"
    and sz: "instr_size source dest name a < 2 ^ 31" and "instr_size source dest name a mod 256 \<noteq> 0"
    and n: "instr_size source dest name a \<le> n"
  shows "wimp_instr_get_from_buffer (Some (instr_wire source dest name a)) n = Ok (wire_meta source dest name a)"
proof -
  let ?b = "instr_wire source dest name a" and ?h = "le_bytes 4 (instr_size source dest name a)"
  obtain d dest' where d: "dest = d # dest'" using assms(4) by (cases dest) auto
  obtain s source' where s: "source = s # source'" using assms(5) by (cases source) auto
  obtain m name' where m: "name = m # name'" using assms(6) by (cases name) auto
  have i: "length source + length dest + length name + length a + 11 \<le> n"
    using n by (simp add: instr_size_def)
  have c0: "char_of (instr_size source dest name a) \<noteq> NUL"
    using assms(8) by (simp add: char_of_NUL)
  have 1: "find_start ?b n (CHR '' '') (4 + 1) = Ok (length dest + 5)"
    using find_start_string [of dest' ?b "?h @ [d]" "source @ NUL # name @ NUL # le_bytes 4 (length a) @ a" 5 n]
      assms(1) i by (simp add: d instr_wire_def)
  have 2: "find_start ?b n (CHR '' '') (length dest + 5 + 1) = Ok (length dest + length source + 6)"
    using find_start_string [of source' ?b "?h @ dest @ [NUL, s]" "name @ NUL # le_bytes 4 (length a) @ a"
        "6 + length dest" n] assms(2) i by (simp add: s instr_wire_def)
  have 3: "find_start ?b n (CHR '' '') (length dest + length source + 6 + 1)
      = Ok (length dest + length source + length name + 7)"
    using find_start_string [of name' ?b "?h @ dest @ NUL # source @ [NUL, m]" "le_bytes 4 (length a) @ a"
        "7 + (length dest + length source)" n] assms(3) i by (simp add: m instr_wire_def)
  have 4: "read_int32 ?b (length dest + length source + length name + 7) = Ok (int (length a))"
    using sz by (intro read_int32_at [where pre = "?h @ dest @ NUL # source @ NUL # name @ [NUL]" and rest = a])
      (simp_all add: instr_wire_def instr_size_def)
  have 5: "read_int32 ?b 0 = Ok (int (instr_size source dest name a))"
    using sz by (intro read_int32_at [where pre = "[]"]) (simp_all add: instr_wire_def)
  have 6: "to_size (int (instr_size source dest name a)) = instr_size source dest name a"
    using sz by (subst to_size_nonneg) simp_all
  have 7: "to_int32 (Suc (length name)) = int (length name) + 1"
    using sz by (subst to_int32_small) (simp_all add: instr_size_def)
  show ?thesis
    unfolding wimp_instr_get_from_buffer_def WIMP_INSTRUCTION_DEST_OFFSET_def option.case
      first_byte_wire bnd.simps if_not_P [OF c0] 1 2 3 4 5 6
    using 7 by (simp add: wire_meta_def)
qed

lemma wire_strings:
  assumes "cstring dest" "cstring source" "cstring name"
  shows "cstr_at (instr_wire source dest name a) 4 = Ok dest"
    and "cstr_at (instr_wire source dest name a) (length dest + 5) = Ok source"
    and "cstr_at (instr_wire source dest name a) (length dest + length source + 6) = Ok name"
    and "drop (length dest + length source + length name + 11) (instr_wire source dest name a) = a"
proof -
  let ?h = "le_bytes 4 (instr_size source dest name a)"
  show "cstr_at (instr_wire source dest name a) 4 = Ok dest"
    using cstr_at_append [OF assms(1), of ?h "source @ NUL # name @ NUL # le_bytes 4 (length a) @ a"]
    by (simp add: instr_wire_def)
  show "cstr_at (instr_wire source dest name a) (length dest + 5) = Ok source"
    using cstr_at_append [OF assms(2), of "?h @ dest @ [NUL]" "name @ NUL # le_bytes 4 (length a) @ a"]
    by (simp add: instr_wire_def add.commute)
  show "cstr_at (instr_wire source dest name a) (length dest + length source + 6) = Ok name"
    using cstr_at_append [OF assms(3), of "?h @ dest @ NUL # source @ [NUL]" "le_bytes 4 (length a) @ a"]
    by (simp add: instr_wire_def add_ac)
  show "drop (length dest + length source + length name + 11) (instr_wire source dest name a) = a"
    using append_eq_conv_conj [of "?h @ dest @ NUL # source @ NUL # name @ NUL # le_bytes 4 (length a)" a
        "instr_wire source dest name a"]
    by (simp add: instr_wire_def add_ac)
qed

lemma wire_meta_strings:
  assumes "cstring dest" "cstring source" "cstring name"
  shows "meta_string (Some (instr_wire source dest name a)) (dest_process (wire_meta source dest name a)) = Ok (Some dest)"
    and "meta_string (Some (instr_wire source dest name a)) (source_process (wire_meta source dest name a)) = Ok (Some source)"
    and "meta_string (Some (instr_wire source dest name a)) (m_instr (wire_meta source dest name a)) = Ok (Some name)"
  by (simp_all add: meta_string_def wire_meta_def wire_strings [OF assms])

subsection \<open>String packs\<close>

lemma write_at_Ok: "off + length src \<le> length b \<Longrightarrow> write_at b off src = Ok (take off b @ src @ drop (off + length src) b)"
  by (simp add: write_at_def)

lemma write_at_other:
  assumes "write_at b off src = Ok b'" and "i + n \<le> off \<or> off + length src \<le> i"
  shows "take n (drop i b') = take n (drop i b)"
proof -
  have b': "b' = take off b @ src @ drop (off + length src) b" and le: "off + length src \<le> length b"
    using assms(1) by (auto simp: write_at_def split: if_splits)
  show ?thesis
    using assms(2) le by (intro nth_equalityI) (auto simp: b' nth_append)
qed

lemma write_at_here:
  assumes "write_at b off src = Ok b'"
  shows "take (length src) (drop off b') = src"
  using assms by (auto simp: write_at_def split: if_splits)

lemma cstr_at_window:
  assumes "take (length s + 1) (drop off b) = s @ [NUL]" and "cstring s"
  shows "cstr_at b off = Ok s"
proof -
  have "drop off b = s @ NUL # drop (length s + 1) (drop off b)"
    using assms(1) by (metis append.assoc append_Cons append_Nil append_take_drop_id)
  then show ?thesis using assms(2) by (metis cstr_at_def in_set_conv_decomp until_nul_append)
qed

definition pack_offset :: "bytes list \<Rightarrow> nat \<Rightarrow> nat" where
  "pack_offset strings k = sum_list (map (\<lambda>s. length s + 2) (take k strings))"

lemma pack_offset_Suc: "pack_offset (s # strings) (Suc k) = length s + 2 + pack_offset strings k"
  by (simp add: pack_offset_def)

lemma pack_offset_0 [simp]: "pack_offset strings 0 = 0"
  by (simp add: pack_offset_def)

text \<open>What the copying loop leaves in the pack: the slots and strings it wrote, and every window
  of bytes it has no business with.\<close>

lemma pack_loop_spec:
  assumes "i + length strings \<le> 8"
    and "80 + offset + pack_offset strings (length strings) \<le> length pack"
    and "length pack < 2 ^ 64"
  shows "\<exists>p. pack_loop pack i offset strings = Ok p \<and> length p = length pack
    \<and> (\<forall>k < length strings.
         take 8 (drop (16 + 8 * (i + k)) p) = le_bytes 8 (offset + pack_offset strings k)
       \<and> take (length (strings ! k) + 1) (drop (80 + offset + pack_offset strings k) p) = strings ! k @ [NUL])
    \<and> (\<forall>a n. a + n \<le> 16 + 8 * i \<or> 16 + 8 * (i + length strings) \<le> a \<and> a + n \<le> 80 + offset
         \<longrightarrow> take n (drop a p) = take n (drop a pack))"
  using assms
proof (induction strings arbitrary: pack i offset)
  case Nil
  then show ?case by simp
next
  case (Cons s strings)
  have tot: "80 + offset + (length s + 2) + pack_offset strings (length strings) \<le> length pack"
    using Cons.prems(2) by (simp add: pack_offset_Suc)
  obtain p1 where p1: "write_at pack (80 + offset) (s @ [NUL]) = Ok p1"
    using tot by (simp add: write_at_def)
  then have l1: "length p1 = length pack" by (rule write_at_length)
  obtain p2 where p2: "write_at p1 (16 + 8 * i) (le_bytes 8 offset) = Ok p2"
    using Cons.prems(1) tot l1 by (simp add: write_at_def)
  then have l2: "length p2 = length pack" using write_at_length l1 by metis
  obtain p where p: "pack_loop p2 (Suc i) (offset + (length s + 2)) strings = Ok p"
      "length p = length pack"
    and slots: "\<And>k. k < length strings \<Longrightarrow>
         take 8 (drop (16 + 8 * (Suc i + k)) p) = le_bytes 8 (offset + (length s + 2) + pack_offset strings k)
       \<and> take (length (strings ! k) + 1) (drop (80 + (offset + (length s + 2)) + pack_offset strings k) p)
           = strings ! k @ [NUL]"
    and frame: "\<And>a n. a + n \<le> 16 + 8 * Suc i
         \<or> 16 + 8 * (Suc i + length strings) \<le> a \<and> a + n \<le> 80 + (offset + (length s + 2))
         \<Longrightarrow> take n (drop a p) = take n (drop a p2)"
    using Cons.IH [of "Suc i" "offset + (length s + 2)" p2] Cons.prems l2 tot by auto
  have "take 8 (drop (16 + 8 * i) p) = le_bytes 8 offset"
    using frame [of "16 + 8 * i" 8] write_at_here [OF p2] by simp
  moreover have "take (length s + 1) (drop (80 + offset) p) = s @ [NUL]"
    using frame [of "80 + offset" "length s + 1"] Cons.prems(1) write_at_here [OF p1]
      write_at_other [OF p2, of "80 + offset" "length s + 1"] by simp
  moreover have "take n (drop a p) = take n (drop a pack)"
    if "a + n \<le> 16 + 8 * i \<or> 16 + 8 * (i + length (s # strings)) \<le> a \<and> a + n \<le> 80 + offset" for a n
    using frame [of a n] write_at_other [OF p2, of a n] write_at_other [OF p1, of a n] that
      Cons.prems(1) by auto
  moreover have "pack_loop pack i offset (s # strings) = Ok p"
    using p1 p2 p(1) by (simp add: STR_PACK_BYTES_def)
  ultimately show ?case
    using p(2) slots
    by (intro exI [of _ p] conjI) (auto simp: nth_Cons less_Suc_eq_0_disj pack_offset_Suc add_ac split: nat.split)
qed

lemma pack_total_eq: "pack_total strings = 80 + pack_offset strings (length strings)"
  by (simp add: pack_total_def pack_offset_def STR_PACK_BYTES_def)

lemma pack_offset_mono: "k \<le> length strings \<Longrightarrow> pack_offset strings k \<le> pack_offset strings (length strings)"
  by (metis add_leD1 append_take_drop_id le_add1 map_append pack_offset_def sum_list_append take_all_iff nle_le)

text \<open>The two header fields that the final writes fill in.\<close>

definition pack_size :: "bytes \<Rightarrow> nat" where
  "pack_size p = le_val (take 8 p)"

definition str_count :: "bytes \<Rightarrow> nat" where
  "str_count p = le_val (take 8 (drop 8 p))"

lemma pack_strings_spec:
  assumes "length strings \<le> 8" and sz: "pack_total strings < 2 ^ 64"
    and str: "\<And>s. s \<in> set strings \<Longrightarrow> cstring s"
  shows "\<exists>p. wimp_instr_pack_strings True strings = Ok (Some p) \<and> length p = pack_total strings
    \<and> pack_size p = pack_total strings \<and> str_count p = length strings
    \<and> (\<forall>k < length strings. wimp_instr_pack_get_string p (int k) = Ok (strings ! k))"
proof -
  let ?b = "replicate (pack_total strings) NUL"
  obtain p0 where p0: "pack_loop ?b 0 0 strings = Ok p0" "length p0 = pack_total strings"
    and slots: "\<And>k. k < length strings \<Longrightarrow>
         take 8 (drop (16 + 8 * k) p0) = le_bytes 8 (pack_offset strings k)
       \<and> take (length (strings ! k) + 1) (drop (80 + pack_offset strings k) p0) = strings ! k @ [NUL]"
    using pack_loop_spec [of 0 strings 0 ?b] assms(1) sz by (auto simp: pack_total_eq)
  obtain p1 where p1: "write_at p0 0 (le_bytes 8 (pack_total strings)) = Ok p1"
    using p0(2) by (simp add: write_at_def pack_total_eq)
  then have l1: "length p1 = pack_total strings" using write_at_length p0(2) by metis
  obtain p where p: "write_at p1 8 (le_bytes 8 (length strings)) = Ok p"
    using l1 by (simp add: write_at_def pack_total_eq)
  then have l: "length p = pack_total strings" using write_at_length l1 by metis
  have keep: "take n (drop a p) = take n (drop a p0)" if "16 \<le> a" for a n
    using write_at_other [OF p, of a n] write_at_other [OF p1, of a n] that by simp
  have "wimp_instr_pack_get_string p (int k) = Ok (strings ! k)" if k: "k < length strings" for k
  proof -
    have "pack_offset strings k < 2 ^ 64"
      using pack_offset_mono [of k strings] k sz by (simp add: pack_total_eq)
    then have "le_val (take 8 (drop (16 + 8 * k) p)) = pack_offset strings k"
      using slots [OF k] keep [of "16 + 8 * k" 8] by (simp add: le_val_le_bytes)
    moreover have "cstr_at p (80 + pack_offset strings k) = Ok (strings ! k)"
      using slots [OF k] keep [of "80 + pack_offset strings k"] k str by (intro cstr_at_window) auto
    ultimately show ?thesis
      using k assms(1) l
      by (simp add: wimp_instr_pack_get_string_def WIMP_STR_PACK_MAX_STRINGS_def STR_PACK_BYTES_def
          pack_total_eq Let_def)
  qed
  moreover have "pack_size p = pack_total strings"
    using write_at_other [OF p, of 0 8] write_at_here [OF p1] sz
    by (simp add: pack_size_def le_val_le_bytes)
  moreover have "str_count p = length strings"
    using write_at_here [OF p] assms(1) by (simp add: str_count_def le_val_le_bytes)
  moreover have "wimp_instr_pack_strings True strings = Ok (Some p)"
    using assms(1) p0(1) p1 p by (simp add: wimp_instr_pack_strings_def WIMP_STR_PACK_MAX_STRINGS_def)
  ultimately show ?thesis using l by blast
qed

section \<open>Properties\<close>

text \<open>C5: What the sender encodes the receiver's parser decodes: for names without NUL and not empty, and
  a size that fits \<open>int32_t\<close> and is no multiple of 256, bundling and then parsing yields the destination,
  the source, the instruction name, the argument bytes and both sizes.\<close>

theorem bundle_parse_roundtrip:
  assumes "cstring dest" "cstring source" "cstring name" "dest \<noteq> []" "source \<noteq> []" "name \<noteq> []"
    and "instr_size source dest name a < 2 ^ 31" and "instr_size source dest name a mod 256 \<noteq> 0"
  shows "\<exists>w meta. bundle_bytes source dest name (Some a) (length a) = Ok w
    \<and> wimp_instr_get_from_buffer (Some w) (length w) = Ok meta
    \<and> meta_string (Some w) (dest_process meta) = Ok (Some dest)
    \<and> meta_string (Some w) (source_process meta) = Ok (Some source)
    \<and> meta_string (Some w) (m_instr meta) = Ok (Some name)
    \<and> total_bytes meta = length w \<and> arg_bytes meta = int (length a)
    \<and> (case m_args meta of None \<Rightarrow> a = [] | Some p \<Rightarrow> drop p w = a)"
proof -
  let ?w = "instr_wire source dest name a" and ?meta = "wire_meta source dest name a"
  have "bundle_bytes source dest name (Some a) (length a) = Ok ?w"
    using assms(7) by (intro bundle_bytes_wire) auto
  moreover have "wimp_instr_get_from_buffer (Some ?w) (length ?w) = Ok ?meta"
    using assms by (intro parse_wire) simp_all
  moreover have "total_bytes ?meta = length ?w" "arg_bytes ?meta = int (length a)"
    by (simp_all add: wire_meta_def)
  moreover have "case m_args ?meta of None \<Rightarrow> a = [] | Some p \<Rightarrow> drop p ?w = a"
    using wire_strings(4) [OF assms(1-3)] by (simp add: wire_meta_def)
  ultimately show ?thesis using wire_meta_strings [OF assms(1-3)] by blast
qed

theorem bundle_parse_roundtrip_witness:
  "\<exists>w meta. bundle_bytes ''main'' ''log'' ''print'' (Some ''hi'') (length ''hi'') = Ok w
    \<and> wimp_instr_get_from_buffer (Some w) (length w) = Ok meta
    \<and> meta_string (Some w) (dest_process meta) = Ok (Some ''log'')
    \<and> meta_string (Some w) (source_process meta) = Ok (Some ''main'')
    \<and> meta_string (Some w) (m_instr meta) = Ok (Some ''print'')
    \<and> total_bytes meta = length w \<and> arg_bytes meta = int (length ''hi'')
    \<and> (case m_args meta of None \<Rightarrow> ''hi'' = [] | Some p \<Rightarrow> drop p w = ''hi'')"
  by (rule bundle_parse_roundtrip) (simp_all add: cstring_def instr_size_def)

text \<open>C38: An instruction whose total size is a multiple of 256 is not decoded: its first byte is zero,
  which the parser takes for a ping, so it returns the empty metadata, and comparing the instruction name,
  as every receiver of it does, follows a NULL pointer.\<close>

theorem size_multiple_of_256_lost:
  assumes "instr_size source dest name a mod 256 = 0" and "instr_size source dest name a < 2 ^ 31"
  shows "\<exists>w. bundle_bytes source dest name (Some a) (length a) = Ok w
    \<and> wimp_instr_get_from_buffer (Some w) (length w) = Ok null_meta
    \<and> bnd (meta_string (Some w) (m_instr null_meta)) (\<lambda>s. wimp_instr_check s (Some other)) = Fault NullDeref"
proof -
  have "bundle_bytes source dest name (Some a) (length a) = Ok (instr_wire source dest name a)"
    using assms(2) by (intro bundle_bytes_wire) auto
  then show ?thesis using parse_wire_ping [OF assms(1)]
    by (simp add: null_meta_def meta_string_def wimp_instr_check_def strings_equal_def)
qed

theorem size_multiple_of_256_lost_witness:
  "\<exists>w. bundle_bytes ''main'' ''log'' ''print'' (Some (replicate 233 NUL)) (length (replicate 233 NUL)) = Ok w
    \<and> wimp_instr_get_from_buffer (Some w) (length w) = Ok null_meta
    \<and> bnd (meta_string (Some w) (m_instr null_meta)) (\<lambda>s. wimp_instr_check s (Some ''exit'')) = Fault NullDeref"
  by (rule size_multiple_of_256_lost) (simp_all add: instr_size_def)

text \<open>C28: A string pack returns the strings it was made from: packing up to eight strings succeeds, records
  its own size and the number of strings, and \<open>wimp_instr_pack_get_string\<close> yields each of them. With more
  than eight the assertion fails.\<close>

theorem pack_roundtrip:
  assumes "pack_total strings < 2 ^ 64" and "\<forall>s \<in> set strings. cstring s"
  shows "if length strings \<le> 8
    then \<exists>p. wimp_instr_pack_strings True strings = Ok (Some p) \<and> length p = pack_total strings
      \<and> pack_size p = pack_total strings \<and> str_count p = length strings
      \<and> (\<forall>k < length strings. wimp_instr_pack_get_string p (int k) = Ok (strings ! k))
    else wimp_instr_pack_strings True strings = Fault AssertFailed"
  using pack_strings_spec [OF _ assms(1)] assms(2)
  by (simp add: wimp_instr_pack_strings_def WIMP_STR_PACK_MAX_STRINGS_def)

theorem pack_roundtrip_witness:
  "if length [''ab'', '''', ''c''] \<le> 8
    then \<exists>p. wimp_instr_pack_strings True [''ab'', '''', ''c''] = Ok (Some p)
      \<and> length p = pack_total [''ab'', '''', ''c'']
      \<and> pack_size p = pack_total [''ab'', '''', ''c''] \<and> str_count p = length [''ab'', '''', ''c'']
      \<and> (\<forall>k < length [''ab'', '''', ''c'']. wimp_instr_pack_get_string p (int k) = Ok ([''ab'', '''', ''c''] ! k))
    else wimp_instr_pack_strings True [''ab'', '''', ''c''] = Fault AssertFailed"
  by (rule pack_roundtrip) (simp_all add: pack_total_def STR_PACK_BYTES_def cstring_def)

end
