(* ===== verification/Wimp_Queue.thy ===== *)
theory Wimp_Queue
  imports Wimp_Instr
begin

section \<open>Instruction queues (\<open>wimp_instruction.c\<close>)\<close>

text \<open>
  The queues are singly linked lists of heap nodes with a front and a back pointer. The heap is
  explicit: \<open>nodes\<close> holds the nodes, \<open>bufs\<close> the instruction buffers they own, so that
  aliasing and dangling pointers are visible. Mutexes come from the threading library: a mutex
  is a handle, and an operation that locks or unlocks returns the list of calls it makes.

  The first part holds the operations, the second the interface of a linked queue with the
  lemma on draining one queue into another, the third its interpretation on the operations.
\<close>

subsection \<open>State\<close>

record instr_node =
  instruction :: "addr option"
  instruction_bytes :: nat
  nextnode :: "addr option"

record mem =
  nodes :: "instr_node heap"
  bufs :: "bytes heap"

type_synonym mutex = nat

record WimpInstrQueue =
  qnext :: "addr option"
  qback :: "addr option"
  datamutex :: mutex
  nextmutex :: mutex
  lowpriomutex :: mutex

datatype mutex_call = MLock mutex | MUnlock mutex | MFree mutex

text \<open>The three handles are the results of the three \<open>p_mutex_new\<close> calls.\<close>

definition wimp_create_instr_queue :: "mutex \<Rightarrow> mutex \<Rightarrow> mutex \<Rightarrow> WimpInstrQueue" where
  "wimp_create_instr_queue data next low =
     \<lparr>qnext = None, qback = None, datamutex = data, nextmutex = next, lowpriomutex = low\<rparr>"

subsection \<open>Locking\<close>

definition wimp_instr_queue_low_prio_lock :: "WimpInstrQueue \<Rightarrow> mutex_call list" where
  "wimp_instr_queue_low_prio_lock q =
     [MLock (lowpriomutex q), MLock (nextmutex q), MLock (datamutex q), MUnlock (nextmutex q)]"

definition wimp_instr_queue_low_prio_unlock :: "WimpInstrQueue \<Rightarrow> mutex_call list" where
  "wimp_instr_queue_low_prio_unlock q = [MUnlock (datamutex q), MUnlock (lowpriomutex q)]"

definition wimp_instr_queue_high_prio_lock :: "WimpInstrQueue \<Rightarrow> mutex_call list" where
  "wimp_instr_queue_high_prio_lock q =
     [MLock (nextmutex q), MLock (datamutex q), MUnlock (nextmutex q)]"

definition wimp_instr_queue_high_prio_unlock :: "WimpInstrQueue \<Rightarrow> mutex_call list" where
  "wimp_instr_queue_high_prio_unlock q = [MUnlock (datamutex q)]"

subsection \<open>Adding and popping\<close>

text \<open>The \<open>if\<close> that both adding functions end in.\<close>

definition link_back :: "mem \<Rightarrow> WimpInstrQueue \<Rightarrow> addr \<Rightarrow> (WimpInstrQueue \<times> mem) outcome" where
  "link_back m q a =
     (case qback q of
        None \<Rightarrow> Ok (q\<lparr>qnext := Some a, qback := Some a\<rparr>, m)
      | Some b \<Rightarrow>
          bnd (hload (nodes m) b) (\<lambda>n.
          bnd (hstore (nodes m) b (n\<lparr>nextnode := Some a\<rparr>)) (\<lambda>ns.
          Ok (q\<lparr>qback := Some a\<rparr>, m\<lparr>nodes := ns\<rparr>))))"

definition wimp_instr_queue_add ::
    "mem \<Rightarrow> WimpInstrQueue \<Rightarrow> addr option \<Rightarrow> nat \<Rightarrow> (int \<times> WimpInstrQueue \<times> mem) outcome" where
  "wimp_instr_queue_add m q p bytes =
     (let (new_node, ns) = halloc (nodes m) \<lparr>instruction = p, instruction_bytes = bytes, nextnode = None\<rparr>;
          m' = m\<lparr>nodes := ns\<rparr>
      in case new_node of
           None \<Rightarrow> Ok (WIMP_INSTRUCTION_FAIL, q, m')
         | Some a \<Rightarrow> bnd (link_back m' q a) (\<lambda>(q', m''). Ok (WIMP_INSTRUCTION_SUCCESS, q', m'')))"

definition wimp_instr_queue_add_existing ::
    "mem \<Rightarrow> WimpInstrQueue \<Rightarrow> addr \<Rightarrow> (int \<times> WimpInstrQueue \<times> mem) outcome" where
  "wimp_instr_queue_add_existing m q a =
     bnd (hload (nodes m) a) (\<lambda>n.
     bnd (hstore (nodes m) a (n\<lparr>nextnode := None\<rparr>)) (\<lambda>ns.
     bnd (link_back (m\<lparr>nodes := ns\<rparr>) q a) (\<lambda>(q', m'). Ok (WIMP_INSTRUCTION_SUCCESS, q', m'))))"

definition wimp_instr_queue_pop ::
    "mem \<Rightarrow> WimpInstrQueue \<Rightarrow> (addr option \<times> WimpInstrQueue) outcome" where
  "wimp_instr_queue_pop m q =
     (case qnext q of
        None \<Rightarrow> Ok (None, q)
      | Some current \<Rightarrow>
          bnd (hload (nodes m) current) (\<lambda>n.
          let q' = q\<lparr>qnext := nextnode n\<rparr> in
          Ok (Some current, if nextnode n = None then q'\<lparr>qback := None\<rparr> else q')))"

subsection \<open>Joining queues\<close>

text \<open>The loop \<open>while ((node = pop(add)) != NULL) add_existing(queue, node)\<close> for any two
  operations; the fuel bounds the number of pops.\<close>

fun drain_into :: "nat \<Rightarrow> ('m \<Rightarrow> 'q \<Rightarrow> ('a option \<times> 'q) outcome) \<Rightarrow>
    ('m \<Rightarrow> 'q \<Rightarrow> 'a \<Rightarrow> (int \<times> 'q \<times> 'm) outcome) \<Rightarrow> 'm \<Rightarrow> 'q \<Rightarrow> 'q \<Rightarrow> ('q \<times> 'q \<times> 'm) outcome" where
  "drain_into 0 pop push m queue add = Fault OutOfFuel"
| "drain_into (Suc fuel) pop push m queue add =
     bnd (pop m add) (\<lambda>(currentnode, add').
     case currentnode of
       None \<Rightarrow> Ok (queue, add', m)
     | Some a \<Rightarrow> bnd (push m queue a) (\<lambda>(_, queue', m'). drain_into fuel pop push m' queue' add'))"

text \<open>Two queues at different addresses; a NULL pointer is refused. A list of distinct nodes
  is at most as long as the number of node allocations, which gives the fuel.\<close>

definition wimp_instr_queue_append_queue ::
    "mem \<Rightarrow> WimpInstrQueue option \<Rightarrow> WimpInstrQueue option \<Rightarrow>
     (int \<times> WimpInstrQueue option \<times> WimpInstrQueue option \<times> mem) outcome" where
  "wimp_instr_queue_append_queue m queue add =
     (case (queue, add) of
        (Some q, Some a) \<Rightarrow>
          bnd (drain_into (Suc (calls (nodes m))) wimp_instr_queue_pop wimp_instr_queue_add_existing m q a)
            (\<lambda>(q', a', m'). Ok (WIMP_INSTRUCTION_SUCCESS, Some q', Some a', m'))
      | _ \<Rightarrow> Ok (WIMP_INSTRUCTION_FAIL, queue, add, m))"

definition wimp_instr_queue_prepend_queue ::
    "mem \<Rightarrow> WimpInstrQueue option \<Rightarrow> WimpInstrQueue option \<Rightarrow>
     (int \<times> WimpInstrQueue option \<times> WimpInstrQueue option \<times> mem) outcome" where
  "wimp_instr_queue_prepend_queue m queue add =
     bnd (wimp_instr_queue_append_queue m add queue) (\<lambda>(success, add', queue', m').
     if success = WIMP_INSTRUCTION_SUCCESS
     then Ok (success, add', queue', m')
     else Ok (success, queue', add', m'))"

subsection \<open>Freeing\<close>

definition wimp_instr_node_free :: "mem \<Rightarrow> addr \<Rightarrow> mem outcome" where
  "wimp_instr_node_free m a =
     bnd (hload (nodes m) a) (\<lambda>n.
     bnd (hfree (bufs m) (instruction n)) (\<lambda>bs.
     bnd (hfree (nodes m) (Some a)) (\<lambda>ns.
     Ok (m\<lparr>nodes := ns, bufs := bs\<rparr>))))"

fun free_loop :: "nat \<Rightarrow> mem \<Rightarrow> WimpInstrQueue \<Rightarrow> (WimpInstrQueue \<times> mem) outcome" where
  "free_loop 0 m q = Fault OutOfFuel"
| "free_loop (Suc fuel) m q =
     bnd (wimp_instr_queue_pop m q) (\<lambda>(currentnode, q').
     case currentnode of
       None \<Rightarrow> Ok (q', m)
     | Some a \<Rightarrow> bnd (wimp_instr_node_free m a) (\<lambda>m'. free_loop fuel m' q'))"

definition wimp_instr_queue_free :: "mem \<Rightarrow> WimpInstrQueue \<Rightarrow> (mutex_call list \<times> mem) outcome" where
  "wimp_instr_queue_free m q =
     bnd (free_loop (Suc (calls (nodes m))) m q) (\<lambda>(q', m').
     Ok ([MFree (datamutex q'), MFree (nextmutex q'), MFree (lowpriomutex q')], m'))"

subsection \<open>Reading instructions out of nodes\<close>

definition node_buffer :: "mem \<Rightarrow> instr_node \<Rightarrow> bytes option outcome" where
  "node_buffer m n =
     (case instruction n of None \<Rightarrow> Ok None
      | Some b \<Rightarrow> bnd (hload (bufs m) b) (\<lambda>bs. Ok (Some bs)))"

definition wimp_instr_get_from_node :: "mem \<Rightarrow> addr \<Rightarrow> WimpInstrMeta outcome" where
  "wimp_instr_get_from_node m a =
     bnd (hload (nodes m) a) (\<lambda>n.
     bnd (node_buffer m n) (\<lambda>buf.
     wimp_instr_get_from_buffer buf (instruction_bytes n)))"

text \<open>The string that a pointer of the metadata of a node points to.\<close>

definition node_string :: "mem \<Rightarrow> addr \<Rightarrow> nat option \<Rightarrow> bytes option outcome" where
  "node_string m a p =
     bnd (hload (nodes m) a) (\<lambda>n. bnd (node_buffer m n) (\<lambda>buf. meta_string buf p))"

fun count_loop :: "nat \<Rightarrow> mem \<Rightarrow> addr option \<Rightarrow> bytes \<Rightarrow> nat \<Rightarrow> nat outcome" where
  "count_loop 0 m current name instr_count = Fault OutOfFuel"
| "count_loop (Suc fuel) m current name instr_count =
     (case current of
        None \<Rightarrow> Ok instr_count
      | Some a \<Rightarrow>
          bnd (wimp_instr_get_from_node m a) (\<lambda>meta.
          bnd (node_string m a (m_instr meta)) (\<lambda>s.
          bnd (strings_equal s (Some name)) (\<lambda>eq.
          bnd (hload (nodes m) a) (\<lambda>n.
          count_loop fuel m (nextnode n) name (if eq then instr_count + 1 else instr_count))))))"

definition wimp_instr_get_instruction_count :: "mem \<Rightarrow> WimpInstrQueue \<Rightarrow> bytes \<Rightarrow> nat outcome" where
  "wimp_instr_get_instruction_count m q name =
     (if qnext q = None then Ok 0
      else count_loop (Suc (calls (nodes m))) m (qnext q) name 0)"

section \<open>The interface of a linked queue\<close>

text \<open>
  \<open>rel m q as\<close>: in the store \<open>m\<close> the queue \<open>q\<close> holds the nodes \<open>as\<close>, front first. \<open>frame\<close> says
  that a store differs from another in its links only. Pushing a node leaves alone every queue
  that shares no node with the one pushed to.
\<close>

locale linked_queue =
  fixes rel :: "'m \<Rightarrow> 'q \<Rightarrow> 'a list \<Rightarrow> bool"
    and pop :: "'m \<Rightarrow> 'q \<Rightarrow> ('a option \<times> 'q) outcome"
    and push :: "'m \<Rightarrow> 'q \<Rightarrow> 'a \<Rightarrow> (int \<times> 'q \<times> 'm) outcome"
    and owns :: "'m \<Rightarrow> 'a \<Rightarrow> bool"
    and frame :: "'m \<Rightarrow> 'm \<Rightarrow> bool"
    and locks :: "'q \<Rightarrow> 'l"
  assumes pop_nil: "rel m q [] \<Longrightarrow> pop m q = Ok (None, q)"
    and pop_cons: "rel m q (a # as) \<Longrightarrow>
      \<exists>q'. pop m q = Ok (Some a, q') \<and> rel m q' as \<and> locks q' = locks q"
    and push_snoc: "rel m q as \<Longrightarrow> owns m a \<Longrightarrow> a \<notin> set as \<Longrightarrow>
      \<exists>q' m'. push m q a = Ok (0, q', m') \<and> rel m' q' (as @ [a]) \<and> locks q' = locks q \<and> frame m m'
        \<and> (\<forall>p bs. rel m p bs \<longrightarrow> a \<notin> set bs \<longrightarrow> set as \<inter> set bs = {} \<longrightarrow> rel m' p bs)"
    and rel_distinct: "rel m q as \<Longrightarrow> distinct as"
    and rel_owns: "rel m q as \<Longrightarrow> a \<in> set as \<Longrightarrow> owns m a"
    and frame_refl: "frame m m"
    and frame_trans: "frame m m' \<Longrightarrow> frame m' m'' \<Longrightarrow> frame m m''"
begin

text \<open>Draining moves the nodes of one queue, in order, behind those of the other.\<close>

lemma drain_into_rel:
  assumes "rel m q as" and "rel m p bs" and "set as \<inter> set bs = {}" and "length bs < fuel"
  shows "\<exists>q' p' m'. drain_into fuel pop push m q p = Ok (q', p', m') \<and> rel m' q' (as @ bs)
    \<and> rel m' p' [] \<and> locks q' = locks q \<and> locks p' = locks p \<and> frame m m'
    \<and> (\<forall>r cs. rel m r cs \<longrightarrow> set cs \<inter> (set as \<union> set bs) = {} \<longrightarrow> rel m' r cs)"
  using assms
proof (induction bs arbitrary: m q p as fuel)
  case Nil
  then obtain f where "fuel = Suc f" by (cases fuel) auto
  then show ?case using Nil pop_nil [OF Nil.prems(2)] by (auto simp: frame_refl)
next
  case (Cons b bs)
  then obtain f where f: "fuel = Suc f" "length bs < f" by (cases fuel) auto
  obtain p1 where p1: "pop m p = Ok (Some b, p1)" "rel m p1 bs" "locks p1 = locks p"
    using pop_cons [OF Cons.prems(2)] by blast
  have d: "b \<notin> set bs" using rel_distinct [OF Cons.prems(2)] by simp
  have "owns m b" using rel_owns [OF Cons.prems(2)] by simp
  then obtain q1 m1 where q1: "push m q b = Ok (0, q1, m1)" "rel m1 q1 (as @ [b])"
    "locks q1 = locks q" "frame m m1"
    and fr1: "\<And>r cs. rel m r cs \<Longrightarrow> b \<notin> set cs \<Longrightarrow> set as \<inter> set cs = {} \<Longrightarrow> rel m1 r cs"
    using push_snoc [OF Cons.prems(1), of b] Cons.prems(3) by auto
  have "rel m1 p1 bs" using fr1 [OF p1(2) d] Cons.prems(3) by auto
  moreover have "set (as @ [b]) \<inter> set bs = {}" using Cons.prems(3) d by auto
  ultimately obtain q' p' m' where r: "drain_into f pop push m1 q1 p1 = Ok (q', p', m')"
    "rel m' q' ((as @ [b]) @ bs)" "rel m' p' []" "locks q' = locks q1" "locks p' = locks p1" "frame m1 m'"
    and fr2: "\<And>r cs. rel m1 r cs \<Longrightarrow> set cs \<inter> (set (as @ [b]) \<union> set bs) = {} \<Longrightarrow> rel m' r cs"
    using Cons.IH [OF q1(2) _ _ f(2)] by blast
  have "rel m' r cs" if "rel m r cs" and "set cs \<inter> (set as \<union> set (b # bs)) = {}" for r cs
    using fr2 [of r cs] fr1 [of r cs] that by auto
  then show ?case
    using p1 q1 r f(1) frame_trans [OF q1(4) r(6)] by auto
qed

end

section \<open>The queues of the program implement it\<close>

fun path :: "(addr \<Rightarrow> instr_node option) \<Rightarrow> addr option \<Rightarrow> addr list \<Rightarrow> bool" where
  "path ns p [] \<longleftrightarrow> p = None"
| "path ns p (a # as) \<longleftrightarrow> p = Some a \<and> (\<exists>n. ns a = Some n \<and> path ns (nextnode n) as)"

definition queue_rel :: "mem \<Rightarrow> WimpInstrQueue \<Rightarrow> addr list \<Rightarrow> bool" where
  "queue_rel m q as \<longleftrightarrow> path (cells (nodes m)) (qnext q) as \<and> distinct as
     \<and> qback q = (if as = [] then None else Some (last as))"

definition payload :: "mem \<Rightarrow> addr \<Rightarrow> (addr option \<times> nat) option" where
  "payload m a = map_option (\<lambda>n. (instruction n, instruction_bytes n)) (cells (nodes m) a)"

definition same_payload :: "mem \<Rightarrow> mem \<Rightarrow> bool" where
  "same_payload m m' \<longleftrightarrow> bufs m' = bufs m \<and> calls (nodes m') = calls (nodes m)
     \<and> fails (nodes m') = fails (nodes m) \<and> payload m' = payload m"

definition queue_locks :: "WimpInstrQueue \<Rightarrow> mutex \<times> mutex \<times> mutex" where
  "queue_locks q = (datamutex q, nextmutex q, lowpriomutex q)"

lemma path_cong: "(\<And>a. a \<in> set as \<Longrightarrow> ns' a = ns a) \<Longrightarrow> path ns' p as = path ns p as"
  by (induction as arbitrary: p) auto

lemma path_alloc: "path ns p as \<Longrightarrow> a \<in> set as \<Longrightarrow> ns a \<noteq> None"
  by (induction as arbitrary: p) auto

lemma path_snoc:
  assumes "path ns p as" and "as \<noteq> []" and "distinct as" and "a \<notin> set as"
    and "ns (last as) = Some n" and "ns a = Some k" and "nextnode k = None"
  shows "path (ns(last as \<mapsto> n\<lparr>nextnode := Some a\<rparr>)) p (as @ [a])"
  using assms
proof (induction as arbitrary: p)
  case Nil
  then show ?case by simp
next
  case (Cons b bs)
  then show ?case by (cases "bs = []") auto
qed

lemma payload_None: "payload m a = None \<longleftrightarrow> cells (nodes m) a = None"
  by (simp add: payload_def)

lemma queue_rel_frame:
  "(\<And>a. a \<in> set as \<Longrightarrow> cells (nodes m') a = cells (nodes m) a) \<Longrightarrow> queue_rel m' q as = queue_rel m q as"
  by (simp add: queue_rel_def path_cong [of as "cells (nodes m')" "cells (nodes m)"])

lemma link_back_rel:
  assumes q: "queue_rel m q as" and a: "cells (nodes m) a = Some k" "nextnode k = None" "a \<notin> set as"
  shows "\<exists>q' m'. link_back m q a = Ok (q', m') \<and> queue_rel m' q' (as @ [a])
    \<and> queue_locks q' = queue_locks q \<and> same_payload m m'
    \<and> (\<forall>b. b \<notin> set as \<longrightarrow> cells (nodes m') b = cells (nodes m) b)"
proof (cases "as = []")
  case True
  then show ?thesis using assms
    by (auto simp: link_back_def queue_rel_def queue_locks_def same_payload_def)
next
  case False
  then obtain n where n: "cells (nodes m) (last as) = Some n"
    using q path_alloc [of "cells (nodes m)" "qnext q" as "last as"] by (auto simp: queue_rel_def)
  let ?m = "m\<lparr>nodes := (nodes m)\<lparr>cells := (cells (nodes m))(last as \<mapsto> n\<lparr>nextnode := Some a\<rparr>)\<rparr>\<rparr>"
  have "link_back m q a = Ok (q\<lparr>qback := Some a\<rparr>, ?m)"
    using q False n by (simp add: link_back_def queue_rel_def)
  moreover have "queue_rel ?m (q\<lparr>qback := Some a\<rparr>) (as @ [a])"
    using q a False n path_snoc [of "cells (nodes m)" "qnext q" as a n k] by (auto simp: queue_rel_def)
  moreover have "same_payload m ?m"
    using n by (auto simp: same_payload_def payload_def fun_eq_iff)
  ultimately show ?thesis using False by (auto simp: queue_locks_def)
qed

lemma add_existing_rel:
  assumes q: "queue_rel m q as" and a: "cells (nodes m) a \<noteq> None" "a \<notin> set as"
  shows "\<exists>q' m'. wimp_instr_queue_add_existing m q a = Ok (0, q', m') \<and> queue_rel m' q' (as @ [a])
    \<and> queue_locks q' = queue_locks q \<and> same_payload m m'
    \<and> (\<forall>b. b \<notin> set as \<longrightarrow> b \<noteq> a \<longrightarrow> cells (nodes m') b = cells (nodes m) b)"
proof -
  obtain n where n: "cells (nodes m) a = Some n" using a(1) by auto
  let ?m = "m\<lparr>nodes := (nodes m)\<lparr>cells := (cells (nodes m))(a \<mapsto> n\<lparr>nextnode := None\<rparr>)\<rparr>\<rparr>"
  have "queue_rel ?m q as" using q a(2) by (subst queue_rel_frame [of _ _ m]) auto
  then obtain q' m' where "link_back ?m q a = Ok (q', m')" "queue_rel m' q' (as @ [a])"
    "queue_locks q' = queue_locks q" "same_payload ?m m'"
    and "\<forall>b. b \<notin> set as \<longrightarrow> cells (nodes m') b = cells (nodes ?m) b"
    using link_back_rel [of ?m q as a "n\<lparr>nextnode := None\<rparr>"] a(2) by auto
  moreover have "same_payload m ?m" using n by (auto simp: same_payload_def payload_def fun_eq_iff)
  ultimately show ?thesis using n
    by (auto simp: wimp_instr_queue_add_existing_def WIMP_INSTRUCTION_SUCCESS_def same_payload_def)
qed

interpretation wq: linked_queue queue_rel wimp_instr_queue_pop wimp_instr_queue_add_existing
  "\<lambda>m a. cells (nodes m) a \<noteq> None" same_payload queue_locks
proof unfold_locales
  fix m q a and as :: "addr list"
  show "wimp_instr_queue_pop m q = Ok (None, q)" if "queue_rel m q []"
    using that by (simp add: queue_rel_def wimp_instr_queue_pop_def)
  show "\<exists>q'. wimp_instr_queue_pop m q = Ok (Some a, q') \<and> queue_rel m q' as \<and> queue_locks q' = queue_locks q"
    if "queue_rel m q (a # as)"
    using that by (cases as) (auto simp: queue_rel_def wimp_instr_queue_pop_def queue_locks_def)
  show "distinct as" if "queue_rel m q as" using that by (simp add: queue_rel_def)
  show "cells (nodes m) a \<noteq> None" if "queue_rel m q as" and "a \<in> set as"
    using that by (auto simp: queue_rel_def dest: path_alloc)
next
  fix m q a and as :: "addr list"
  assume "queue_rel m q as" and "cells (nodes m) a \<noteq> None" and "a \<notin> set as"
  from add_existing_rel [OF this] obtain q' m' where
    "wimp_instr_queue_add_existing m q a = Ok (0, q', m')" "queue_rel m' q' (as @ [a])"
    "queue_locks q' = queue_locks q" "same_payload m m'"
    and keep: "\<And>b. b \<notin> set as \<Longrightarrow> b \<noteq> a \<Longrightarrow> cells (nodes m') b = cells (nodes m) b"
    by blast
  moreover have "queue_rel m' p bs" if "queue_rel m p bs" "a \<notin> set bs" "set as \<inter> set bs = {}" for p bs
  proof -
    have "cells (nodes m') b = cells (nodes m) b" if "b \<in> set bs" for b
      using keep [of b] \<open>a \<notin> set bs\<close> \<open>set as \<inter> set bs = {}\<close> that by blast
    then show ?thesis using that(1) queue_rel_frame [of bs m' m p] by blast
  qed
  ultimately show "\<exists>q' m'. wimp_instr_queue_add_existing m q a = Ok (0, q', m') \<and> queue_rel m' q' (as @ [a])
      \<and> queue_locks q' = queue_locks q \<and> same_payload m m'
      \<and> (\<forall>p bs. queue_rel m p bs \<longrightarrow> a \<notin> set bs \<longrightarrow> set as \<inter> set bs = {} \<longrightarrow> queue_rel m' p bs)"
    by blast
next
  show "same_payload m m" for m by (simp add: same_payload_def)
  show "same_payload m m''" if "same_payload m m'" and "same_payload m' m''" for m m' m''
    using that by (simp add: same_payload_def)
qed

subsection \<open>Joining, freeing and counting\<close>

lemma queue_length: "queue_rel m q as \<Longrightarrow> heap_ok (nodes m) \<Longrightarrow> length as < Suc (calls (nodes m))"
proof -
  assume q: "queue_rel m q as" and h: "heap_ok (nodes m)"
  have "set as \<subseteq> {..< calls (nodes m)}"
    using q h wq.rel_owns by (force simp: heap_ok_def)
  then have "card (set as) \<le> calls (nodes m)" by (metis card_lessThan card_mono finite_lessThan)
  then show ?thesis using wq.rel_distinct [OF q] by (simp add: distinct_card)
qed

lemma append_queue_rel:
  assumes "queue_rel m q as" and "queue_rel m p bs" and "set as \<inter> set bs = {}" and "heap_ok (nodes m)"
  shows "\<exists>q' p' m'. wimp_instr_queue_append_queue m (Some q) (Some p) = Ok (0, Some q', Some p', m')
    \<and> queue_rel m' q' (as @ bs) \<and> queue_rel m' p' [] \<and> queue_locks q' = queue_locks q
    \<and> queue_locks p' = queue_locks p \<and> same_payload m m'"
  using wq.drain_into_rel [OF assms(1-3) queue_length [OF assms(2,4)]]
  by (auto simp: wimp_instr_queue_append_queue_def WIMP_INSTRUCTION_SUCCESS_def)

lemma prepend_queue_rel:
  assumes "queue_rel m q as" and "queue_rel m p bs" and "set as \<inter> set bs = {}" and "heap_ok (nodes m)"
  shows "\<exists>q' p' m'. wimp_instr_queue_prepend_queue m (Some q) (Some p) = Ok (0, Some q', Some p', m')
    \<and> queue_rel m' q' (bs @ as) \<and> queue_rel m' p' [] \<and> queue_locks q' = queue_locks p
    \<and> queue_locks p' = queue_locks q \<and> same_payload m m'"
proof -
  have "set bs \<inter> set as = {}" using assms(3) by blast
  from append_queue_rel [OF assms(2,1) this assms(4)] show ?thesis
    by (auto simp: wimp_instr_queue_prepend_queue_def WIMP_INSTRUCTION_SUCCESS_def)
qed

definition buf_of :: "mem \<Rightarrow> addr \<Rightarrow> addr list" where
  "buf_of m a = (case cells (nodes m) a of
     Some n \<Rightarrow> (case instruction n of Some b \<Rightarrow> [b] | None \<Rightarrow> []) | None \<Rightarrow> [])"

text \<open>The buffers of the queued instructions are allocated, each owned by one node.\<close>

definition bufs_owned :: "mem \<Rightarrow> addr list \<Rightarrow> bool" where
  "bufs_owned m as \<longleftrightarrow> distinct (concat (map (buf_of m) as))
     \<and> (\<forall>b \<in> set (concat (map (buf_of m) as)). cells (bufs m) b \<noteq> None)"

definition remove_keys :: "('k \<Rightarrow> 'v option) \<Rightarrow> 'k set \<Rightarrow> ('k \<Rightarrow> 'v option)" where
  "remove_keys f ks = (\<lambda>k. if k \<in> ks then None else f k)"

lemma node_free_eq:
  assumes "cells (nodes m) a \<noteq> None" and "\<forall>b \<in> set (buf_of m a). cells (bufs m) b \<noteq> None"
  shows "wimp_instr_node_free m a =
    Ok (m\<lparr>nodes := (nodes m)\<lparr>cells := remove_keys (cells (nodes m)) {a}\<rparr>,
          bufs := (bufs m)\<lparr>cells := remove_keys (cells (bufs m)) (set (buf_of m a))\<rparr>\<rparr>)"
proof -
  obtain n where n: "cells (nodes m) a = Some n" using assms(1) by auto
  have r: "remove_keys f {k} = f(k := None)" for f :: "'k \<Rightarrow> 'v option" and k
    by (auto simp: remove_keys_def)
  have r0: "remove_keys f {} = f" for f :: "'k \<Rightarrow> 'v option"
    by (simp add: remove_keys_def)
  show ?thesis
    using assms(2) n by (cases "instruction n") (auto simp: wimp_instr_node_free_def buf_of_def r r0)
qed

lemma free_loop_rel:
  assumes "queue_rel m q as" and "bufs_owned m as" and "length as < fuel"
  shows "\<exists>q' m'. free_loop fuel m q = Ok (q', m') \<and> queue_locks q' = queue_locks q
    \<and> cells (nodes m') = remove_keys (cells (nodes m)) (set as)
    \<and> cells (bufs m') = remove_keys (cells (bufs m)) (set (concat (map (buf_of m) as)))"
  using assms
proof (induction as arbitrary: m q fuel)
  case Nil
  then obtain f where "fuel = Suc f" by (cases fuel) auto
  then show ?case using wq.pop_nil [OF Nil.prems(1)] by (simp add: remove_keys_def)
next
  case (Cons a as)
  then obtain f where f: "fuel = Suc f" "length as < f" by (cases fuel) auto
  obtain q1 where q1: "wimp_instr_queue_pop m q = Ok (Some a, q1)" "queue_rel m q1 as"
    "queue_locks q1 = queue_locks q" using wq.pop_cons [OF Cons.prems(1)] by blast
  have d: "a \<notin> set as" using wq.rel_distinct [OF Cons.prems(1)] by simp
  have al: "cells (nodes m) a \<noteq> None" using wq.rel_owns [OF Cons.prems(1)] by simp
  let ?m = "m\<lparr>nodes := (nodes m)\<lparr>cells := remove_keys (cells (nodes m)) {a}\<rparr>,
          bufs := (bufs m)\<lparr>cells := remove_keys (cells (bufs m)) (set (buf_of m a))\<rparr>\<rparr>"
  have fr: "wimp_instr_node_free m a = Ok ?m"
    using Cons.prems(2) by (intro node_free_eq al) (auto simp: bufs_owned_def)
  have b: "buf_of ?m c = buf_of m c" if "c \<in> set as" for c
    using that d by (auto simp: buf_of_def remove_keys_def)
  then have m: "map (buf_of ?m) as = map (buf_of m) as" by simp
  have "queue_rel ?m q1 as"
    using q1(2) d by (subst queue_rel_frame [of _ _ m]) (auto simp: remove_keys_def)
  moreover have "bufs_owned ?m as"
    using Cons.prems(2) b unfolding bufs_owned_def m by (auto simp: remove_keys_def)
  ultimately obtain q' m' where r: "free_loop f ?m q1 = Ok (q', m')" "queue_locks q' = queue_locks q1"
    "cells (nodes m') = remove_keys (cells (nodes ?m)) (set as)"
    "cells (bufs m') = remove_keys (cells (bufs ?m)) (set (concat (map (buf_of ?m) as)))"
    using Cons.IH [of ?m q1 f] f(2) by blast
  have "cells (nodes m') = remove_keys (cells (nodes m)) (set (a # as))"
    using r(3) by (auto simp: remove_keys_def)
  moreover have "cells (bufs m') = remove_keys (cells (bufs m)) (set (concat (map (buf_of m) (a # as))))"
    unfolding r(4) m by (auto simp: remove_keys_def)
  ultimately show ?case using q1 fr r(1,2) f(1) by auto
qed

lemma queue_free_rel:
  assumes "queue_rel m q as" and "bufs_owned m as" and "heap_ok (nodes m)"
  shows "\<exists>m'. wimp_instr_queue_free m q
       = Ok ([MFree (datamutex q), MFree (nextmutex q), MFree (lowpriomutex q)], m')
    \<and> cells (nodes m') = remove_keys (cells (nodes m)) (set as)
    \<and> cells (bufs m') = remove_keys (cells (bufs m)) (set (concat (map (buf_of m) as)))"
  using free_loop_rel [OF assms(1,2) queue_length [OF assms(1,3)]]
  by (auto simp: wimp_instr_queue_free_def queue_locks_def)

text \<open>The instruction name that a node parses to.\<close>

definition node_name :: "mem \<Rightarrow> addr \<Rightarrow> bytes option outcome" where
  "node_name m a = bnd (wimp_instr_get_from_node m a) (\<lambda>meta. node_string m a (m_instr meta))"

lemma count_loop_eq:
  assumes "path (cells (nodes m)) p as" and "\<And>a. a \<in> set as \<Longrightarrow> node_name m a = Ok (Some (nm a))"
    and "length as < fuel"
  shows "count_loop fuel m p name k = Ok (k + length (filter (\<lambda>a. nm a = name) as))"
  using assms
proof (induction as arbitrary: p k fuel)
  case Nil
  then show ?case by (cases fuel) auto
next
  case (Cons a as)
  then obtain f where f: "fuel = Suc f" by (cases fuel) auto
  obtain n where n: "cells (nodes m) a = Some n" "path (cells (nodes m)) (nextnode n) as" "p = Some a"
    using Cons.prems(1) by auto
  have "node_name m a = Ok (Some (nm a))" using Cons.prems(2) by simp
  then obtain meta where "wimp_instr_get_from_node m a = Ok meta"
    "node_string m a (m_instr meta) = Ok (Some (nm a))"
    by (auto simp: node_name_def outcome_simps)
  then show ?case
    using Cons.IH [OF n(2)] Cons.prems(2,3) f n by (simp add: strings_equal_def)
qed

subsection \<open>Adding an instruction\<close>

text \<open>The bytes of the instruction that a node owns.\<close>

definition node_bytes :: "mem \<Rightarrow> addr \<Rightarrow> bytes option" where
  "node_bytes m a =
     (case cells (nodes m) a of
        Some n \<Rightarrow> (case instruction n of Some b \<Rightarrow> cells (bufs m) b | None \<Rightarrow> None)
      | None \<Rightarrow> None)"

lemma same_payload_node_bytes: "same_payload m m' \<Longrightarrow> node_bytes m' a = node_bytes m a"
proof -
  assume s: "same_payload m m'"
  then have "payload m' a = payload m a" by (simp add: same_payload_def)
  then show ?thesis using s
    by (auto simp: node_bytes_def payload_def same_payload_def split: option.splits)
qed

lemma queue_add_rel:
  assumes q: "queue_rel m q as" and h: "heap_ok (nodes m)" and nf: "no_fail (nodes m)"
  shows "\<exists>q' m'. wimp_instr_queue_add m q p n = Ok (0, q', m') \<and> queue_rel m' q' (as @ [calls (nodes m)])
    \<and> queue_locks q' = queue_locks q \<and> bufs m' = bufs m \<and> heap_ok (nodes m') \<and> no_fail (nodes m')
    \<and> payload m' = (payload m)(calls (nodes m) \<mapsto> (p, n))
    \<and> (\<forall>r bs. queue_rel m r bs \<longrightarrow> set as \<inter> set bs = {} \<longrightarrow> queue_rel m' r bs)"
proof -
  let ?a = "calls (nodes m)" and ?k = "\<lparr>instruction = p, instruction_bytes = n, nextnode = None\<rparr>"
  let ?ns = "(nodes m)\<lparr>cells := (cells (nodes m))(?a \<mapsto> ?k), calls := Suc ?a\<rparr>"
  let ?m = "m\<lparr>nodes := ?ns\<rparr>"
  have al: "halloc (nodes m) ?k = (Some ?a, ?ns)"
    using nf by (simp add: halloc_def no_fail_def)
  have fresh: "?a \<notin> set as" using wq.rel_owns [OF q] h by (auto simp: heap_ok_def)
  have "queue_rel ?m q as" using q fresh by (subst queue_rel_frame [of _ _ m]) auto
  from link_back_rel [OF this, of ?a ?k] fresh obtain q' m' where
    l: "link_back ?m q ?a = Ok (q', m')" "queue_rel m' q' (as @ [?a])"
    "queue_locks q' = queue_locks q" and s: "same_payload ?m m'"
    and keep: "\<forall>b. b \<notin> set as \<longrightarrow> cells (nodes m') b = cells (nodes ?m) b" by auto
  have frame: "queue_rel m' r bs" if "queue_rel m r bs" "set as \<inter> set bs = {}" for r bs
  proof -
    have "cells (nodes m') b = cells (nodes m) b" if b: "b \<in> set bs" for b
    proof -
      have "b \<noteq> ?a" using wq.rel_owns [OF \<open>queue_rel m r bs\<close> b] h by (auto simp: heap_ok_def)
      moreover have "b \<notin> set as" using b \<open>set as \<inter> set bs = {}\<close> by blast
      ultimately show ?thesis using keep by simp
    qed
    then show ?thesis using that(1) queue_rel_frame [of bs m' m r] by blast
  qed
  have ok: "heap_ok ?ns" using h by (auto simp: heap_ok_def less_Suc_eq)
  have dom: "cells (nodes m') a = None \<longleftrightarrow> cells ?ns a = None" for a
    using s payload_None [of m' a] payload_None [of ?m a] by (simp add: same_payload_def)
  have "heap_ok (nodes m')"
    unfolding heap_ok_def
  proof (intro allI impI)
    fix a assume "cells (nodes m') a \<noteq> None"
    then have "cells ?ns a \<noteq> None" using dom by simp
    then show "a < calls (nodes m')" using ok s by (simp add: heap_ok_def same_payload_def)
  qed
  moreover have "payload m' = (payload m)(?a \<mapsto> (p, n))"
    using s by (auto simp: same_payload_def payload_def fun_eq_iff)
  moreover have "no_fail (nodes m')" using s nf by (simp add: no_fail_def same_payload_def)
  moreover have "wimp_instr_queue_add m q p n = Ok (0, q', m')"
    using l(1) al by (simp add: wimp_instr_queue_add_def WIMP_INSTRUCTION_SUCCESS_def)
  moreover have "bufs m' = bufs m" using s by (simp add: same_payload_def)
  ultimately show ?thesis using l(2,3) frame by blast
qed

section \<open>Properties\<close>

text \<open>Adding an instruction to a queue puts a new node that owns it at the back, behind the nodes
  that were there, with the link of the last node updated and no other payload touched; when no node can be
  allocated the result is the failure code and the queue is as before.\<close>

lemma queue_add_back:
  assumes "queue_rel m q as" and "heap_ok (nodes m)" and "no_fail (nodes m)"
  shows "\<exists>q' m' a. wimp_instr_queue_add m q p n = Ok (WIMP_INSTRUCTION_SUCCESS, q', m')
    \<and> queue_rel m' q' (as @ [a]) \<and> a \<notin> set as \<and> payload m' = (payload m)(a \<mapsto> (p, n))"
proof -
  obtain q' m' where "wimp_instr_queue_add m q p n = Ok (0, q', m')" "queue_rel m' q' (as @ [calls (nodes m)])"
    "payload m' = (payload m)(calls (nodes m) \<mapsto> (p, n))"
    using queue_add_rel [OF assms] by blast
  moreover have "calls (nodes m) \<notin> set as" using wq.rel_owns [OF assms(1)] assms(2) by (auto simp: heap_ok_def)
  ultimately show ?thesis by (auto simp: WIMP_INSTRUCTION_SUCCESS_def)
qed

lemma queue_add_back_witness:
  "\<exists>q' m' a. wimp_instr_queue_add \<lparr>nodes = empty_heap (\<lambda>_. False), bufs = empty_heap (\<lambda>_. False)\<rparr>
      (wimp_create_instr_queue 0 1 2) (Some 7) 9 = Ok (WIMP_INSTRUCTION_SUCCESS, q', m')
    \<and> queue_rel m' q' ([] @ [a]) \<and> a \<notin> set []
    \<and> payload m' = (payload \<lparr>nodes = empty_heap (\<lambda>_. False), bufs = empty_heap (\<lambda>_. False)\<rparr>)(a \<mapsto> (Some 7, 9))"
  by (rule queue_add_back) (simp_all add: queue_rel_def wimp_create_instr_queue_def no_fail_def empty_heap_def heap_ok_def)

text \<open>A failed allocation of the node leaves the queue and every node alone and is reported.\<close>

lemma queue_add_no_memory:
  assumes "fails (nodes m) (calls (nodes m))"
  shows "\<exists>m'. wimp_instr_queue_add m q p n = Ok (WIMP_INSTRUCTION_FAIL, q, m')
    \<and> cells (nodes m') = cells (nodes m) \<and> bufs m' = bufs m"
  using assms by (simp add: wimp_instr_queue_add_def halloc_def)

lemma queue_add_no_memory_witness:
  "\<exists>m'. wimp_instr_queue_add \<lparr>nodes = empty_heap (\<lambda>_. True), bufs = empty_heap (\<lambda>_. False)\<rparr>
      (wimp_create_instr_queue 0 1 2) (Some 7) 9 = Ok (WIMP_INSTRUCTION_FAIL, wimp_create_instr_queue 0 1 2, m')
    \<and> cells (nodes m') = cells (nodes \<lparr>nodes = empty_heap (\<lambda>_. True), bufs = empty_heap (\<lambda>_. False)\<rparr>)
    \<and> bufs m' = bufs \<lparr>nodes = empty_heap (\<lambda>_. True), bufs = empty_heap (\<lambda>_. False)\<rparr>"
  by (rule queue_add_no_memory) (simp add: empty_heap_def)

text \<open>C23: Appending one queue to another moves all its nodes, in order, behind those of the first, empties
  it, leaves every instruction in its node, and keeps each queue's mutexes.\<close>

theorem append_queue_order:
  assumes "queue_rel m q as" and "queue_rel m p bs" and "set as \<inter> set bs = {}" and "heap_ok (nodes m)"
  shows "\<exists>q' p' m'. wimp_instr_queue_append_queue m (Some q) (Some p)
      = Ok (WIMP_INSTRUCTION_SUCCESS, Some q', Some p', m')
    \<and> queue_rel m' q' (as @ bs) \<and> queue_rel m' p' [] \<and> payload m' = payload m
    \<and> queue_locks q' = queue_locks q \<and> queue_locks p' = queue_locks p"
  using append_queue_rel [OF assms] by (auto simp: WIMP_INSTRUCTION_SUCCESS_def same_payload_def)

text \<open>Two queues of one node each.\<close>

definition two_nodes :: mem where
  "two_nodes = \<lparr>nodes = \<lparr>cells = [0 \<mapsto> \<lparr>instruction = Some 0, instruction_bytes = 5, nextnode = None\<rparr>,
                                 1 \<mapsto> \<lparr>instruction = Some 1, instruction_bytes = 6, nextnode = None\<rparr>],
                        calls = 2, fails = (\<lambda>_. False)\<rparr>,
               bufs = \<lparr>cells = [0 \<mapsto> ''abcde'', 1 \<mapsto> ''fghijk''], calls = 2, fails = (\<lambda>_. False)\<rparr>\<rparr>"

definition queue_a :: WimpInstrQueue where
  "queue_a = \<lparr>qnext = Some 0, qback = Some 0, datamutex = 10, nextmutex = 11, lowpriomutex = 12\<rparr>"

definition queue_b :: WimpInstrQueue where
  "queue_b = \<lparr>qnext = Some 1, qback = Some 1, datamutex = 20, nextmutex = 21, lowpriomutex = 22\<rparr>"

lemma example_queues:
  "queue_rel two_nodes queue_a [0]" "queue_rel two_nodes queue_b [1]"
  "set [0 :: addr] \<inter> set [1] = {}" "heap_ok (nodes two_nodes)"
  by (simp_all add: queue_rel_def two_nodes_def queue_a_def queue_b_def heap_ok_def)

theorem append_queue_order_witness:
  "\<exists>q' p' m'. wimp_instr_queue_append_queue two_nodes (Some queue_a) (Some queue_b)
      = Ok (WIMP_INSTRUCTION_SUCCESS, Some q', Some p', m')
    \<and> queue_rel m' q' ([0] @ [1]) \<and> queue_rel m' p' [] \<and> payload m' = payload two_nodes
    \<and> queue_locks q' = queue_locks queue_a \<and> queue_locks p' = queue_locks queue_b"
  using append_queue_order [OF example_queues] .

text \<open>Prepending puts the nodes of the added queue, in order, in front, but the two queue structures
  come out exchanged as wholes: the caller's queue now has the mutexes of the queue that was added, and the
  added queue, which callers free next, has those of the caller's queue.\<close>

lemma prepend_queue_order:
  assumes "queue_rel m q as" and "queue_rel m p bs" and "set as \<inter> set bs = {}" and "heap_ok (nodes m)"
  shows "\<exists>q' p' m'. wimp_instr_queue_prepend_queue m (Some q) (Some p)
      = Ok (WIMP_INSTRUCTION_SUCCESS, Some q', Some p', m')
    \<and> queue_rel m' q' (bs @ as) \<and> queue_rel m' p' [] \<and> payload m' = payload m
    \<and> queue_locks q' = queue_locks p \<and> queue_locks p' = queue_locks q"
  using prepend_queue_rel [OF assms] by (auto simp: WIMP_INSTRUCTION_SUCCESS_def same_payload_def)

lemma prepend_queue_order_witness:
  "\<exists>q' p' m'. wimp_instr_queue_prepend_queue two_nodes (Some queue_a) (Some queue_b)
      = Ok (WIMP_INSTRUCTION_SUCCESS, Some q', Some p', m')
    \<and> queue_rel m' q' ([1] @ [0]) \<and> queue_rel m' p' [] \<and> payload m' = payload two_nodes
    \<and> queue_locks q' = queue_locks queue_b \<and> queue_locks p' = queue_locks queue_a"
  using prepend_queue_order [OF example_queues] .

text \<open>C24: Freeing a queue terminates without fault, frees exactly its nodes and the instructions they own,
  nothing twice and nothing else, and frees its three mutexes once each.\<close>

theorem queue_free_exact:
  assumes "queue_rel m q as" and "bufs_owned m as" and "heap_ok (nodes m)"
  shows "\<exists>m'. wimp_instr_queue_free m q
       = Ok ([MFree (datamutex q), MFree (nextmutex q), MFree (lowpriomutex q)], m')
    \<and> cells (nodes m') = remove_keys (cells (nodes m)) (set as)
    \<and> cells (bufs m') = remove_keys (cells (bufs m)) (set (concat (map (buf_of m) as)))"
  using queue_free_rel [OF assms] .

theorem queue_free_exact_witness:
  "\<exists>m'. wimp_instr_queue_free two_nodes queue_a = Ok ([MFree 10, MFree 11, MFree 12], m')
    \<and> cells (nodes m') = remove_keys (cells (nodes two_nodes)) {0}
    \<and> cells (bufs m') = remove_keys (cells (bufs two_nodes)) {0}"
proof -
  have b: "buf_of two_nodes 0 = [0]" by (simp add: buf_of_def two_nodes_def)
  have "bufs_owned two_nodes [0]" by (simp add: bufs_owned_def b) (simp add: two_nodes_def)
  from queue_free_exact [OF example_queues(1) this example_queues(4)] show ?thesis
    by (simp add: b queue_a_def)
qed

end
