(* ===== verification/Wimp_Locks.thy ===== *)
theory Wimp_Locks
  imports Wimp_Queue
begin

section \<open>The queue's locks as a protocol of threads\<close>

text \<open>
  A queue is shared between the threads of the receivers, which take it with low priority, and
  the thread of the server, which takes it with high priority. Each session of a thread is the
  list of mutex calls that the locking and the unlocking function make (\<open>Wimp_Queue\<close>), with
  the work on the queue between them. The threads interleave freely: a step lets one thread
  make its next call. A call that locks waits until the mutex is free, and a call that unlocks
  needs the mutex to be held by the caller, as the threading library documents.

  The theory shows that the invariant that links the owners of the mutexes to the positions
  of the threads holds in every reachable state, and from it mutual exclusion, the bound on
  low-priority contenders, and that no deadlock is possible.
\<close>

subsection \<open>Transition systems and their invariants\<close>

locale transition_invariant =
  fixes step :: "'s \<Rightarrow> 's \<Rightarrow> bool" and start :: 's and inv :: "'s \<Rightarrow> bool"
  assumes inv_start: "inv start" and inv_step: "inv s \<Longrightarrow> step s s' \<Longrightarrow> inv s'"
begin

lemma inv_reachable: "step\<^sup>*\<^sup>* start s \<Longrightarrow> inv s"
  by (induction rule: rtranclp_induct) (auto intro: inv_start inv_step)

lemma inv_from: "step\<^sup>*\<^sup>* s s' \<Longrightarrow> inv s \<Longrightarrow> inv s'"
  by (induction rule: rtranclp_induct) (auto intro: inv_step)

end

subsection \<open>Sessions and steps\<close>

definition high_session :: "WimpInstrQueue \<Rightarrow> mutex_call list" where
  "high_session q = wimp_instr_queue_high_prio_lock q @ wimp_instr_queue_high_prio_unlock q"

definition low_session :: "WimpInstrQueue \<Rightarrow> mutex_call list" where
  "low_session q = wimp_instr_queue_low_prio_lock q @ wimp_instr_queue_low_prio_unlock q"

text \<open>Who holds each mutex, and the calls that each thread has still to make.\<close>

record lock_state =
  owner :: "mutex \<Rightarrow> nat option"
  rest :: "nat \<Rightarrow> mutex_call list"

definition idle_locks :: lock_state where
  "idle_locks = \<lparr>owner = (\<lambda>_. None), rest = (\<lambda>_. [])\<rparr>"

inductive call_step :: "lock_state \<Rightarrow> lock_state \<Rightarrow> bool" where
  call_lock: "rest s t = MLock m # cs \<Longrightarrow> owner s m = None \<Longrightarrow>
    call_step s (s\<lparr>owner := (owner s)(m \<mapsto> t), rest := (rest s)(t := cs)\<rparr>)"
| call_unlock: "rest s t = MUnlock m # cs \<Longrightarrow> owner s m = Some t \<Longrightarrow>
    call_step s (s\<lparr>owner := (owner s)(m := None), rest := (rest s)(t := cs)\<rparr>)"

inductive lock_step :: "WimpInstrQueue \<Rightarrow> lock_state \<Rightarrow> lock_state \<Rightarrow> bool" for q where
  start_high: "rest s t = [] \<Longrightarrow> lock_step q s (s\<lparr>rest := (rest s)(t := high_session q)\<rparr>)"
| start_low: "rest s t = [] \<Longrightarrow> lock_step q s (s\<lparr>rest := (rest s)(t := low_session q)\<rparr>)"
| make_call: "call_step s s' \<Longrightarrow> lock_step q s s'"

inductive_cases call_stepE: "call_step s s'"
inductive_cases lock_stepE: "lock_step q s s'"

text \<open>A thread works on the queue when the locking function has returned and the unlocking function has
  not been called.\<close>

definition in_queue :: "WimpInstrQueue \<Rightarrow> lock_state \<Rightarrow> nat \<Rightarrow> bool" where
  "in_queue q s t \<longleftrightarrow> rest s t = wimp_instr_queue_high_prio_unlock q \<or> rest s t = wimp_instr_queue_low_prio_unlock q"

subsection \<open>The invariant\<close>

definition distinct_mutexes :: "WimpInstrQueue \<Rightarrow> bool" where
  "distinct_mutexes q \<longleftrightarrow> distinct [datamutex q, nextmutex q, lowpriomutex q]"

text \<open>The mutexes a thread holds, read off the calls it has still to make: the next call on a mutex that
  it holds is the one that unlocks it.\<close>

fun held :: "mutex_call list \<Rightarrow> mutex \<Rightarrow> bool" where
  "held [] m = False"
| "held (MLock k # cs) m = (k \<noteq> m \<and> held cs m)"
| "held (MUnlock k # cs) m = (k = m \<or> held cs m)"
| "held (MFree k # cs) m = held cs m"

fun suffixes_of :: "'a list \<Rightarrow> 'a list list" where
  "suffixes_of [] = [[]]"
| "suffixes_of (x # xs) = (x # xs) # suffixes_of xs"

definition positions :: "WimpInstrQueue \<Rightarrow> mutex_call list set" where
  "positions q = set (suffixes_of (high_session q)) \<union> set (suffixes_of (low_session q))"

definition lock_inv :: "WimpInstrQueue \<Rightarrow> lock_state \<Rightarrow> bool" where
  "lock_inv q s \<longleftrightarrow> (\<forall>t. rest s t \<in> positions q) \<and> (\<forall>m t. owner s m = Some t \<longleftrightarrow> held (rest s t) m)"

lemmas session_defs = positions_def high_session_def low_session_def wimp_instr_queue_high_prio_lock_def
  wimp_instr_queue_high_prio_unlock_def wimp_instr_queue_low_prio_lock_def wimp_instr_queue_low_prio_unlock_def

lemma sessions_start:
  assumes "distinct_mutexes q"
  shows "high_session q \<in> positions q" "low_session q \<in> positions q" "[] \<in> positions q"
    and "\<not> held (high_session q) m" "\<not> held (low_session q) m"
  using assms by (auto simp: session_defs distinct_mutexes_def)

lemma position_lock:
  assumes "distinct_mutexes q" and "MLock m # cs \<in> positions q"
  shows "cs \<in> positions q" and "held cs m"
  using assms by (auto simp: session_defs distinct_mutexes_def)

lemma position_unlock:
  assumes "distinct_mutexes q" and "MUnlock m # cs \<in> positions q"
  shows "cs \<in> positions q" and "\<not> held cs m"
  using assms by (auto simp: session_defs distinct_mutexes_def)

lemma call_step_inv:
  assumes d: "distinct_mutexes q" and inv: "lock_inv q s" and "call_step s s'"
  shows "lock_inv q s'"
  using assms(3)
proof (elim call_stepE)
  fix t m cs
  assume 1: "s' = s\<lparr>owner := (owner s)(m \<mapsto> t), rest := (rest s)(t := cs)\<rparr>" "rest s t = MLock m # cs" "owner s m = None"
  have "MLock m # cs \<in> positions q" using inv 1(2) by (metis lock_inv_def)
  note p = position_lock [OF d this]
  have "held (rest s t) k = (k \<noteq> m \<and> held cs k)" for k using 1(2) by auto
  then show ?thesis using inv 1 p by (auto simp: lock_inv_def) (metis option.distinct(1))
next
  fix t m cs
  assume 2: "s' = s\<lparr>owner := (owner s)(m := None), rest := (rest s)(t := cs)\<rparr>" "rest s t = MUnlock m # cs" "owner s m = Some t"
  have "MUnlock m # cs \<in> positions q" using inv 2(2) by (metis lock_inv_def)
  note p = position_unlock [OF d this]
  have "held (rest s t) k = (k = m \<or> held cs k)" for k using 2(2) by auto
  moreover have own: "held (rest s u) k \<longleftrightarrow> owner s k = Some u" for k u using inv by (simp add: lock_inv_def)
  ultimately have "owner s' k = Some u \<longleftrightarrow> held (rest s' u) k" for k u
    using own [of u m] own [of t k] own [of u k] 2 p(2) by (cases "u = t"; cases "k = m") auto
  then show ?thesis using inv 2(1) p(1) by (auto simp: lock_inv_def)
qed

interpretation lk: transition_invariant "lock_step q" idle_locks "\<lambda>s. distinct_mutexes q \<longrightarrow> lock_inv q s" for q
proof
  show "distinct_mutexes q \<longrightarrow> lock_inv q idle_locks"
    by (simp add: lock_inv_def idle_locks_def sessions_start)
next
  fix s s'
  assume inv: "distinct_mutexes q \<longrightarrow> lock_inv q s" and step: "lock_step q s s'"
  show "distinct_mutexes q \<longrightarrow> lock_inv q s'"
  proof
    assume d: "distinct_mutexes q"
    then have i: "lock_inv q s" using inv by blast
    show "lock_inv q s'" using step
    proof (elim lock_stepE)
      fix t assume "s' = s\<lparr>rest := (rest s)(t := high_session q)\<rparr>" "rest s t = []"
      then show ?thesis using i sessions_start [OF d] by (auto simp: lock_inv_def)
    next
      fix t assume "s' = s\<lparr>rest := (rest s)(t := low_session q)\<rparr>" "rest s t = []"
      then show ?thesis using i sessions_start [OF d] by (auto simp: lock_inv_def)
    next
      assume "call_step s s'"
      then show ?thesis by (rule call_step_inv [OF d i])
    qed
  qed
qed

lemma lock_inv_reachable:
  "distinct_mutexes q \<Longrightarrow> (lock_step q)\<^sup>*\<^sup>* idle_locks s \<Longrightarrow> lock_inv q s"
  using lk.inv_reachable by blast

lemma lock_inv_calls: "lock_inv q s \<Longrightarrow> distinct_mutexes q \<Longrightarrow> call_step\<^sup>*\<^sup>* s s' \<Longrightarrow> lock_inv q s'"
  using lk.inv_from [of q s s'] mono_rtranclp [of call_step "lock_step q"] make_call by metis

subsection \<open>Progress\<close>

text \<open>A thread that holds a mutex and waits for another one waits for a mutex that is later in the order
  low priority, next, data.\<close>

definition mutex_rank :: "WimpInstrQueue \<Rightarrow> mutex \<Rightarrow> nat" where
  "mutex_rank q m = (if m = lowpriomutex q then 2 else if m = nextmutex q then 1 else 0)"

lemma waits_upwards:
  assumes "distinct_mutexes q" and "MLock k # cs \<in> positions q" and "held (MLock k # cs) m"
  shows "mutex_rank q k < mutex_rank q m"
  using assms by (auto simp: session_defs distinct_mutexes_def mutex_rank_def)

lemma position_head: "cs \<in> positions q \<Longrightarrow> cs = [] \<or> (\<exists>m cs'. cs = MLock m # cs' \<or> cs = MUnlock m # cs')"
  by (auto simp: session_defs)

lemma call_progress:
  assumes d: "distinct_mutexes q" and inv: "lock_inv q s" and "rest s t \<noteq> []"
  shows "\<exists>s'. call_step s s'"
proof -
  have pos: "rest s t \<in> positions q" and own: "owner s m = Some t \<longleftrightarrow> held (rest s t) m" for m t
    using inv by (auto simp: lock_inv_def)
  have unlock: "\<exists>s'. call_step s s'" if "rest s u = MUnlock m # cs" for u m cs
    using call_unlock [OF that] own [of m u] that by auto
  have free: "\<exists>s'. call_step s s'" if "rest s u = MLock m # cs" for u m cs
    using that
  proof (induction "mutex_rank q m" arbitrary: u m cs rule: less_induct)
    case less
    show ?case
    proof (cases "owner s m")
      case None
      then show ?thesis using call_lock [OF less.prems] by blast
    next
      case (Some v)
      then have h: "held (rest s v) m" using own by blast
      consider m' cs' where "rest s v = MLock m' # cs'" | m' cs' where "rest s v = MUnlock m' # cs'"
        using position_head [of "rest s v" q] inv h by (auto simp: lock_inv_def)
      then show ?thesis
      proof cases
        case 1
        have "MLock m' # cs' \<in> positions q" using inv 1 by (metis lock_inv_def)
        then have "mutex_rank q m' < mutex_rank q m" using waits_upwards [OF d] h 1 by metis
        then show ?thesis using less.hyps 1 by blast
      next
        case 2
        then show ?thesis by (rule unlock)
      qed
    qed
  qed
  show ?thesis using position_head [of "rest s t" q] inv assms(3) free unlock by (auto simp: lock_inv_def)
qed

subsection \<open>Termination without new sessions\<close>

definition threads_left :: "lock_state \<Rightarrow> nat set" where
  "threads_left s = {t. rest s t \<noteq> []}"

definition calls_left :: "lock_state \<Rightarrow> nat" where
  "calls_left s = (\<Sum>t \<in> threads_left s. length (rest s t))"

lemma call_step_left:
  assumes "call_step s s'" and "finite (threads_left s)"
  shows "finite (threads_left s')" and "calls_left s = Suc (calls_left s')"
proof -
  obtain t c cs where c: "rest s t = c # cs" "rest s' = (rest s)(t := cs)"
    using assms(1) by (elim call_stepE) auto
  have p: "threads_left s = insert t (threads_left s')" and n: "threads_left s' \<subseteq> threads_left s"
    using c by (auto simp: threads_left_def split: if_splits)
  show f: "finite (threads_left s')" using finite_subset [OF n assms(2)] .
  have same: "(\<Sum>u \<in> threads_left s' - {t}. length (rest s' u)) = (\<Sum>u \<in> threads_left s' - {t}. length (rest s u))"
    using c(2) by (intro sum.cong) auto
  have "calls_left s = length (c # cs) + (\<Sum>u \<in> threads_left s' - {t}. length (rest s u))"
    unfolding calls_left_def p using f c(1) by (simp add: sum.insert_remove)
  moreover have "calls_left s' = length cs + (\<Sum>u \<in> threads_left s' - {t}. length (rest s' u))"
  proof (cases "t \<in> threads_left s'")
    case True
    then show ?thesis unfolding calls_left_def using f c(2) by (simp add: sum.remove)
  next
    case False
    then have "cs = []" using c by (simp add: threads_left_def)
    then show ?thesis using False by (simp add: calls_left_def)
  qed
  ultimately show "calls_left s = Suc (calls_left s')" using same by simp
qed

lemma call_steps_left:
  "(call_step ^^ n) s s' \<Longrightarrow> finite (threads_left s) \<Longrightarrow> finite (threads_left s') \<and> calls_left s = n + calls_left s'"
proof (induction n arbitrary: s')
  case (Suc n)
  then obtain r where "(call_step ^^ n) s r" "call_step r s'" by auto
  then show ?case using Suc.IH Suc.prems(2) call_step_left by fastforce
qed simp

section \<open>Properties\<close>

text \<open>A server thread works on the queue while a receiver, with low priority, waits.\<close>

definition ex_lock_queue :: WimpInstrQueue where
  "ex_lock_queue = wimp_create_instr_queue 0 1 2"

definition ex_locked :: lock_state where
  "ex_locked = \<lparr>owner = [0 \<mapsto> 0, 2 \<mapsto> 1], rest = (\<lambda>_. [])(0 := [MUnlock 0], 1 := tl (low_session ex_lock_queue))\<rparr>"

lemma ex_sessions: "high_session ex_lock_queue = [MLock 1, MLock 0, MUnlock 1, MUnlock 0]"
  "low_session ex_lock_queue = [MLock 2, MLock 1, MLock 0, MUnlock 1, MUnlock 0, MUnlock 2]"
  by (simp_all add: session_defs ex_lock_queue_def wimp_create_instr_queue_def)

lemma ex_distinct: "distinct_mutexes ex_lock_queue"
  by (simp add: distinct_mutexes_def ex_lock_queue_def wimp_create_instr_queue_def)

text \<open>A run as a list of the threads that make the next call.\<close>

fun run_calls :: "nat list \<Rightarrow> lock_state \<Rightarrow> lock_state option" where
  "run_calls [] s = Some s"
| "run_calls (t # ts) s =
     (case rest s t of
        MLock m # cs \<Rightarrow> (if owner s m = None
          then run_calls ts (s\<lparr>owner := (owner s)(m \<mapsto> t), rest := (rest s)(t := cs)\<rparr>) else None)
      | MUnlock m # cs \<Rightarrow> (if owner s m = Some t
          then run_calls ts (s\<lparr>owner := (owner s)(m := None), rest := (rest s)(t := cs)\<rparr>) else None)
      | _ \<Rightarrow> None)"

lemma run_calls_steps: "run_calls ts s = Some s' \<Longrightarrow> call_step\<^sup>*\<^sup>* s s'"
proof (induction ts s rule: run_calls.induct)
  case (2 t ts s)
  then obtain c cs where c: "rest s t = c # cs" by (cases "rest s t") auto
  then show ?case using 2 call_lock [of s t] call_unlock [of s t]
    by (cases c) (auto split: if_splits intro: converse_rtranclp_into_rtranclp)
qed simp

lemma ex_locked_reachable: "(lock_step ex_lock_queue)\<^sup>*\<^sup>* idle_locks ex_locked"
proof -
  let ?s0 = "idle_locks\<lparr>rest := (rest idle_locks)(0 := high_session ex_lock_queue)\<rparr>"
  let ?s1 = "?s0\<lparr>rest := (rest ?s0)(1 := low_session ex_lock_queue)\<rparr>"
  have 0: "lock_step ex_lock_queue idle_locks ?s0" by (rule start_high) (simp add: idle_locks_def)
  have 1: "lock_step ex_lock_queue ?s0 ?s1" by (rule start_low) (simp add: idle_locks_def)
  have "run_calls [1, 0, 0, 0] ?s1 = Some ex_locked"
    by (simp add: ex_sessions idle_locks_def ex_locked_def fun_eq_iff)
  then have "(lock_step ex_lock_queue)\<^sup>*\<^sup>* ?s1 ex_locked"
    using run_calls_steps mono_rtranclp [of call_step "lock_step ex_lock_queue"] make_call by blast
  then show ?thesis using 0 1 by (meson converse_rtranclp_into_rtranclp)
qed

text \<open>C9: However the sessions of high and low priority interleave, at most one thread is between the return
  of its locking function and the call of its unlocking function, at most one low-priority thread is past its
  first lock (so the server never competes with more than one receiver for the queue), and no thread unlocks
  a mutex that it does not hold.\<close>

theorem queue_mutual_exclusion:
  assumes "distinct_mutexes q" and "(lock_step q)\<^sup>*\<^sup>* idle_locks s"
  shows "(\<forall>t t'. in_queue q s t \<and> in_queue q s t' \<longrightarrow> t = t')
    \<and> (\<forall>t t'. held (rest s t) (lowpriomutex q) \<and> held (rest s t') (lowpriomutex q) \<longrightarrow> t = t')
    \<and> (\<forall>t m cs. rest s t = MUnlock m # cs \<longrightarrow> owner s m = Some t)"
proof -
  have own: "owner s m = Some t \<longleftrightarrow> held (rest s t) m" for m t
    using lock_inv_reachable [OF assms] by (auto simp: lock_inv_def)
  have "held (rest s t) (datamutex q)" if "in_queue q s t" for t
    using that by (auto simp: in_queue_def session_defs)
  then have "t = t'" if "in_queue q s t" "in_queue q s t'" for t t'
    using that own by (metis option.inject)
  moreover have "t = t'" if "held (rest s t) m" "held (rest s t') m" for t t' m
    using that own by (metis option.inject)
  moreover have "owner s m = Some t" if "rest s t = MUnlock m # cs" for t m cs using that own [of m t] by simp
  ultimately show ?thesis by blast
qed

theorem queue_mutual_exclusion_witness:
  "{t. in_queue ex_lock_queue ex_locked t} = {0} \<and> {t. held (rest ex_locked t) 2} = {1} \<and> owner ex_locked 0 = Some 0"
proof -
  note x = queue_mutual_exclusion [OF ex_distinct ex_locked_reachable]
  have u: "rest ex_locked 0 = [MUnlock 0]" "in_queue ex_lock_queue ex_locked 0" "held (rest ex_locked 1) 2" "lowpriomutex ex_lock_queue = 2"
    by (simp_all add: ex_locked_def in_queue_def session_defs ex_lock_queue_def wimp_create_instr_queue_def)
  then show ?thesis using x by fastforce
qed

text \<open>C10: The locks cannot deadlock: in every reachable state in which some thread is inside a session, some
  thread can make its next call; and when no new sessions begin, the threads make only as many calls as they
  have left, after which every session has ended and every mutex is free.\<close>

theorem queue_locks_progress:
  assumes "distinct_mutexes q" and "(lock_step q)\<^sup>*\<^sup>* idle_locks s" and "finite (threads_left s)"
  shows "(threads_left s \<noteq> {} \<longrightarrow> (\<exists>s'. call_step s s'))
    \<and> (\<forall>n s'. (call_step ^^ n) s s' \<longrightarrow> n \<le> calls_left s
        \<and> ((\<nexists>s''. call_step s' s'') \<longrightarrow> n = calls_left s \<and> threads_left s' = {} \<and> (\<forall>m. owner s' m = None)))"
proof (intro conjI allI impI)
  note inv = lock_inv_reachable [OF assms(1,2)]
  show "\<exists>s'. call_step s s'" if "threads_left s \<noteq> {}"
    using that call_progress [OF assms(1) inv] by (auto simp: threads_left_def)
  fix n s' assume n: "(call_step ^^ n) s s'"
  note l = call_steps_left [OF n assms(3)]
  show "n \<le> calls_left s" using l by simp
  assume stuck: "\<nexists>s''. call_step s' s''"
  have inv': "lock_inv q s'" using lock_inv_calls [OF inv assms(1)] relpowp_imp_rtranclp [OF n] by blast
  then have e: "rest s' t = []" for t using call_progress [OF assms(1) inv'] stuck by blast
  then show p: "threads_left s' = {}" by (simp add: threads_left_def)
  then show "n = calls_left s" using l by (simp add: calls_left_def)
  show "owner s' m = None" for m using inv' e by (cases "owner s' m") (auto simp: lock_inv_def)
qed

theorem queue_locks_progress_witness:
  "threads_left ex_locked = {0, 1} \<and> calls_left ex_locked = 6 \<and> (\<exists>s'. call_step ex_locked s')
    \<and> {n. \<exists>s'. (call_step ^^ n) ex_locked s'} \<subseteq> {..6}"
proof -
  have p: "threads_left ex_locked = {0, 1}" by (auto simp: threads_left_def ex_locked_def ex_sessions)
  have c: "calls_left ex_locked = 6" unfolding calls_left_def p by (simp add: ex_locked_def ex_sessions)
  have "finite (threads_left ex_locked)" by (simp add: p)
  from queue_locks_progress [OF ex_distinct ex_locked_reachable this] show ?thesis by (auto simp: p c)
qed

end
