(* ===== verification/Wimp_Process_Table.thy ===== *)
theory Wimp_Process_Table
  imports HashString
begin

section \<open>The process table (\<open>wimp_process_table.c\<close>)\<close>

text \<open>
  A server's table of the processes it knows: a hash table from process names to pointers to
  process data. The data live in their own heap \<open>procs\<close>, so that freeing them and keeping a
  dangling pointer in the table are visible. The first part holds the operations, the second the
  invariant, the map of names to data that a table stands for, and what the operations do to it.
\<close>

subsection \<open>Data\<close>

definition WIMP_PROCESS_TABLE_MAX_LENGTH :: int where
  "WIMP_PROCESS_TABLE_MAX_LENGTH = 128"

definition WIMP_PROCESS_ACTIVE :: int where
  "WIMP_PROCESS_ACTIVE = 1"

definition WIMP_PROCESS_INACTIVE :: int where
  "WIMP_PROCESS_INACTIVE = 0"

definition WIMP_PROCESS_TABLE_SUCCESS :: int where
  "WIMP_PROCESS_TABLE_SUCCESS = 0"

definition WIMP_PROCESS_TABLE_FAIL :: int where
  "WIMP_PROCESS_TABLE_FAIL = - 1"

lemmas ptable_consts = WIMP_PROCESS_TABLE_MAX_LENGTH_def WIMP_PROCESS_ACTIVE_def
  WIMP_PROCESS_INACTIVE_def WIMP_PROCESS_TABLE_SUCCESS_def WIMP_PROCESS_TABLE_FAIL_def

datatype WimpRelation =
    WIMP_Process_Unknown
  | WIMP_Process_Child
  | WIMP_Process_Parent
  | WIMP_Process_Independent

record WimpProcessData =
  process_domain :: "bytes option"
  process_connection :: "nat option"
  process_port :: int
  process_active :: int
  process_relation :: WimpRelation

record WimpProcessTable =
  hash_table :: "addr HashString option"
  table_length :: size_t

subsection \<open>Operations\<close>

text \<open>The free of the data includes the free of its domain string.\<close>

definition wimp_process_data_free :: "WimpProcessData heap \<Rightarrow> addr \<Rightarrow> WimpProcessData heap outcome" where
  "wimp_process_data_free procs data =
     bnd (hload procs data) (\<lambda>_. hfree procs (Some data))"

definition wimp_create_process_table :: "bool \<Rightarrow> bool \<Rightarrow> WimpProcessTable" where
  "wimp_create_process_table container_ok table_ok =
     \<lparr>hash_table = HashString_create container_ok table_ok WIMP_PROCESS_TABLE_MAX_LENGTH,
      table_length = 0\<rparr>"

text \<open>\<open>domain_ok\<close>, \<open>entry_ok\<close> and \<open>key_ok\<close> are the outcomes of the allocations of the domain
  string, the hash entry and its key; the allocation of the data is the heap's.\<close>

definition wimp_process_table_add ::
    "bool \<Rightarrow> bool \<Rightarrow> bool \<Rightarrow> WimpProcessData heap \<Rightarrow> WimpProcessTable option \<Rightarrow> bytes \<Rightarrow> bytes \<Rightarrow>
     int \<Rightarrow> WimpRelation \<Rightarrow> nat option \<Rightarrow>
     (int \<times> WimpProcessTable option \<times> WimpProcessData heap) outcome" where
  "wimp_process_table_add domain_ok entry_ok key_ok procs tbl name domain port relation con =
     (case tbl of
        None \<Rightarrow> Ok (WIMP_PROCESS_TABLE_FAIL, tbl, procs)
      | Some t \<Rightarrow>
          bnd (deref (hash_table t)) (\<lambda>h.
          bnd (HashString_find h name) (\<lambda>found.
          if found \<noteq> None then Ok (WIMP_PROCESS_TABLE_FAIL, tbl, procs)
          else
            let data = \<lparr>process_domain = (if domain_ok then Some domain else None),
                        process_connection = con, process_port = port,
                        process_active = WIMP_PROCESS_INACTIVE, process_relation = relation\<rparr>;
                (p, procs') = halloc procs data
            in case p of
                 None \<Rightarrow> Ok (WIMP_PROCESS_TABLE_FAIL, tbl, procs')
               | Some a \<Rightarrow>
                   bnd (HashString_add entry_ok key_ok (Some h) (Some name) a) (\<lambda>(r, h').
                   if r \<noteq> 0 then Ok (WIMP_PROCESS_TABLE_FAIL, tbl, procs')
                   else Ok (WIMP_PROCESS_TABLE_SUCCESS,
                            Some (t\<lparr>hash_table := h', table_length := table_length t + 1\<rparr>), procs')))))"

definition wimp_process_table_remove ::
    "WimpProcessData heap \<Rightarrow> WimpProcessTable option \<Rightarrow> bytes \<Rightarrow>
     (int \<times> WimpProcessTable option \<times> WimpProcessData heap) outcome" where
  "wimp_process_table_remove procs tbl name =
     (case tbl of
        None \<Rightarrow> Ok (WIMP_PROCESS_TABLE_FAIL, tbl, procs)
      | Some t \<Rightarrow>
          bnd (deref (hash_table t)) (\<lambda>h.
          bnd (HashString_find h name) (\<lambda>entry.
          case entry of
            None \<Rightarrow> Ok (WIMP_PROCESS_TABLE_FAIL, tbl, procs)
          | Some e \<Rightarrow>
              bnd (wimp_process_data_free procs (hvalue e)) (\<lambda>procs'.
              bnd (HashString_remove h name) (\<lambda>(r, h').
              let t' = t\<lparr>hash_table := Some h', table_length := table_length t - 1\<rparr> in
              if r \<noteq> 0 then Ok (WIMP_PROCESS_TABLE_FAIL, Some t', procs')
              else Ok (WIMP_PROCESS_TABLE_SUCCESS, Some t', procs'))))))"

text \<open>The second component is what \<open>*data\<close> is set to, \<open>None\<close> when it is left alone.\<close>

definition wimp_process_table_get :: "WimpProcessTable \<Rightarrow> bytes option \<Rightarrow> (int \<times> addr option) outcome" where
  "wimp_process_table_get t process_name =
     (case process_name of
        None \<Rightarrow> Ok (WIMP_PROCESS_TABLE_FAIL, None)
      | Some name \<Rightarrow>
          bnd (deref (hash_table t)) (\<lambda>h.
          bnd (HashString_find h name) (\<lambda>val.
          case val of
            None \<Rightarrow> Ok (WIMP_PROCESS_TABLE_FAIL, None)
          | Some e \<Rightarrow> Ok (WIMP_PROCESS_TABLE_SUCCESS, Some (hvalue e)))))"

definition wimp_process_table_length :: "WimpProcessTable \<Rightarrow> size_t" where
  "wimp_process_table_length t = table_length t"

text \<open>The loop frees the data of the chain that the first entry is on. The second component
  lists the entries that \<open>HashString_destroy\<close> frees.\<close>

fun free_entries :: "WimpProcessData heap \<Rightarrow> addr HashStringEntry list \<Rightarrow> WimpProcessData heap outcome" where
  "free_entries procs [] = Ok procs"
| "free_entries procs (entry # nextEntry) =
     bnd (wimp_process_data_free procs (hvalue entry)) (\<lambda>procs'. free_entries procs' nextEntry)"

definition wimp_process_table_free ::
    "WimpProcessData heap \<Rightarrow> WimpProcessTable \<Rightarrow>
     (WimpProcessData heap \<times> addr HashStringEntry list) outcome" where
  "wimp_process_table_free procs t =
     bnd (deref (hash_table t)) (\<lambda>h.
     bnd (if table_length t > 0
          then bnd (HashString_firstEntry h []) (\<lambda>(entry, index). free_entries procs entry)
          else Ok procs) (\<lambda>procs'.
     Ok (procs', HashString_destroy h)))"

section \<open>The map of names to process data\<close>

definition ptable_ok :: "WimpProcessData heap \<Rightarrow> WimpProcessTable \<Rightarrow> bool" where
  "ptable_ok procs t \<longleftrightarrow> heap_ok procs \<and>
     (\<exists>h. hash_table t = Some h \<and> hash_ok h
        \<and> table_length t = of_nat (entry_count h)
        \<and> (\<forall>k a. hash_lookup h k = Some a \<longrightarrow> cells procs a \<noteq> None)
        \<and> (\<forall>k k' a. hash_lookup h k = Some a \<longrightarrow> hash_lookup h k' = Some a \<longrightarrow> k = k'))"

definition ptable_map :: "WimpProcessData heap \<Rightarrow> WimpProcessTable \<Rightarrow> bytes \<Rightarrow> WimpProcessData option" where
  "ptable_map procs t name =
     (case hash_table t of None \<Rightarrow> None
      | Some h \<Rightarrow> (case hash_lookup h name of None \<Rightarrow> None | Some a \<Rightarrow> cells procs a))"

text \<open>The names that \<open>remove\<close> can take out of the table.\<close>

definition ptable_removable :: "WimpProcessTable \<Rightarrow> bytes \<Rightarrow> bool" where
  "ptable_removable t name \<longleftrightarrow> (case hash_table t of None \<Rightarrow> False | Some h \<Rightarrow> removable h name)"

lemma ptable_okE:
  assumes "ptable_ok procs t"
  obtains h where "hash_table t = Some h" "hash_ok h" "heap_ok procs"
    "table_length t = of_nat (entry_count h)"
    "\<forall>k a. hash_lookup h k = Some a \<longrightarrow> cells procs a \<noteq> None"
    "\<forall>k k' a. hash_lookup h k = Some a \<longrightarrow> hash_lookup h k' = Some a \<longrightarrow> k = k'"
  using assms by (auto simp: ptable_ok_def)

lemma find_lookup: "hash_ok h \<Longrightarrow> HashString_find h name = Ok None \<longleftrightarrow> hash_lookup h name = None"
  by (simp add: HashString_find_eq hash_lookup_def)

lemma find_lookup_Some:
  assumes "hash_ok h" and "hash_lookup h name = Some a"
  obtains e where "HashString_find h name = Ok (Some e)" and "hvalue e = a"
  using assms by (auto simp: HashString_find_eq hash_lookup_def)

lemma concat_update_length:
  "i < length xs \<Longrightarrow> length (concat (xs[i := ys])) + length (xs ! i) = length (concat xs) + length ys"
  by (induction xs arbitrary: i) (auto split: nat.split simp: nth_Cons)

lemma create_table_ok:
  "ptable_ok (empty_heap f) (wimp_create_process_table True True)
   \<and> ptable_map (empty_heap f) (wimp_create_process_table True True) = (\<lambda>_. None)"
proof -
  let ?h = "\<lparr>hsize = 128, htable = replicate 128 []\<rparr> :: addr HashString"
  have "HashString_create True True 128 = Some ?h"
    by (simp add: HashString_create_def)
  then have "hash_ok ?h" and "hash_lookup ?h = (\<lambda>_. None)"
    using HashString_create_ok [of 128 ?h] by simp_all
  then show ?thesis
    by (simp add: ptable_ok_def ptable_map_def wimp_create_process_table_def HashString_create_def
        WIMP_PROCESS_TABLE_MAX_LENGTH_def entry_count_def fun_eq_iff)
qed

subsection \<open>The hash table underneath\<close>

lemma hash_insert:
  assumes "hash_ok h" and "hash_lookup h k = None"
  obtains h' where "HashString_add True True (Some h) (Some k) v = Ok (0, Some h')"
    and "hash_ok h'" and "hash_lookup h' = (hash_lookup h)(k \<mapsto> v)" and "removable h' k"
    and "entry_count h' = Suc (entry_count h)"
proof -
  let ?h = "h\<lparr>htable := (htable h)[slot h k := \<lparr>hkey = k, hvalue = v\<rparr> # htable h ! slot h k]\<rparr>"
  have add: "HashString_add True True (Some h) (Some k) v = Ok (0, Some ?h)"
    by (rule HashString_add_new [OF assms])
  then have "table_insert h k v = Ok (0, ?h)" by (simp add: table_insert_def)
  then have "hash_ok ?h \<and> hash_lookup ?h = (hash_lookup h)(k \<mapsto> v) \<and> removable ?h k"
    using hs.insert_new [OF assms, of v] by auto
  moreover have "entry_count ?h = Suc (entry_count h)"
    using concat_update_length [OF slot_less [OF assms(1), of k],
        of "\<lparr>hkey = k, hvalue = v\<rparr> # htable h ! slot h k"]
    by (simp add: entry_count_def)
  ultimately show thesis using add that by blast
qed

lemma hash_delete:
  assumes "hash_ok h" and "hash_lookup h k = Some v" and "removable h k"
  obtains h' where "HashString_remove h k = Ok (0, h')" and "hash_ok h'"
    and "hash_lookup h' = (hash_lookup h)(k := None)" and "Suc (entry_count h') = entry_count h"
proof -
  obtain h' where h': "HashString_remove h k = Ok (0, h')" "hash_ok h'"
    "hash_lookup h' = (hash_lookup h)(k := None)"
    using hs.delete_old [OF assms(1) _ assms(3)] assms(2) by auto
  have len: "Suc (length (del_first k es)) = length es" if "find_chain es k \<noteq> None"
    for es :: "'a HashStringEntry list"
    using that by (induction es) (auto split: if_splits)
  let ?es = "htable h ! slot h k"
  have s: "slot h k < length (htable h)" by (rule slot_less [OF assms(1)])
  have "h' = h\<lparr>htable := (htable h)[slot h k := del_first k ?es]\<rparr>"
    using h'(1) assms(2,3) by (auto simp: HashString_remove_eq [OF assms(1)] hash_lookup_def removable_def
        split: list.splits if_splits)
  then have "Suc (entry_count h') = entry_count h"
    using concat_update_length [OF s, of "del_first k ?es"] len [of ?es] assms(2)
    by (auto simp: entry_count_def hash_lookup_def)
  then show thesis using h' that by blast
qed

subsection \<open>Lookup, insertion and removal\<close>

lemma table_get_eq:
  assumes "hash_table t = Some h" and "hash_ok h"
  shows "wimp_process_table_get t (Some name) =
    Ok (case hash_lookup h name of None \<Rightarrow> (WIMP_PROCESS_TABLE_FAIL, None)
        | Some a \<Rightarrow> (WIMP_PROCESS_TABLE_SUCCESS, Some a))"
  using assms by (auto simp: wimp_process_table_get_def HashString_find_eq hash_lookup_def split: option.splits)

lemma ptable_map_get:
  assumes "ptable_ok procs t"
  shows "wimp_process_table_get t (Some name) = Ok (WIMP_PROCESS_TABLE_FAIL, None) \<and> ptable_map procs t name = None
    \<or> (\<exists>a d. wimp_process_table_get t (Some name) = Ok (WIMP_PROCESS_TABLE_SUCCESS, Some a)
         \<and> cells procs a = Some d \<and> ptable_map procs t name = Some d)"
proof -
  obtain h where h: "hash_table t = Some h" "hash_ok h"
    "\<forall>k a. hash_lookup h k = Some a \<longrightarrow> cells procs a \<noteq> None"
    using assms by (auto elim: ptable_okE)
  show ?thesis
  proof (cases "hash_lookup h name")
    case None
    then show ?thesis using h(1) by (simp add: table_get_eq [OF h(1,2)] ptable_map_def)
  next
    case (Some a)
    then show ?thesis using h(1,3) Some by (auto simp: table_get_eq [OF h(1,2)] ptable_map_def)
  qed
qed

lemma ptable_map_lookup:
  assumes "ptable_ok procs t" and "hash_table t = Some h"
  shows "ptable_map procs t name = None \<longleftrightarrow> hash_lookup h name = None"
  using assms by (auto simp: ptable_ok_def ptable_map_def split: option.splits)

lemma table_add_new:
  assumes ok: "ptable_ok procs t" and new: "ptable_map procs t name = None"
    and malloc: "\<not> fails procs (calls procs)"
  shows "\<exists>t' procs'. wimp_process_table_add True True True procs (Some t) name domain port relation con
        = Ok (WIMP_PROCESS_TABLE_SUCCESS, Some t', procs')
    \<and> ptable_ok procs' t'
    \<and> ptable_map procs' t' = (ptable_map procs t)(name \<mapsto>
        \<lparr>process_domain = Some domain, process_connection = con, process_port = port,
         process_active = WIMP_PROCESS_INACTIVE, process_relation = relation\<rparr>)
    \<and> ptable_removable t' name
    \<and> table_length t' = table_length t + 1"
proof -
  let ?d = "\<lparr>process_domain = Some domain, process_connection = con, process_port = port,
         process_active = WIMP_PROCESS_INACTIVE, process_relation = relation\<rparr>"
  let ?a = "calls procs" and ?procs = "snd (halloc procs ?d)"
  obtain h where h: "hash_table t = Some h" "hash_ok h" "heap_ok procs"
    "table_length t = of_nat (entry_count h)"
    "\<forall>k a. hash_lookup h k = Some a \<longrightarrow> cells procs a \<noteq> None"
    "\<forall>k k' a. hash_lookup h k = Some a \<longrightarrow> hash_lookup h k' = Some a \<longrightarrow> k = k'"
    using ok by (rule ptable_okE)
  have n: "hash_lookup h name = None" using new ok h(1) by (simp add: ptable_map_lookup)
  obtain h' where h': "HashString_add True True (Some h) (Some name) ?a = Ok (0, Some h')"
    "hash_ok h'" "hash_lookup h' = (hash_lookup h)(name \<mapsto> ?a)" "removable h' name"
    "entry_count h' = Suc (entry_count h)"
    using hash_insert [OF h(2) n] .
  have cells: "cells ?procs = (cells procs)(?a \<mapsto> ?d)" using malloc by (simp add: halloc_def)
  have fresh: "hash_lookup h k \<noteq> Some ?a" for k
    using h(5) heap_ok_fresh [OF h(3)] by metis
  let ?t = "t\<lparr>hash_table := Some h', table_length := table_length t + 1\<rparr>"
  have "HashString_find h name = Ok None" using find_lookup [OF h(2)] n by simp
  then have "wimp_process_table_add True True True procs (Some t) name domain port relation con
      = Ok (WIMP_PROCESS_TABLE_SUCCESS, Some ?t, ?procs)"
    using h(1) h'(1) malloc by (simp add: wimp_process_table_add_def Let_def halloc_def)
  moreover have "ptable_ok ?procs ?t"
    using h h' cells fresh halloc_ok [OF h(3), of ?d]
    by (auto simp: ptable_ok_def split: if_splits)
  moreover have "ptable_map ?procs ?t = (ptable_map procs t)(name \<mapsto> ?d)"
    using h(1) h'(3) cells fresh by (auto simp: ptable_map_def fun_eq_iff split: option.splits)
  moreover have "ptable_removable ?t name" using h'(4) by (simp add: ptable_removable_def)
  ultimately show ?thesis by (intro exI conjI) (assumption | simp)+
qed

lemma table_add_old:
  assumes "ptable_ok procs t" and "ptable_map procs t name \<noteq> None"
  shows "wimp_process_table_add a b c procs (Some t) name domain port relation con
       = Ok (WIMP_PROCESS_TABLE_FAIL, Some t, procs)"
proof -
  obtain h where h: "hash_table t = Some h" "hash_ok h" using assms(1) by (rule ptable_okE)
  then obtain d where "hash_lookup h name = Some d" using assms by (auto simp: ptable_map_lookup)
  then obtain e where "HashString_find h name = Ok (Some e)"
    using find_lookup_Some [OF h(2)] by metis
  then show ?thesis using h by (simp add: wimp_process_table_add_def)
qed

lemma table_remove_old:
  assumes ok: "ptable_ok procs t" and old: "ptable_map procs t name \<noteq> None"
    and pos: "ptable_removable t name"
  shows "\<exists>t' procs'. wimp_process_table_remove procs (Some t) name
        = Ok (WIMP_PROCESS_TABLE_SUCCESS, Some t', procs')
    \<and> ptable_ok procs' t' \<and> ptable_map procs' t' = (ptable_map procs t)(name := None)
    \<and> table_length t' = table_length t - 1"
proof -
  obtain h where h: "hash_table t = Some h" "hash_ok h" "heap_ok procs"
    "table_length t = of_nat (entry_count h)"
    "\<forall>k a. hash_lookup h k = Some a \<longrightarrow> cells procs a \<noteq> None"
    "\<forall>k k' a. hash_lookup h k = Some a \<longrightarrow> hash_lookup h k' = Some a \<longrightarrow> k = k'"
    using ok by (rule ptable_okE)
  obtain a where a: "hash_lookup h name = Some a"
    using old ok h(1) by (auto simp: ptable_map_lookup)
  obtain e where e: "HashString_find h name = Ok (Some e)" "hvalue e = a"
    using find_lookup_Some [OF h(2) a] .
  obtain d where d: "cells procs a = Some d" using h(5) a by auto
  obtain h' where h': "HashString_remove h name = Ok (0, h')" "hash_ok h'"
    "hash_lookup h' = (hash_lookup h)(name := None)" "Suc (entry_count h') = entry_count h"
    using hash_delete [OF h(2) a] pos h(1) by (auto simp: ptable_removable_def)
  let ?procs = "procs\<lparr>cells := (cells procs)(a := None)\<rparr>"
    and ?t = "t\<lparr>hash_table := Some h', table_length := table_length t - 1\<rparr>"
  have other: "k = name" if "hash_lookup h k = Some a" for k using h(6) that a by blast
  have "wimp_process_table_remove procs (Some t) name = Ok (WIMP_PROCESS_TABLE_SUCCESS, Some ?t, ?procs)"
    using h(1) e d h'(1) by (simp add: wimp_process_table_remove_def wimp_process_data_free_def Let_def)
  moreover have "table_length t - 1 = of_nat (entry_count h')"
    using h(4) h'(4) by (metis add_diff_cancel_left' of_nat_Suc)
  then have "ptable_ok ?procs ?t"
    using h h'(2,3) other heap_ok_delete [OF h(3), of a]
    by (auto simp: ptable_ok_def split: if_splits)
  moreover have "ptable_map ?procs ?t = (ptable_map procs t)(name := None)"
    using h(1) h'(3) other by (auto simp: ptable_map_def fun_eq_iff split: option.splits)
  ultimately show ?thesis by (intro exI conjI) (assumption | simp)+
qed

text \<open>The data of the process are freed before the chain is searched, so the name in the second
  place of its chain takes the program down with the data already gone.\<close>

lemma table_remove_second:
  assumes ok: "ptable_ok procs t" and h: "hash_table t = Some h"
    and chain: "htable h ! slot h name = e # e' # es" and key: "hkey e' = name"
  shows "wimp_process_table_remove procs (Some t) name = Fault NullDeref"
proof -
  have hok: "hash_ok h" using ok h by (auto elim: ptable_okE)
  have ne: "hkey e \<noteq> name"
    using chain_ok_slot [OF hok, of name] chain key by (auto simp: chain_ok_def)
  then have l: "hash_lookup h name = Some (hvalue e')" using chain key by (simp add: hash_lookup_def)
  have find: "HashString_find h name = Ok (Some e')"
    using chain key ne by (simp add: HashString_find_eq [OF hok])
  have "cells procs (hvalue e') \<noteq> None" using ok h l by (auto elim: ptable_okE)
  then show ?thesis
    using h find HashString_remove_second [OF hok chain key]
    by (auto simp: wimp_process_table_remove_def wimp_process_data_free_def)
qed

subsection \<open>Freeing the table\<close>

text \<open>The chain that the freeing loop walks: the first one that is not empty.\<close>

fun first_chain :: "'a list list \<Rightarrow> 'a list" where
  "first_chain [] = []"
| "first_chain (es # t) = (if es = [] then first_chain t else es)"

lemma scan_buckets_first_chain:
  assumes h: "hash_ok h"
  shows "i \<le> length (htable h) \<Longrightarrow> \<exists>j. scan_buckets h [] i = Ok (first_chain (drop i (htable h)), j)"
proof (induction "length (htable h) - i" arbitrary: i rule: less_induct)
  case less
  have len: "hsize h = int (length (htable h))" using h by (simp add: hash_ok_def)
  show ?case
  proof (cases "i < length (htable h)")
    case False
    then have "scan_buckets h [] i = Ok ([], i)"
      using len by (simp add: scan_buckets.simps [of h "[]" i])
    then show ?thesis using False by simp
  next
    case True
    then have step: "scan_buckets h [] i = scan_buckets h (htable h ! i) (Suc i)"
      using len by (simp add: scan_buckets.simps [of h "[]" i] bucket_def)
    have dr: "drop i (htable h) = htable h ! i # drop (Suc i) (htable h)"
      using True by (simp add: Cons_nth_drop_Suc)
    show ?thesis
    proof (cases "htable h ! i = []")
      case True': True
      then show ?thesis using less.hyps [of "Suc i"] True step by (simp add: dr)
    next
      case False
      then show ?thesis using step by (simp add: dr scan_buckets.simps [of h "htable h ! i"])
    qed
  qed
qed

lemma set_first_chain: "set (first_chain t) \<subseteq> set (concat t)"
  by (induction t) auto

lemma free_entries_eq:
  assumes "distinct (map hvalue es)" and "\<forall>e \<in> set es. cells procs (hvalue e) \<noteq> None"
  shows "\<exists>procs'. free_entries procs es = Ok procs' \<and>
    cells procs' = (\<lambda>a. if a \<in> hvalue ` set es then None else cells procs a)"
  using assms
proof (induction es arbitrary: procs)
  case Nil
  then show ?case by simp
next
  case (Cons e es)
  let ?p = "procs\<lparr>cells := (cells procs)(hvalue e := None)\<rparr>"
  obtain d where "cells procs (hvalue e) = Some d" using Cons.prems(2) by auto
  then have "wimp_process_data_free procs (hvalue e) = Ok ?p"
    by (simp add: wimp_process_data_free_def)
  moreover have "\<forall>e' \<in> set es. cells ?p (hvalue e') \<noteq> None"
    using Cons.prems by (auto simp: image_iff)
  then obtain p where "free_entries ?p es = Ok p"
    "cells p = (\<lambda>a. if a \<in> hvalue ` set es then None else cells ?p a)"
    using Cons.IH [of ?p] Cons.prems(1) by auto
  ultimately show ?case by (auto simp: fun_eq_iff)
qed

lemma distinct_values:
  assumes "hash_ok h" and "set es \<subseteq> set (concat (htable h))" and "distinct (map hkey es)"
    and inj: "\<forall>k k' a. hash_lookup h k = Some a \<longrightarrow> hash_lookup h k' = Some a \<longrightarrow> k = k'"
  shows "distinct (map hvalue es)"
proof -
  have "inj_on hvalue (set es)"
  proof (rule inj_onI)
    fix e e' assume "e \<in> set es" "e' \<in> set es" "hvalue e = hvalue e'"
    moreover have "hash_lookup h (hkey e) = Some (hvalue e)" if "e \<in> set es" for e
      using that assms(2) by (subst lookup_iff_entry [OF assms(1)]) (auto simp del: set_concat)
    ultimately have "hkey e = hkey e'" using inj by metis
    with \<open>hvalue e = hvalue e'\<close> show "e = e'" by (cases e, cases e') simp
  qed
  then show ?thesis using assms(3) by (simp add: distinct_map)
qed

lemma distinct_first_chain:
  "distinct (map f (concat t)) \<Longrightarrow> distinct (map f (first_chain t))"
  by (induction t) auto

lemma table_free_eq:
  assumes ok: "ptable_ok procs t" and h: "hash_table t = Some h" and few: "entry_count h < 2 ^ 64"
  shows "\<exists>procs'. wimp_process_table_free procs t = Ok (procs', concat (htable h))
    \<and> cells procs' = (\<lambda>a. if a \<in> hvalue ` set (first_chain (htable h)) then None else cells procs a)"
proof -
  have hok: "hash_ok h" and len: "table_length t = of_nat (entry_count h)"
    and alloc: "\<forall>k a. hash_lookup h k = Some a \<longrightarrow> cells procs a \<noteq> None"
    and inj: "\<forall>k k' a. hash_lookup h k = Some a \<longrightarrow> hash_lookup h k' = Some a \<longrightarrow> k = k'"
    using ok h by (auto simp: ptable_ok_def)
  let ?es = "first_chain (htable h)"
  have sub: "set ?es \<subseteq> set (concat (htable h))" by (rule set_first_chain)
  show ?thesis
  proof (cases "entry_count h = 0")
    case True
    then have "concat (htable h) = []" by (simp only: entry_count_def length_0_conv)
    then have "?es = []" by (metis empty_set set_empty sub subset_empty)
    then show ?thesis using h len True HashString_destroy_eq [OF hok]
      by (simp add: wimp_process_table_free_def)
  next
    case False
    have "unat (of_nat (entry_count h) :: 64 word) = entry_count h"
      using few by (simp add: unat_of_nat)
    then have "table_length t \<noteq> 0" using False len by (metis unat_0)
    then have pos: "table_length t > 0" by (simp add: word_gt_0)
    obtain j where j: "HashString_firstEntry h [] = Ok (?es, j)"
      using scan_buckets_first_chain [OF hok, of 0] by (auto simp: HashString_firstEntry_def)
    have "\<forall>e \<in> set ?es. cells procs (hvalue e) \<noteq> None"
    proof
      fix e assume "e \<in> set ?es"
      then have "hash_lookup h (hkey e) = Some (hvalue e)"
        using sub by (subst lookup_iff_entry [OF hok]) (auto simp del: set_concat)
      then show "cells procs (hvalue e) \<noteq> None" using alloc by blast
    qed
    moreover have "distinct (map hvalue ?es)"
      using distinct_values [OF hok sub distinct_first_chain [OF distinct_keys [OF hok]] inj] .
    ultimately obtain p where "free_entries procs ?es = Ok p"
      "cells p = (\<lambda>a. if a \<in> hvalue ` set ?es then None else cells procs a)"
      using free_entries_eq by blast
    then show ?thesis using h pos j HashString_destroy_eq [OF hok]
      by (simp add: wimp_process_table_free_def)
  qed
qed

section \<open>Properties\<close>

text \<open>C26: Adding a process under a new name succeeds and makes exactly that name map to the new data,
  which starts inactive; adding one under a known name fails and changes nothing.\<close>

theorem table_add_map:
  assumes "ptable_ok procs t" and "\<not> fails procs (calls procs)"
  shows "if ptable_map procs t name = None
    then \<exists>t' procs'. wimp_process_table_add True True True procs (Some t) name domain port relation con
        = Ok (WIMP_PROCESS_TABLE_SUCCESS, Some t', procs') \<and> ptable_ok procs' t'
      \<and> ptable_map procs' t' = (ptable_map procs t)(name \<mapsto>
          \<lparr>process_domain = Some domain, process_connection = con, process_port = port,
           process_active = WIMP_PROCESS_INACTIVE, process_relation = relation\<rparr>)
      \<and> wimp_process_table_length t' = wimp_process_table_length t + 1
    else wimp_process_table_add True True True procs (Some t) name domain port relation con
        = Ok (WIMP_PROCESS_TABLE_FAIL, Some t, procs)"
proof (cases "ptable_map procs t name = None")
  case True
  then show ?thesis
    unfolding wimp_process_table_length_def
    using table_add_new [OF assms(1) True assms(2), of domain port relation con] by (simp only: if_True simp_thms) blast
next
  case False
  then show ?thesis using table_add_old [OF assms(1) False] by simp
qed

text \<open>A table with two names in one bucket.\<close>

definition two_procs :: "WimpProcessData heap" where
  "two_procs = \<lparr>cells = [0 \<mapsto> \<lparr>process_domain = None, process_connection = None, process_port = 1,
                              process_active = 0, process_relation = WIMP_Process_Child\<rparr>,
                         1 \<mapsto> \<lparr>process_domain = None, process_connection = None, process_port = 2,
                              process_active = 0, process_relation = WIMP_Process_Parent\<rparr>],
                calls = 2, fails = (\<lambda>_. False)\<rparr>"

definition two_hash :: "addr HashString" where
  "two_hash = \<lparr>hsize = 1, htable = [[\<lparr>hkey = ''b'', hvalue = 1\<rparr>, \<lparr>hkey = ''a'', hvalue = 0\<rparr>]]\<rparr>"

definition two_table :: WimpProcessTable where
  "two_table = \<lparr>hash_table = Some two_hash, table_length = 2\<rparr>"

lemma two_lookup: "hash_lookup two_hash k = (if k = ''b'' then Some 1 else if k = ''a'' then Some 0 else None)"
  by (simp add: hash_lookup_def slot_def two_hash_def)

lemma two_ok: "ptable_ok two_procs two_table" "hash_ok two_hash"
proof -
  show h: "hash_ok two_hash" by (simp add: two_hash_def hash_ok_def chain_ok_def slot_def)
  have "entry_count two_hash = 2" by (simp add: entry_count_def two_hash_def)
  then show "ptable_ok two_procs two_table"
    using h by (auto simp: ptable_ok_def two_table_def two_lookup two_procs_def heap_ok_def split: if_splits)
qed

theorem table_add_map_witness:
  "if ptable_map two_procs two_table ''c'' = None
    then \<exists>t' procs'. wimp_process_table_add True True True two_procs (Some two_table) ''c'' ''d'' 5
          WIMP_Process_Child None
        = Ok (WIMP_PROCESS_TABLE_SUCCESS, Some t', procs') \<and> ptable_ok procs' t'
      \<and> ptable_map procs' t' = (ptable_map two_procs two_table)(''c'' \<mapsto>
          \<lparr>process_domain = Some ''d'', process_connection = None, process_port = 5,
           process_active = WIMP_PROCESS_INACTIVE, process_relation = WIMP_Process_Child\<rparr>)
      \<and> wimp_process_table_length t' = wimp_process_table_length two_table + 1
    else wimp_process_table_add True True True two_procs (Some two_table) ''c'' ''d'' 5 WIMP_Process_Child None
        = Ok (WIMP_PROCESS_TABLE_FAIL, Some two_table, two_procs)"
  by (rule table_add_map [OF two_ok(1)]) (simp add: two_procs_def)

text \<open>Removing a process whose entry \<open>HashString_remove\<close> can reach frees its data, takes exactly its
  name out of the map and decrements the length.\<close>

lemma table_remove_map:
  assumes "ptable_ok procs t" and "ptable_map procs t name \<noteq> None" and "ptable_removable t name"
  shows "\<exists>t' procs'. wimp_process_table_remove procs (Some t) name
        = Ok (WIMP_PROCESS_TABLE_SUCCESS, Some t', procs')
    \<and> ptable_ok procs' t' \<and> ptable_map procs' t' = (ptable_map procs t)(name := None)
    \<and> wimp_process_table_length t' = wimp_process_table_length t - 1"
  using table_remove_old [OF assms] by (simp add: wimp_process_table_length_def)

lemma table_remove_map_witness:
  "\<exists>t' procs'. wimp_process_table_remove two_procs (Some two_table) ''b''
        = Ok (WIMP_PROCESS_TABLE_SUCCESS, Some t', procs')
    \<and> ptable_ok procs' t' \<and> ptable_map procs' t' = (ptable_map two_procs two_table)(''b'' := None)
    \<and> wimp_process_table_length t' = wimp_process_table_length two_table - 1"
proof (rule table_remove_map [OF two_ok(1)])
  show "ptable_map two_procs two_table ''b'' \<noteq> None"
    by (simp add: ptable_map_def two_table_def two_lookup two_procs_def)
  show "ptable_removable two_table ''b''"
    by (simp add: ptable_removable_def two_table_def two_hash_def removable_def slot_def)
qed

text \<open>C39: Removing a process whose entry is the second of its bucket's chain crashes, after its data have
  been freed, instead of removing it.\<close>

theorem table_remove_crash:
  assumes "ptable_ok procs t" and "hash_table t = Some h"
    and "htable h ! slot h name = e # e' # es" and "hkey e' = name"
  shows "wimp_process_table_remove procs (Some t) name = Fault NullDeref"
  using table_remove_second [OF assms] .

theorem table_remove_crash_witness:
  "wimp_process_table_remove two_procs (Some two_table) ''a'' = Fault NullDeref"
  by (rule table_remove_crash [OF two_ok(1), of two_hash _ "\<lparr>hkey = ''b'', hvalue = 1\<rparr>" "\<lparr>hkey = ''a'', hvalue = 0\<rparr>" "[]"])
    (simp_all add: two_table_def two_hash_def slot_def)

text \<open>Freeing the table terminates without fault and frees every entry of the hash table once, but of
  the process data only those on the first chain that is not empty; all other process data stay allocated
  with no pointer left to them.\<close>

lemma table_free_first_chain_only:
  assumes "ptable_ok procs t" and "hash_table t = Some h" and "entry_count h < 2 ^ 64"
  shows "\<exists>procs'. wimp_process_table_free procs t = Ok (procs', concat (htable h))
    \<and> cells procs' = (\<lambda>a. if a \<in> hvalue ` set (first_chain (htable h)) then None else cells procs a)"
  using table_free_eq [OF assms] .

lemma table_free_first_chain_only_witness:
  "\<exists>procs'. wimp_process_table_free two_procs two_table = Ok (procs', concat (htable two_hash))
    \<and> cells procs' = (\<lambda>a. if a \<in> hvalue ` set (first_chain (htable two_hash)) then None else cells two_procs a)"
  by (rule table_free_first_chain_only [OF two_ok(1)]) (simp_all add: two_table_def entry_count_def two_hash_def)

end
