(* ===== verification/Wimp_Reciever.thy ===== *)
theory Wimp_Reciever
  imports Wimp_Queue
begin

section \<open>The receiver thread (\<open>wimp_reciever.c\<close>)\<close>

text \<open>
  The receiver connects to a server, exchanges handshakes, and turns the bytes it receives into
  instructions on a queue. What the socket library returns is a parameter: the \<open>n\<close>th receive call
  yields \<open>recv n\<close>, \<open>None\<close> for an error (size -1) and \<open>Some bs\<close> for the bytes \<open>bs\<close> of one packet
  (empty when the connection is closed). The atomic flag \<open>active\<close> is read once per iteration of
  the main loop; \<open>active i\<close> is its value in iteration \<open>i\<close>. The loops take fuel, since a closed
  connection makes the receiver poll for ever.

  The first part holds the operations, the second the view of the received packets as one stream
  of bytes, the third what the loop makes of a stream of instructions and pings.
\<close>

subsection \<open>Constants and data\<close>

definition WIMP_RECIEVER_HANDSHAKE :: int where
  "WIMP_RECIEVER_HANDSHAKE = 0x706d6977"

definition WIMP_RECIEVER_PING :: int where
  "WIMP_RECIEVER_PING = 0x676e6970"

definition WIMP_MESSAGE_BUFFER_BYTES :: nat where
  "WIMP_MESSAGE_BUFFER_BYTES = 512"

definition WIMP_REC_TRY_INTERVAL :: nat where
  "WIMP_REC_TRY_INTERVAL = 500"

definition WIMP_REC_TRY_COUNT :: nat where
  "WIMP_REC_TRY_COUNT = 5"

definition WIMP_RECIEVER_SUCCESS :: int where
  "WIMP_RECIEVER_SUCCESS = 0"

definition WIMP_RECIEVER_FAIL :: int where
  "WIMP_RECIEVER_FAIL = - 1"

definition WIMP_ZERO_BUFFER :: bytes where
  "WIMP_ZERO_BUFFER = replicate WIMP_MESSAGE_BUFFER_BYTES NUL"

lemmas rec_consts = WIMP_RECIEVER_HANDSHAKE_def WIMP_RECIEVER_PING_def WIMP_MESSAGE_BUFFER_BYTES_def
  WIMP_REC_TRY_INTERVAL_def WIMP_REC_TRY_COUNT_def WIMP_RECIEVER_SUCCESS_def WIMP_RECIEVER_FAIL_def

datatype rec_state = REC_IDLE | REC_READING_HEADERS | REC_READING_DATA

record WimpHandshakeHeader =
  handshake_header :: int
  process_name_bytes :: int

record RecieverArgs =
  process_name :: bytes
  recfrom_domain :: bytes
  recfrom_port :: int

record WimpInstr =
  i_instruction :: "addr option"
  i_instruction_bytes :: nat

record WimpRecieverState =
  incoming_size :: int
  rec_offset :: nat
  state :: rec_state
  cur_instruction :: WimpInstr
  instruction_bytes_read :: nat

text \<open>The thread's state: its local variables, the number of packets received so far, and what it
  shares with the server, the heap and the incoming queue with the mutex calls made on it.\<close>

record receiver = WimpRecieverState +
  recbuffer :: bytes
  packets :: nat
  rmem :: mem
  incoming_queue :: WimpInstrQueue
  rlocks :: "mutex_call list"

subsection \<open>Handshake and arguments\<close>

definition wimp_get_instr_size :: "bytes \<Rightarrow> int outcome" where
  "wimp_get_instr_size buffer = read_int32 buffer 0"

definition int32_bytes :: "int \<Rightarrow> bytes" where
  "int32_bytes i = le_bytes 4 (nat (i mod 2 ^ 32))"

definition wimp_create_handshake :: "bytes \<Rightarrow> bytes \<Rightarrow> (WimpHandshakeHeader \<times> bytes) outcome" where
  "wimp_create_handshake name message_buffer =
     (let name_bytes = to_int32 (length name + 1);
          header = \<lparr>handshake_header = 0, process_name_bytes = 0\<rparr>;
          offset = 8
      in if to_size (int offset + name_bytes) < WIMP_MESSAGE_BUFFER_BYTES then
           bnd (guard_or OutOfBounds (0 \<le> name_bytes)) (\<lambda>_.
           bnd (write_at message_buffer offset (take (nat name_bytes) (name @ [NUL]))) (\<lambda>buf.
           let header = \<lparr>handshake_header = WIMP_RECIEVER_HANDSHAKE, process_name_bytes = name_bytes\<rparr> in
           bnd (write_at buf 0 (int32_bytes (handshake_header header) @ int32_bytes (process_name_bytes header)))
             (\<lambda>buf. Ok (header, buf))))
         else Ok (header, message_buffer))"

definition wimp_get_reciever_args :: "RecieverArgs heap \<Rightarrow> bytes \<Rightarrow> bytes \<Rightarrow> int \<Rightarrow> addr option \<times> RecieverArgs heap" where
  "wimp_get_reciever_args h name domain port =
     halloc h \<lparr>process_name = name, recfrom_domain = domain, recfrom_port = port\<rparr>"

definition wimp_free_reciever_args :: "RecieverArgs heap \<Rightarrow> addr \<Rightarrow> RecieverArgs heap outcome" where
  "wimp_free_reciever_args h args = bnd (hload h args) (\<lambda>_. hfree h (Some args))"

text \<open>Only the result of the thread library's \<open>p_uthread_create\<close> matters.\<close>

definition wimp_start_reciever_thread :: "bool \<Rightarrow> int" where
  "wimp_start_reciever_thread thread_ok = (if thread_ok then WIMP_RECIEVER_SUCCESS else WIMP_RECIEVER_FAIL)"

text \<open>
  Setting up the connection. \<open>addr_ok\<close> and \<open>sock_ok\<close> say whether the address and the socket could
  be made, \<open>connects i\<close> whether connection attempt \<open>i\<close> succeeds, \<open>reply\<close> is the answer to the
  handshake. The result comes with the calls made on the socket library.
\<close>

datatype sock_call = SConnect | SSleep nat | SSend bytes | SFreeAddress | SFreeSocket

fun connect_loop :: "(nat \<Rightarrow> bool) \<Rightarrow> nat \<Rightarrow> nat \<Rightarrow> bool \<times> sock_call list" where
  "connect_loop connects num_tries 0 = (False, [])"
| "connect_loop connects num_tries (Suc left) =
     (if connects num_tries then (True, [SConnect])
      else let (ok, trace) = connect_loop connects (Suc num_tries) left
           in (ok, SConnect # SSleep WIMP_REC_TRY_INTERVAL # trace))"

definition fill_packet :: "bytes \<Rightarrow> bytes" where
  "fill_packet bs = bs @ replicate (WIMP_MESSAGE_BUFFER_BYTES - length bs) NUL"

definition wimp_reciever_init ::
    "bool \<Rightarrow> bool \<Rightarrow> (nat \<Rightarrow> bool) \<Rightarrow> bytes option \<Rightarrow> RecieverArgs \<Rightarrow> (int \<times> sock_call list) outcome" where
  "wimp_reciever_init addr_ok sock_ok connects reply args =
     bnd (wimp_create_handshake (process_name args) WIMP_ZERO_BUFFER) (\<lambda>(header, sendbuffer).
     if \<not> addr_ok then Ok (WIMP_RECIEVER_FAIL, [])
     else if \<not> sock_ok then Ok (WIMP_RECIEVER_FAIL, [])
     else
       let (con_success, trace) = connect_loop connects 0 WIMP_REC_TRY_COUNT in
       if \<not> con_success then Ok (WIMP_RECIEVER_FAIL, trace @ [SFreeAddress, SFreeSocket])
       else
         let trace = trace @ [SSend (take (8 + nat (process_name_bytes header)) sendbuffer)] in
         (case reply of
            None \<Rightarrow> Ok (WIMP_RECIEVER_FAIL, trace @ [SFreeAddress, SFreeSocket])
          | Some bs \<Rightarrow>
              if bs = [] then Ok (WIMP_RECIEVER_FAIL, trace @ [SFreeAddress, SFreeSocket])
              else
                bnd (read_int32 (fill_packet bs) 0) (\<lambda>recheader.
                if recheader \<noteq> WIMP_RECIEVER_HANDSHAKE
                then Ok (WIMP_RECIEVER_FAIL, trace @ [SFreeAddress, SFreeSocket])
                else Ok (WIMP_RECIEVER_SUCCESS, trace))))"

subsection \<open>The receive loop\<close>

definition wimp_reciever_next_packet :: "(nat \<Rightarrow> bytes option) \<Rightarrow> receiver \<Rightarrow> receiver" where
  "wimp_reciever_next_packet recv r =
     (case recv (packets r) of
        None \<Rightarrow> r\<lparr>recbuffer := WIMP_ZERO_BUFFER, incoming_size := - 1, rec_offset := 0,
                  packets := Suc (packets r)\<rparr>
      | Some bs \<Rightarrow> r\<lparr>recbuffer := fill_packet bs, incoming_size := int (length bs), rec_offset := 0,
                     packets := Suc (packets r)\<rparr>)"

text \<open>\<open>malloc\<close> of a negative size asks for more than the address space and returns NULL.\<close>

definition wimp_reciever_allocateinstr :: "bytes heap \<Rightarrow> int \<Rightarrow> WimpInstr \<times> bytes heap" where
  "wimp_reciever_allocateinstr h sz =
     (let (i, h') = (if sz < 0 then (None, h) else halloc h (replicate (nat sz) NUL))
      in case i of
           None \<Rightarrow> (\<lparr>i_instruction = None, i_instruction_bytes = 0\<rparr>, h')
         | Some a \<Rightarrow> (\<lparr>i_instruction = Some a, i_instruction_bytes = to_size sz\<rparr>, h'))"

text \<open>\<open>memcpy\<close> into the buffer behind an instruction pointer.\<close>

definition buf_write :: "mem \<Rightarrow> addr option \<Rightarrow> nat \<Rightarrow> bytes \<Rightarrow> mem outcome" where
  "buf_write m p off src =
     bnd (deref p) (\<lambda>a.
     bnd (hload (bufs m) a) (\<lambda>b.
     bnd (write_at b off src) (\<lambda>b'.
     bnd (hstore (bufs m) a b') (\<lambda>bs. Ok (m\<lparr>bufs := bs\<rparr>)))))"

text \<open>One round of the header loop. The comparison of the \<open>size_t\<close> offset with the signed size is
  unsigned, hence \<open>to_size\<close>: after an error every offset is below the size.\<close>

definition read_header_byte :: "(nat \<Rightarrow> bytes option) \<Rightarrow> receiver \<Rightarrow> (char \<times> receiver) outcome" where
  "read_header_byte recv r =
     (let r = (if to_size (incoming_size r) \<le> rec_offset r then wimp_reciever_next_packet recv r else r)
      in bnd (byte_at (recbuffer r) (rec_offset r)) (\<lambda>c.
         Ok (c, r\<lparr>rec_offset := rec_offset r + 1\<rparr>)))"

fun read_header :: "(nat \<Rightarrow> bytes option) \<Rightarrow> nat \<Rightarrow> receiver \<Rightarrow> (bytes \<times> receiver) outcome" where
  "read_header recv 0 r = Ok ([], r)"
| "read_header recv (Suc k) r =
     bnd (read_header_byte recv r) (\<lambda>(c, r).
     bnd (read_header recv k r) (\<lambda>(cs, r). Ok (c # cs, r)))"

definition reading_headers :: "(nat \<Rightarrow> bytes option) \<Rightarrow> receiver \<Rightarrow> receiver outcome" where
  "reading_headers recv r =
     bnd (read_header recv 4 r) (\<lambda>(header_bytes, r).
     let header = to_int32 (le_val header_bytes) in
     bnd (guard_or AssertFailed (header \<noteq> - 1)) (\<lambda>_.
     if header = 0 then Ok (r\<lparr>state := REC_IDLE\<rparr>)
     else if header \<noteq> WIMP_RECIEVER_PING then
       let (instr, bs) = wimp_reciever_allocateinstr (bufs (rmem r)) header;
           m = (rmem r)\<lparr>bufs := bs\<rparr>
       in bnd (buf_write m (i_instruction instr) 0 (int32_bytes header)) (\<lambda>m.
          Ok (r\<lparr>cur_instruction := instr, state := REC_READING_DATA, rmem := m,
                instruction_bytes_read := 4\<rparr>))
     else Ok r))"

text \<open>The loop that copies the packets into the instruction, all sizes in \<open>size_t\<close> arithmetic.\<close>

fun data_loop :: "nat \<Rightarrow> (nat \<Rightarrow> bytes option) \<Rightarrow> receiver \<Rightarrow> receiver outcome" where
  "data_loop 0 recv r = Fault OutOfFuel"
| "data_loop (Suc fuel) recv r =
     (let total = i_instruction_bytes (cur_instruction r) in
      if instruction_bytes_read r \<noteq> total then
        let bytes_to_copy = to_size (int total - int (instruction_bytes_read r));
            bytes_to_copy =
              (if to_size (int (rec_offset r) + int bytes_to_copy) > to_size (incoming_size r)
               then to_size (incoming_size r - int (rec_offset r)) else bytes_to_copy)
        in bnd (guard_or OutOfBounds (rec_offset r + bytes_to_copy \<le> length (recbuffer r))) (\<lambda>_.
           bnd (buf_write (rmem r) (i_instruction (cur_instruction r)) (instruction_bytes_read r)
                  (take bytes_to_copy (drop (rec_offset r) (recbuffer r)))) (\<lambda>m.
           let r = r\<lparr>rmem := m, rec_offset := rec_offset r + bytes_to_copy,
                     instruction_bytes_read := instruction_bytes_read r + bytes_to_copy\<rparr>;
               r = (if instruction_bytes_read r \<noteq> total then wimp_reciever_next_packet recv r else r)
           in data_loop fuel recv r))
      else Ok r)"

declare data_loop.simps [simp del]

text \<open>The check for the exit signal: \<open>&&\<close> compares the destination only for an exit.\<close>

definition is_exit_for :: "bytes \<Rightarrow> bytes option \<Rightarrow> nat \<Rightarrow> bool outcome" where
  "is_exit_for name buffer buffsize =
     bnd (wimp_instr_get_from_buffer buffer buffsize) (\<lambda>meta.
     bnd (meta_string buffer (m_instr meta)) (\<lambda>instr.
     bnd (strings_equal instr (Some ''exit'')) (\<lambda>is_exit.
     if is_exit then
       bnd (meta_string buffer (dest_process meta)) (\<lambda>dest. strings_equal dest (Some name))
     else Ok False)))"

definition no_instruction :: WimpInstr where
  "no_instruction = \<lparr>i_instruction = None, i_instruction_bytes = 0\<rparr>"

definition reading_data ::
    "nat \<Rightarrow> (nat \<Rightarrow> bytes option) \<Rightarrow> bytes \<Rightarrow> receiver \<Rightarrow> (bool \<times> receiver) outcome" where
  "reading_data fuel recv name r =
     bnd (data_loop fuel recv r) (\<lambda>r.
     let instr = cur_instruction r; n = i_instruction_bytes instr in
     bnd (node_buffer (rmem r) \<lparr>instruction = i_instruction instr, instruction_bytes = n, nextnode = None\<rparr>) (\<lambda>buffer.
     bnd (is_exit_for name buffer n) (\<lambda>disconnect.
     let q = incoming_queue r in
     bnd (wimp_instr_queue_add (rmem r) q (i_instruction instr) n) (\<lambda>(_, q', m).
     Ok (disconnect,
         r\<lparr>rmem := m, incoming_queue := q',
           rlocks := rlocks r @ wimp_instr_queue_low_prio_lock q @ wimp_instr_queue_low_prio_unlock q',
           cur_instruction := no_instruction, instruction_bytes_read := 0,
           state := REC_READING_HEADERS\<rparr>)))))"

text \<open>One iteration after the check of the flag: the three \<open>if\<close>s, each reading the state that
  the one before left.\<close>

definition receive_step ::
    "nat \<Rightarrow> (nat \<Rightarrow> bytes option) \<Rightarrow> bytes \<Rightarrow> receiver \<Rightarrow> (bool \<times> receiver) outcome" where
  "receive_step fuel recv name r =
     (let r = (if state r = REC_IDLE then
                 let r = wimp_reciever_next_packet recv r in
                 if incoming_size r > 0 then r\<lparr>state := REC_READING_HEADERS\<rparr> else r
               else r)
      in bnd (if state r = REC_READING_HEADERS then reading_headers recv r else Ok r) (\<lambda>r.
         if state r = REC_READING_DATA then reading_data fuel recv name r else Ok (False, r)))"

fun receive_loop ::
    "nat \<Rightarrow> (nat \<Rightarrow> bytes option) \<Rightarrow> (nat \<Rightarrow> bool) \<Rightarrow> nat \<Rightarrow> bytes \<Rightarrow> receiver \<Rightarrow> receiver outcome" where
  "receive_loop 0 recv active i name r = Fault OutOfFuel"
| "receive_loop (Suc fuel) recv active i name r =
     (if \<not> active i then
        bnd (hfree (bufs (rmem r)) (i_instruction (cur_instruction r))) (\<lambda>bs.
        Ok (r\<lparr>rmem := (rmem r)\<lparr>bufs := bs\<rparr>\<rparr>))
      else
        bnd (receive_step (Suc fuel) recv name r) (\<lambda>(disconnect, r).
        if disconnect then Ok r else receive_loop fuel recv active (Suc i) name r))"

definition start_receiver :: "mem \<Rightarrow> WimpInstrQueue \<Rightarrow> receiver" where
  "start_receiver m q =
     \<lparr>incoming_size = 0, rec_offset = 0, state = REC_IDLE, cur_instruction = no_instruction,
      instruction_bytes_read = 0, recbuffer = WIMP_ZERO_BUFFER, packets = 0, rmem = m,
      incoming_queue = q, rlocks = []\<rparr>"

text \<open>The whole thread: the result of the initialisation and, when it succeeds, the final state.
  The first packet of \<open>recv\<close> is the one after the handshake's reply.\<close>

definition wimp_reciever_recieve ::
    "nat \<Rightarrow> bool \<Rightarrow> bool \<Rightarrow> (nat \<Rightarrow> bool) \<Rightarrow> bytes option \<Rightarrow> (nat \<Rightarrow> bytes option) \<Rightarrow> (nat \<Rightarrow> bool) \<Rightarrow>
     RecieverArgs heap \<Rightarrow> addr \<Rightarrow> mem \<Rightarrow> WimpInstrQueue \<Rightarrow>
     (int \<times> sock_call list \<times> receiver \<times> RecieverArgs heap) outcome" where
  "wimp_reciever_recieve fuel addr_ok sock_ok connects reply recv active h a m q =
     bnd (hload h a) (\<lambda>args.
     bnd (wimp_reciever_init addr_ok sock_ok connects reply args) (\<lambda>(res, trace).
     if res = WIMP_RECIEVER_FAIL then
       bnd (wimp_free_reciever_args h a) (\<lambda>h. Ok (WIMP_RECIEVER_FAIL, trace, start_receiver m q, h))
     else
       bnd (receive_loop fuel recv active 0 (process_name args) (start_receiver m q)) (\<lambda>r.
       bnd (wimp_free_reciever_args h a) (\<lambda>h.
       Ok (WIMP_RECIEVER_SUCCESS, trace @ [SFreeAddress, SFreeSocket], r, h)))))"

section \<open>The received bytes as one stream\<close>

text \<open>The bytes of the current packet that are still to be read.\<close>

definition pending :: "receiver \<Rightarrow> bytes" where
  "pending r = drop (rec_offset r) (take (nat (incoming_size r)) (recbuffer r))"

definition is_packet :: "bytes \<Rightarrow> bool" where
  "is_packet p \<longleftrightarrow> p \<noteq> [] \<and> length p \<le> WIMP_MESSAGE_BUFFER_BYTES"

text \<open>What is pending and the packets \<open>ps\<close> to come make up the stream \<open>s\<close>.\<close>

definition at_stream :: "(nat \<Rightarrow> bytes option) \<Rightarrow> receiver \<Rightarrow> bytes \<Rightarrow> bytes list \<Rightarrow> bool" where
  "at_stream recv r s ps \<longleftrightarrow>
     0 \<le> incoming_size r \<and> incoming_size r \<le> 512 \<and> length (recbuffer r) = 512
     \<and> int (rec_offset r) \<le> incoming_size r \<and> s = pending r @ concat ps
     \<and> (\<forall>i < length ps. recv (packets r + i) = Some (ps ! i)) \<and> (\<forall>p \<in> set ps. is_packet p)"

definition same_else :: "receiver \<Rightarrow> receiver \<Rightarrow> bool" where
  "same_else r r' \<longleftrightarrow> state r' = state r \<and> cur_instruction r' = cur_instruction r
     \<and> instruction_bytes_read r' = instruction_bytes_read r \<and> rmem r' = rmem r
     \<and> incoming_queue r' = incoming_queue r \<and> rlocks r' = rlocks r"

lemma same_else_trans: "same_else r r' \<Longrightarrow> same_else r' r'' \<Longrightarrow> same_else r r''"
  by (simp add: same_else_def)

lemma length_pending: "at_stream recv r s ps \<Longrightarrow> length (pending r) = nat (incoming_size r) - rec_offset r"
  by (auto simp: at_stream_def pending_def min_def)

lemma pending_Cons:
  assumes "pending r = c # cs"
  shows "rec_offset r < nat (incoming_size r)" "rec_offset r < length (recbuffer r)"
    "recbuffer r ! rec_offset r = c"
    "drop (Suc (rec_offset r)) (take (nat (incoming_size r)) (recbuffer r)) = cs"
proof -
  have l: "rec_offset r < length (take (nat (incoming_size r)) (recbuffer r))"
    using assms by (metis drop_eq_Nil leI list.distinct(1) pending_def)
  then show "rec_offset r < nat (incoming_size r)" "rec_offset r < length (recbuffer r)" by simp_all
  show "recbuffer r ! rec_offset r = c" "drop (Suc (rec_offset r)) (take (nat (incoming_size r)) (recbuffer r)) = cs"
    using assms Cons_nth_drop_Suc [OF l] l by (simp_all add: pending_def)
qed

lemma next_packet_stream:
  assumes s: "at_stream recv r s (p # ps)" and "pending r = []"
  shows "at_stream recv (wimp_reciever_next_packet recv r) s ps"
    and "same_else r (wimp_reciever_next_packet recv r)"
    and "pending (wimp_reciever_next_packet recv r) = p"
    and "incoming_size (wimp_reciever_next_packet recv r) > 0"
proof -
  have r: "recv (packets r) = Some p" and p: "p \<noteq> []" "length p \<le> 512"
    using s by (auto simp: at_stream_def is_packet_def rec_consts)
  show pend: "pending (wimp_reciever_next_packet recv r) = p"
    using r p by (simp add: wimp_reciever_next_packet_def pending_def fill_packet_def)
  have rest: "recv (Suc (packets r) + i) = Some (ps ! i)" if "i < length ps" for i
    using s that by (auto simp: at_stream_def dest: spec [of _ "Suc i"])
  show "at_stream recv (wimp_reciever_next_packet recv r) s ps"
    using s assms(2) p rest pend unfolding at_stream_def
    by (simp add: wimp_reciever_next_packet_def r fill_packet_def rec_consts)
  show "same_else r (wimp_reciever_next_packet recv r)" "incoming_size (wimp_reciever_next_packet recv r) > 0"
    using r p by (simp_all add: wimp_reciever_next_packet_def same_else_def)
qed

lemma to_size_incoming: "at_stream recv r s ps \<Longrightarrow> to_size (incoming_size r) = nat (incoming_size r)"
  by (simp add: at_stream_def)

text \<open>Reading one byte of the header takes the first byte of the stream, whatever packet it is in.\<close>

lemma read_header_byte_pending:
  assumes s: "at_stream recv r (c # s) ps" and pend: "pending r = c # cs"
  shows "\<exists>r'. read_header_byte recv r = Ok (c, r') \<and> at_stream recv r' s ps \<and> same_else r r'"
proof -
  note p = pending_Cons [OF pend]
  have "read_header_byte recv r = Ok (c, r\<lparr>rec_offset := rec_offset r + 1\<rparr>)"
    using p by (simp add: read_header_byte_def to_size_incoming [OF s] byte_at_def)
  moreover have "at_stream recv (r\<lparr>rec_offset := rec_offset r + 1\<rparr>) s ps"
    using s p pend by (auto simp: at_stream_def pending_def)
  ultimately show ?thesis by (auto simp: same_else_def)
qed

lemma read_header_byte_stream:
  assumes s: "at_stream recv r (c # s) ps"
  shows "\<exists>r' ps'. read_header_byte recv r = Ok (c, r') \<and> at_stream recv r' s ps' \<and> same_else r r'
    \<and> length ps' \<le> length ps"
proof (cases "pending r")
  case (Cons x xs)
  then have "x = c" using s by (simp add: at_stream_def)
  then show ?thesis using read_header_byte_pending [OF s] Cons by blast
next
  case Nil
  then obtain p ps' where ps: "ps = p # ps'" using s by (cases ps) (auto simp: at_stream_def)
  let ?r = "wimp_reciever_next_packet recv r"
  note n = next_packet_stream [OF s [unfolded ps] Nil]
  obtain x xs where x: "p = x # xs" using s by (cases p) (auto simp: ps at_stream_def is_packet_def)
  then have "x = c" using s Nil by (simp add: at_stream_def ps)
  then obtain r' where r': "read_header_byte recv ?r = Ok (c, r')" "at_stream recv r' s ps'" "same_else ?r r'"
    using read_header_byte_pending [OF n(1), of xs] n(3) x by blast
  have "\<not> nat (incoming_size ?r) \<le> rec_offset ?r" using length_pending [OF n(1)] n(3) x by auto
  moreover have "nat (incoming_size r) \<le> rec_offset r" using Nil length_pending [OF s] by simp
  ultimately have "read_header_byte recv r = read_header_byte recv ?r"
    by (simp add: read_header_byte_def to_size_incoming [OF s] to_size_incoming [OF n(1)])
  then show ?thesis using r' same_else_trans [OF n(2) r'(3)] ps by auto
qed

lemma read_header_stream:
  "at_stream recv r (h @ s) ps \<Longrightarrow>
   \<exists>r' ps'. read_header recv (length h) r = Ok (h, r') \<and> at_stream recv r' s ps' \<and> same_else r r'
     \<and> length ps' \<le> length ps"
proof (induction h arbitrary: r ps)
  case Nil
  then show ?case by (auto simp: same_else_def)
next
  case (Cons c h)
  obtain r1 ps1 where r1: "read_header_byte recv r = Ok (c, r1)" "at_stream recv r1 (h @ s) ps1"
    "same_else r r1" "length ps1 \<le> length ps"
    using read_header_byte_stream [of recv r c "h @ s" ps] Cons.prems by auto
  obtain r2 ps2 where "read_header recv (length h) r1 = Ok (h, r2)" "at_stream recv r2 s ps2"
    "same_else r1 r2" "length ps2 \<le> length ps1" using Cons.IH [OF r1(2)] by blast
  then show ?case using r1 same_else_trans [OF r1(3)] by (auto intro!: exI [of _ ps2])
qed

text \<open>The copying loop fills the instruction with the next bytes of the stream.\<close>

lemma buf_write_Ok:
  "cells (bufs m) a = Some b \<Longrightarrow> off + length src \<le> length b \<Longrightarrow>
   buf_write m (Some a) off src = Ok (m\<lparr>bufs := (bufs m)\<lparr>cells := (cells (bufs m))
     (a \<mapsto> take off b @ src @ drop (off + length src) b)\<rparr>\<rparr>)"
  by (simp add: buf_write_def write_at_def)

lemma to_size_diff: "b \<le> a \<Longrightarrow> a < 2 ^ 63 \<Longrightarrow> to_size (int a - int b) = a - b"
  by (simp add: to_size_def of_nat_diff nat_int del: of_nat_diff flip: of_nat_diff)

definition set_buf :: "mem \<Rightarrow> addr \<Rightarrow> bytes \<Rightarrow> mem" where
  "set_buf m a b = m\<lparr>bufs := (bufs m)\<lparr>cells := (cells (bufs m))(a \<mapsto> b)\<rparr>\<rparr>"

lemma set_buf_simps [simp]:
  "cells (bufs (set_buf m a b)) = (cells (bufs m))(a \<mapsto> b)" "nodes (set_buf m a b) = nodes m"
  "calls (bufs (set_buf m a b)) = calls (bufs m)" "fails (bufs (set_buf m a b)) = fails (bufs m)"
  "set_buf (set_buf m a b) a b' = set_buf m a b'"
  by (simp_all add: set_buf_def)

text \<open>The state after copying \<open>k\<close> pending bytes.\<close>

definition copied :: "receiver \<Rightarrow> addr \<Rightarrow> bytes \<Rightarrow> nat \<Rightarrow> receiver" where
  "copied r a b k = r\<lparr>rmem := set_buf (rmem r) a (take (instruction_bytes_read r) b @ take k (pending r)
       @ drop (instruction_bytes_read r + k) b),
     rec_offset := rec_offset r + k, instruction_bytes_read := instruction_bytes_read r + k\<rparr>"

lemma data_loop_step:
  assumes s: "at_stream recv r s ps" and b: "cells (bufs (rmem r)) a = Some b"
    and i: "cur_instruction r = \<lparr>i_instruction = Some a, i_instruction_bytes = length b\<rparr>"
    and l: "instruction_bytes_read r < length b" "length b < 2 ^ 31"
    and k: "k = min (length b - instruction_bytes_read r) (length (pending r))"
  shows "data_loop (Suc fuel) recv r =
    data_loop fuel recv (if instruction_bytes_read r + k \<noteq> length b
      then wimp_reciever_next_packet recv (copied r a b k) else copied r a b k)"
proof -
  let ?n = "length b - instruction_bytes_read r"
  have lp: "length (pending r) = nat (incoming_size r) - rec_offset r" by (rule length_pending [OF s])
  have bounds: "rec_offset r \<le> nat (incoming_size r)" "nat (incoming_size r) \<le> 512" "0 \<le> incoming_size r"
    "length (recbuffer r) = 512"
    using s by (auto simp: at_stream_def)
  have 1: "to_size (int (length b) - int (instruction_bytes_read r)) = ?n"
    using l by (intro to_size_diff) auto
  have 2: "to_size (int (rec_offset r) + int ?n) = rec_offset r + ?n"
    using l bounds by (subst to_size_nonneg) auto
  have 3: "to_size (incoming_size r) = nat (incoming_size r)" by (rule to_size_incoming [OF s])
  have 4: "to_size (incoming_size r - int (rec_offset r)) = length (pending r)"
    using to_size_diff [of "rec_offset r" "nat (incoming_size r)"] bounds lp by simp
  have n: "(if rec_offset r + ?n > nat (incoming_size r) then length (pending r) else ?n) = k"
    unfolding k lp by (rule if_weak_cong [THEN trans, OF refl]) (use bounds l in \<open>auto simp: min_def\<close>)
  have kb: "k \<le> nat (incoming_size r) - rec_offset r" using k lp by simp
  have t: "take k (drop (rec_offset r) (recbuffer r)) = take k (pending r)"
    using kb bounds by (simp add: pending_def drop_take min_def)
  have lt: "length (take k (pending r)) = k" using k by simp
  have w: "buf_write (rmem r) (Some a) (instruction_bytes_read r) (take k (pending r)) =
    Ok (set_buf (rmem r) a (take (instruction_bytes_read r) b @ take k (pending r)
       @ drop (instruction_bytes_read r + k) b))"
    using k l buf_write_Ok [OF b, of "instruction_bytes_read r" "take k (pending r)"] lt
    by (simp add: set_buf_def)
  have g: "rec_offset r + k \<le> 512" using kb bounds by linarith
  show ?thesis
    using l unfolding data_loop.simps Let_def i WimpInstr.simps 1 2 3 4 n t
    by (simp add: w g bounds copied_def)
qed

lemma copied_stream:
  assumes "at_stream recv r (d @ s) ps" and "length d = k" and "k \<le> length (pending r)"
  shows "at_stream recv (copied r a b k) s ps" and "take k (pending r) = d"
    "pending (copied r a b k) = drop k (pending r)"
proof -
  show d: "take k (pending r) = d"
    using assms by (auto simp: at_stream_def append_eq_append_conv_if)
  show p: "pending (copied r a b k) = drop k (pending r)"
    by (simp add: pending_def copied_def add.commute)
  have "s = drop k (pending r) @ concat ps"
    using assms d by (auto simp: at_stream_def append_eq_append_conv_if)
  then show "at_stream recv (copied r a b k) s ps"
    using assms length_pending [OF assms(1)] p unfolding at_stream_def
    by (simp add: copied_def nat_le_iff le_nat_iff of_nat_diff) linarith
qed

lemma set_buf_same: "cells (bufs m) a = Some b \<Longrightarrow> set_buf m a b = m"
  by (simp add: set_buf_def fun_upd_idem)

lemma data_loop_done:
  "instruction_bytes_read r = i_instruction_bytes (cur_instruction r) \<Longrightarrow> data_loop (Suc fuel) recv r = Ok r"
  by (simp add: data_loop.simps)

definition data_loop_post :: "receiver \<Rightarrow> addr \<Rightarrow> bytes \<Rightarrow> receiver \<Rightarrow> bool" where
  "data_loop_post r a c r' \<longleftrightarrow>
     rmem r' = set_buf (rmem r) a c
     \<and> cur_instruction r' = cur_instruction r \<and> incoming_queue r' = incoming_queue r
     \<and> rlocks r' = rlocks r \<and> state r' = state r"

lemma data_loop_last:
  assumes s: "at_stream recv r (d @ s) ps" and b: "cells (bufs (rmem r)) a = Some b"
    and i: "cur_instruction r = \<lparr>i_instruction = Some a, i_instruction_bytes = length b\<rparr>"
    and l: "instruction_bytes_read r + length d = length b" "length b < 2 ^ 31"
    and p: "length d \<le> length (pending r)"
  shows "\<exists>r'. data_loop (Suc (Suc fuel)) recv r = Ok r' \<and> at_stream recv r' s ps
    \<and> data_loop_post r a (take (instruction_bytes_read r) b @ d) r'"
proof (cases "d = []")
  case True
  then have "data_loop (Suc (Suc fuel)) recv r = Ok r" using i l by (intro data_loop_done) simp
  then show ?thesis using s l True set_buf_same [OF b] by (auto simp: data_loop_post_def)
next
  case False
  let ?r = "copied r a b (length d)"
  have "length d = min (length b - instruction_bytes_read r) (length (pending r))"
    using l p by simp
  moreover have "instruction_bytes_read r < length b" using l(1) False by (cases d) auto
  ultimately have "data_loop (Suc (Suc fuel)) recv r = data_loop (Suc fuel) recv ?r"
    using l data_loop_step [OF s b i, of "length d" "Suc fuel"] by auto
  also have "\<dots> = Ok ?r" using l i by (intro data_loop_done) (simp add: copied_def)
  finally show ?thesis
    using copied_stream [OF s refl p] l by (simp add: data_loop_post_def) (simp add: copied_def)
qed

lemma data_loop_stream:
  assumes "at_stream recv r (d @ s) ps" and "cells (bufs (rmem r)) a = Some b"
    and "cur_instruction r = \<lparr>i_instruction = Some a, i_instruction_bytes = length b\<rparr>"
    and "instruction_bytes_read r + length d = length b" "length b < 2 ^ 31"
    and "Suc (length ps) < fuel"
  shows "\<exists>r' ps'. data_loop fuel recv r = Ok r' \<and> at_stream recv r' s ps' \<and> length ps' \<le> length ps
    \<and> data_loop_post r a (take (instruction_bytes_read r) b @ d) r'"
  using assms
proof (induction ps arbitrary: r d b fuel)
  case Nil
  then obtain f where "fuel = Suc (Suc f)" by (metis Suc_less_eq2 not0_implies_Suc not_less0)
  moreover have "length d \<le> length (pending r)"
    using Nil.prems(1) by (simp add: at_stream_def) (metis length_append le_add1)
  ultimately show ?case using data_loop_last [OF Nil.prems(1-5)] by blast
next
  case (Cons p ps)
  then obtain f where f: "fuel = Suc (Suc f)" "Suc (length ps) < Suc f"
    by (metis Suc_less_eq2 length_Cons)
  show ?case
  proof (cases "length d \<le> length (pending r)")
    case True
    then show ?thesis using data_loop_last [OF Cons.prems(1-5) True, of f] f(1) by (metis order_refl)
  next
    case False
    let ?k = "length (pending r)"
    let ?c = "copied r a b ?k" and ?b = "take (instruction_bytes_read r) b @ pending r @ drop (instruction_bytes_read r + ?k) b"
    let ?n = "wimp_reciever_next_packet recv ?c"
    have step: "data_loop fuel recv r = data_loop (Suc f) recv ?n"
      using data_loop_step [OF Cons.prems(1-3) _ Cons.prems(5), of ?k "Suc f"] Cons.prems(4) False f(1) by auto
    have st: "at_stream recv r (take ?k d @ (drop ?k d @ s)) (p # ps)"
      using Cons.prems(1) by (simp only: append_take_drop_id append.assoc [symmetric])
    note c = copied_stream [OF st, of ?k]
    have cp: "at_stream recv ?c (drop ?k d @ s) (p # ps)" "pending ?c = []" "pending r = take ?k d"
      using c False by simp_all
    note n = next_packet_stream [OF cp(1,2)]
    have same: "rmem ?n = rmem ?c" "cur_instruction ?n = cur_instruction ?c"
      "instruction_bytes_read ?n = instruction_bytes_read ?c" "incoming_queue ?n = incoming_queue ?c"
      "rlocks ?n = rlocks ?c" "state ?n = state ?c"
      using n(2) by (simp_all add: same_else_def)
    have lb: "length ?b = length b" "instruction_bytes_read r + ?k \<le> length b" using Cons.prems(4) False by auto
    have "cells (bufs (rmem ?n)) a = Some ?b" unfolding same by (simp add: copied_def)
    moreover have "cur_instruction ?n = \<lparr>i_instruction = Some a, i_instruction_bytes = length ?b\<rparr>"
      unfolding same lb using Cons.prems(3) by (simp add: copied_def)
    moreover have "instruction_bytes_read ?n + length (drop ?k d) = length ?b"
      unfolding same lb using Cons.prems(4) False by (simp add: copied_def)
    moreover have "length ?b < 2 ^ 31" using lb Cons.prems(5) by simp
    ultimately obtain r' ps' where r': "data_loop (Suc f) recv ?n = Ok r'" "at_stream recv r' s ps'"
      "length ps' \<le> length ps"
      "data_loop_post ?n a (take (instruction_bytes_read ?n) ?b @ drop ?k d) r'"
      using Cons.IH [OF n(1) _ _ _ _ f(2)] by blast
    have "take (instruction_bytes_read ?n) ?b = take (instruction_bytes_read r) b @ pending r"
      unfolding same using lb by (simp add: copied_def)
    then have "take (instruction_bytes_read ?n) ?b @ drop ?k d = take (instruction_bytes_read r) b @ d"
      using cp(3) by (metis append.assoc append_take_drop_id)
    then have "data_loop_post r a (take (instruction_bytes_read r) b @ d) r'"
      using r'(4) unfolding data_loop_post_def same by (simp add: copied_def)
    then show ?thesis using step r' by auto
  qed
qed

section \<open>Streams of instructions and pings\<close>

datatype wire_item = Ping | Instr bytes bytes bytes bytes

fun item_wire :: "wire_item \<Rightarrow> bytes" where
  "item_wire Ping = int32_bytes WIMP_RECIEVER_PING"
| "item_wire (Instr source dest name a) = instr_wire source dest name a"

text \<open>What the parser can tell apart: no empty name, a size that fits an \<open>int32_t\<close>, is not the ping
  number, and whose low byte is not zero.\<close>

fun wf_item :: "wire_item \<Rightarrow> bool" where
  "wf_item Ping = True"
| "wf_item (Instr source dest name a) \<longleftrightarrow>
     cstring source \<and> cstring dest \<and> cstring name \<and> source \<noteq> [] \<and> dest \<noteq> [] \<and> name \<noteq> []
     \<and> instr_size source dest name a < 2 ^ 31 \<and> instr_size source dest name a mod 256 \<noteq> 0
     \<and> int (instr_size source dest name a) \<noteq> WIMP_RECIEVER_PING"

fun is_exit_item :: "bytes \<Rightarrow> wire_item \<Rightarrow> bool" where
  "is_exit_item me Ping = False"
| "is_exit_item me (Instr source dest name a) \<longleftrightarrow> name = ''exit'' \<and> dest = me"

definition holds :: "mem \<Rightarrow> addr \<Rightarrow> bytes \<Rightarrow> bool" where
  "holds m a b \<longleftrightarrow> node_bytes m a = Some b \<and> map_option snd (payload m a) = Some (length b)"

definition rec_inv :: "receiver \<Rightarrow> addr list \<Rightarrow> bool" where
  "rec_inv r as \<longleftrightarrow> queue_rel (rmem r) (incoming_queue r) as
     \<and> heap_ok (nodes (rmem r)) \<and> no_fail (nodes (rmem r)) \<and> heap_ok (bufs (rmem r)) \<and> no_fail (bufs (rmem r))
     \<and> cur_instruction r = no_instruction"

lemma is_exit_for_wire:
  assumes "wf_item (Instr source dest name a)"
  shows "is_exit_for me (Some (instr_wire source dest name a)) (instr_size source dest name a)
    = Ok (name = ''exit'' \<and> dest = me)"
proof -
  have p: "wimp_instr_get_from_buffer (Some (instr_wire source dest name a)) (instr_size source dest name a)
      = Ok (wire_meta source dest name a)"
    using assms by (intro parse_wire) simp_all
  have c: "cstring dest" "cstring source" "cstring name" using assms by simp_all
  show ?thesis
    unfolding is_exit_for_def p bnd.simps wire_meta_strings [OF c] strings_equal_def prod.case option.case
    by simp
qed

lemma length_int32_bytes [simp]: "length (int32_bytes i) = 4"
  by (simp add: int32_bytes_def)

lemma int32_bytes_nat: "n < 2 ^ 31 \<Longrightarrow> int32_bytes (int n) = le_bytes 4 n"
  by (simp add: int32_bytes_def nat_mod_distrib)

lemma instr_wire_split:
  "instr_wire source dest name a = le_bytes 4 (instr_size source dest name a) @ drop 4 (instr_wire source dest name a)"
  by (simp add: instr_wire_def)

lemma header_ping: "to_int32 (le_val (item_wire Ping)) = WIMP_RECIEVER_PING"
  by (simp add: int32_bytes_def rec_consts le_val_le_bytes to_int32_small)

lemma reading_headers_ping:
  assumes "at_stream recv r (item_wire Ping @ s) ps"
  shows "\<exists>r' ps'. reading_headers recv r = Ok r' \<and> at_stream recv r' s ps' \<and> same_else r r'
    \<and> length ps' \<le> length ps"
proof -
  have l: "length (item_wire Ping) = 4" by (simp add: int32_bytes_def)
  obtain r' ps' where r: "read_header recv 4 r = Ok (item_wire Ping, r')" "at_stream recv r' s ps'"
    "same_else r r'" "length ps' \<le> length ps"
    using read_header_stream [OF assms] l by auto
  have h: "WIMP_RECIEVER_PING \<noteq> - 1" "WIMP_RECIEVER_PING \<noteq> 0" by (simp_all add: rec_consts)
  have "reading_headers recv r = Ok r'"
    unfolding reading_headers_def r(1) bnd.simps prod.case Let_def header_ping using h by simp
  then show ?thesis using r by blast
qed

text \<open>The state after the header of an instruction: a buffer of its size that begins with the header.\<close>

lemma reading_headers_instr:
  assumes "at_stream recv r (item_wire (Instr source dest name a) @ s) ps"
    and wf: "wf_item (Instr source dest name a)" and inv: "rec_inv r as"
  shows "\<exists>r' ps' b. reading_headers recv r = Ok r'
    \<and> at_stream recv r' (drop 4 (instr_wire source dest name a) @ s) ps' \<and> length ps' \<le> length ps
    \<and> state r' = REC_READING_DATA \<and> instruction_bytes_read r' = 4
    \<and> rlocks r' = rlocks r \<and> incoming_queue r' = incoming_queue r
    \<and> cur_instruction r' = \<lparr>i_instruction = Some (calls (bufs (rmem r))), i_instruction_bytes = length b\<rparr>
    \<and> length b = instr_size source dest name a \<and> take 4 b = le_bytes 4 (instr_size source dest name a)
    \<and> rmem r' = (rmem r)\<lparr>bufs := (bufs (rmem r))\<lparr>cells := (cells (bufs (rmem r)))(calls (bufs (rmem r)) \<mapsto> b),
          calls := Suc (calls (bufs (rmem r)))\<rparr>\<rparr>"
proof -
  let ?n = "instr_size source dest name a" and ?h = "bufs (rmem r)"
  let ?w = "le_bytes 4 ?n" and ?b = "le_bytes 4 ?n @ replicate (?n - 4) NUL"
  have n: "?n < 2 ^ 31" "11 \<le> ?n" "int ?n \<noteq> WIMP_RECIEVER_PING" using wf by (simp_all add: instr_size_def)
  have "at_stream recv r (?w @ (drop 4 (instr_wire source dest name a) @ s)) ps"
    using assms(1) instr_wire_split by (metis append.assoc item_wire.simps(2))
  from read_header_stream [OF this] obtain r1 ps' where
    r1: "read_header recv 4 r = Ok (?w, r1)" "at_stream recv r1 (drop 4 (instr_wire source dest name a) @ s) ps'"
    "same_else r r1" "length ps' \<le> length ps"
    by auto
  have h: "to_int32 (le_val ?w) = int ?n" using n by (simp add: le_val_le_bytes to_int32_small)
  have m: "rmem r1 = rmem r" using r1(3) by (simp add: same_else_def)
  have al: "wimp_reciever_allocateinstr ?h (int ?n) =
    (\<lparr>i_instruction = Some (calls ?h), i_instruction_bytes = ?n\<rparr>,
     ?h\<lparr>cells := (cells ?h)(calls ?h \<mapsto> replicate ?n NUL), calls := Suc (calls ?h)\<rparr>)"
    using inv n by (simp add: wimp_reciever_allocateinstr_def halloc_def rec_inv_def no_fail_def)
  let ?m = "(rmem r)\<lparr>bufs := ?h\<lparr>cells := (cells ?h)(calls ?h \<mapsto> replicate ?n NUL), calls := Suc (calls ?h)\<rparr>\<rparr>"
  have w: "buf_write ?m (Some (calls ?h)) 0 ?w =
    Ok ((rmem r)\<lparr>bufs := ?h\<lparr>cells := (cells ?h)(calls ?h \<mapsto> ?b), calls := Suc (calls ?h)\<rparr>\<rparr>)"
    using n buf_write_Ok [of ?m "calls ?h" "replicate ?n NUL" 0 ?w] by simp
  let ?r = "r1\<lparr>cur_instruction := \<lparr>i_instruction = Some (calls ?h), i_instruction_bytes = ?n\<rparr>,
      state := REC_READING_DATA,
      rmem := (rmem r)\<lparr>bufs := ?h\<lparr>cells := (cells ?h)(calls ?h \<mapsto> ?b), calls := Suc (calls ?h)\<rparr>\<rparr>,
      instruction_bytes_read := 4\<rparr>"
  have "int ?n \<noteq> - 1" "int ?n \<noteq> 0" using n by simp_all
  then have "reading_headers recv r = Ok ?r"
    using n w unfolding reading_headers_def r1(1) bnd.simps prod.case Let_def h m al int32_bytes_nat [OF n(1)]
    by simp
  moreover have "at_stream recv ?r (drop 4 (instr_wire source dest name a) @ s) ps'"
    using r1(2) by (simp add: at_stream_def pending_def)
  ultimately show ?thesis
    using r1 n by (intro exI [of _ ?r] exI [of _ ps'] exI [of _ ?b]) (simp add: same_else_def)
qed

text \<open>The instruction is complete: it goes onto the queue, in a node of its own.\<close>

lemma enqueue_complete:
  assumes m: "queue_rel m q as" "heap_ok (nodes m)" "no_fail (nodes m)" "heap_ok (bufs m)" "no_fail (bufs m)"
    and m': "m' = m\<lparr>bufs := (bufs m)\<lparr>cells := (cells (bufs m))(calls (bufs m) \<mapsto> w), calls := Suc (calls (bufs m))\<rparr>\<rparr>"
  shows "\<exists>q' m''. wimp_instr_queue_add m' q (Some (calls (bufs m))) (length w) = Ok (0, q', m'')
    \<and> queue_rel m'' q' (as @ [calls (nodes m)]) \<and> queue_locks q' = queue_locks q
    \<and> heap_ok (nodes m'') \<and> no_fail (nodes m'') \<and> heap_ok (bufs m'') \<and> no_fail (bufs m'')
    \<and> holds m'' (calls (nodes m)) w \<and> (\<forall>a b. holds m a b \<longrightarrow> holds m'' a b)
    \<and> (\<forall>r bs. queue_rel m r bs \<longrightarrow> set as \<inter> set bs = {} \<longrightarrow> queue_rel m'' r bs)
    \<and> payload m'' = (payload m)(calls (nodes m) \<mapsto> (Some (calls (bufs m)), length w))"
proof -
  have n: "nodes m' = nodes m" by (simp add: m')
  have q: "queue_rel m' q as" using m(1) by (simp add: queue_rel_def n)
  obtain q' m'' where a: "wimp_instr_queue_add m' q (Some (calls (bufs m))) (length w) = Ok (0, q', m'')"
    "queue_rel m'' q' (as @ [calls (nodes m)])" "queue_locks q' = queue_locks q" "bufs m'' = bufs m'"
    "heap_ok (nodes m'')" "no_fail (nodes m'')"
    "payload m'' = (payload m')(calls (nodes m) \<mapsto> (Some (calls (bufs m)), length w))"
    and fr: "\<forall>r bs. queue_rel m' r bs \<longrightarrow> set as \<inter> set bs = {} \<longrightarrow> queue_rel m'' r bs"
    using queue_add_rel [OF q, of "Some (calls (bufs m))" "length w"] m(2,3) n by auto
  have pm: "payload m' = payload m" by (simp add: payload_def fun_eq_iff n)
  have nb: "node_bytes k c = (case payload k c of Some (Some b, _) \<Rightarrow> cells (bufs k) b | _ \<Rightarrow> None)" for k c
    by (auto simp: node_bytes_def payload_def split: option.splits)
  have pl: "payload m'' = (payload m)(calls (nodes m) \<mapsto> (Some (calls (bufs m)), length w))"
    using a(7) pm by simp
  have bl: "cells (bufs m'') = (cells (bufs m))(calls (bufs m) \<mapsto> w)" using a(4) by (simp add: m')
  have "holds m'' (calls (nodes m)) w" by (simp add: holds_def nb pl bl)
  moreover have "holds m'' c b" if "holds m c b" for c b
  proof -
    have "payload m c \<noteq> None" using that by (auto simp: holds_def)
    then have "c \<noteq> calls (nodes m)" using m(2) payload_None [of m c] by (auto simp: heap_ok_def)
    moreover have "cells (bufs m) (calls (bufs m)) = None" by (rule heap_ok_fresh [OF m(4)])
    ultimately show ?thesis using that
      by (auto simp: holds_def nb pl bl split: option.splits)
  qed
  moreover have "heap_ok (bufs m'')" "no_fail (bufs m'')"
    using m(4,5) by (auto simp: a(4) m' heap_ok_def no_fail_def less_Suc_eq)
  moreover have "queue_rel m' r bs" if "queue_rel m r bs" for r bs
    using that by (simp add: queue_rel_def n)
  ultimately show ?thesis using a fr pl by blast
qed

lemma receive_instr:
  assumes st: "state r = REC_READING_HEADERS"
    and s: "at_stream recv r (item_wire (Instr source dest name a) @ s) ps"
    and wf: "wf_item (Instr source dest name a)" and inv: "rec_inv r as" and f: "Suc (length ps) < fuel"
  shows "\<exists>r' ps' c. receive_step fuel recv me r = Ok (is_exit_item me (Instr source dest name a), r')
    \<and> at_stream recv r' s ps' \<and> length ps' \<le> length ps \<and> state r' = REC_READING_HEADERS
    \<and> rec_inv r' (as @ [c]) \<and> holds (rmem r') c (item_wire (Instr source dest name a))
    \<and> (\<forall>a b. holds (rmem r) a b \<longrightarrow> holds (rmem r') a b)
    \<and> queue_locks (incoming_queue r') = queue_locks (incoming_queue r)"
proof -
  let ?w = "instr_wire source dest name a" and ?c = "calls (bufs (rmem r))"
  obtain r1 ps1 b where r1: "reading_headers recv r = Ok r1" "at_stream recv r1 (drop 4 ?w @ s) ps1"
    "length ps1 \<le> length ps" "state r1 = REC_READING_DATA" "instruction_bytes_read r1 = 4"
    "incoming_queue r1 = incoming_queue r"
    "cur_instruction r1 = \<lparr>i_instruction = Some ?c, i_instruction_bytes = length b\<rparr>"
    "length b = instr_size source dest name a" "take 4 b = le_bytes 4 (instr_size source dest name a)"
    "rmem r1 = (rmem r)\<lparr>bufs := (bufs (rmem r))\<lparr>cells := (cells (bufs (rmem r)))(?c \<mapsto> b), calls := Suc ?c\<rparr>\<rparr>"
    using reading_headers_instr [OF s wf inv] by blast
  have n: "instr_size source dest name a < 2 ^ 31" "4 \<le> instr_size source dest name a"
    using wf by (simp_all add: instr_size_def)
  have "cells (bufs (rmem r1)) ?c = Some b" by (simp add: r1(10))
  moreover have "instruction_bytes_read r1 + length (drop 4 ?w) = length b" using r1(5,8) n by simp
  moreover have "length b < 2 ^ 31" "Suc (length ps1) < fuel" using r1(3,8) n f by simp_all
  ultimately obtain r2 ps2 where
    r2: "data_loop fuel recv r1 = Ok r2" "at_stream recv r2 s ps2" "length ps2 \<le> length ps1"
    and "data_loop_post r1 ?c (take 4 b @ drop 4 ?w) r2"
    using data_loop_stream [OF r1(2) _ r1(7)] r1(5) by metis
  then have post: "rmem r2 = set_buf (rmem r1) ?c ?w" "cur_instruction r2 = cur_instruction r1"
    "incoming_queue r2 = incoming_queue r"
    using r1(6,9) instr_wire_split [of source dest name a] by (simp_all add: data_loop_post_def)
  have m2: "rmem r2 = (rmem r)\<lparr>bufs := (bufs (rmem r))\<lparr>cells := (cells (bufs (rmem r)))(?c \<mapsto> ?w), calls := Suc ?c\<rparr>\<rparr>"
    by (simp add: post(1) r1(10) set_buf_def)
  obtain q' m' where q': "wimp_instr_queue_add (rmem r2) (incoming_queue r) (Some ?c) (length ?w) = Ok (0, q', m')"
    "queue_rel m' q' (as @ [calls (nodes (rmem r))])" "queue_locks q' = queue_locks (incoming_queue r)"
    "heap_ok (nodes m')" "no_fail (nodes m')" "heap_ok (bufs m')" "no_fail (bufs m')"
    "holds m' (calls (nodes (rmem r))) ?w" "\<forall>a b. holds (rmem r) a b \<longrightarrow> holds m' a b"
    using enqueue_complete [OF _ _ _ _ _ m2] inv unfolding rec_inv_def by blast
  have buf: "node_buffer (rmem r2) \<lparr>instruction = Some ?c, instruction_bytes = length b, nextnode = None\<rparr> = Ok (Some ?w)"
    by (simp add: node_buffer_def m2)
  have add: "wimp_instr_queue_add (rmem r2) (incoming_queue r) (Some ?c) (length b) = Ok (0, q', m')"
    using q'(1) by (simp add: r1(8))
  let ?r = "r2\<lparr>rmem := m', incoming_queue := q',
           rlocks := rlocks r2 @ wimp_instr_queue_low_prio_lock (incoming_queue r) @ wimp_instr_queue_low_prio_unlock q',
           cur_instruction := no_instruction, instruction_bytes_read := 0, state := REC_READING_HEADERS\<rparr>"
  have "reading_data fuel recv me r1 = Ok (is_exit_item me (Instr source dest name a), ?r)"
    unfolding reading_data_def r2(1) bnd.simps Let_def post(2,3) r1(7) WimpInstr.simps r1(8)
      buf [unfolded r1(8)] is_exit_for_wire [OF wf] by (simp add: add [unfolded r1(8)])
  then have "receive_step fuel recv me r = Ok (is_exit_item me (Instr source dest name a), ?r)"
    by (simp add: receive_step_def st r1(1,4))
  moreover have "at_stream recv ?r s ps2" using r2(2) by (simp add: at_stream_def pending_def)
  ultimately show ?thesis
    using q' r1(3) r2(3)
    by (intro exI [of _ ?r] exI [of _ ps2] exI [of _ "calls (nodes (rmem r))"]) (simp add: rec_inv_def)
qed

lemma receive_ping:
  assumes "state r = REC_READING_HEADERS" and "at_stream recv r (item_wire Ping @ s) ps"
  shows "\<exists>r' ps'. receive_step fuel recv me r = Ok (False, r') \<and> at_stream recv r' s ps'
    \<and> length ps' \<le> length ps \<and> same_else r r'"
proof -
  obtain r' ps' where r: "reading_headers recv r = Ok r'" "at_stream recv r' s ps'" "same_else r r'"
    "length ps' \<le> length ps" using reading_headers_ping [OF assms(2)] by blast
  then have "receive_step fuel recv me r = Ok (False, r')"
    using assms(1) by (simp add: receive_step_def same_else_def)
  then show ?thesis using r by blast
qed

fun instr_wires :: "wire_item list \<Rightarrow> bytes list" where
  "instr_wires [] = []"
| "instr_wires (Ping # items) = instr_wires items"
| "instr_wires (Instr source dest name a # items) = instr_wire source dest name a # instr_wires items"

definition stream_wire :: "wire_item list \<Rightarrow> bytes" where
  "stream_wire items = concat (map item_wire items)"

lemma stream_wire_simps [simp]:
  "stream_wire [] = []" "stream_wire (x # items) = item_wire x @ stream_wire items"
  by (simp_all add: stream_wire_def)

lemma list_all2_holds_mono:
  "list_all2 (holds m) as ws \<Longrightarrow> \<forall>a b. holds m a b \<longrightarrow> holds m' a b \<Longrightarrow> list_all2 (holds m') as ws"
  by (erule list_all2_mono) blast

lemma receive_loop_items:
  assumes "state r = REC_READING_HEADERS" and "at_stream recv r (stream_wire (items @ [e]) @ s) ps"
    and "\<forall>x \<in> set items. wf_item x \<and> \<not> is_exit_item me x" and "wf_item e" "is_exit_item me e"
    and "rec_inv r as" and "list_all2 (holds (rmem r)) as ws"
    and "length items + length ps + 1 < fuel" and "\<forall>k \<le> length items. active (i + k)"
  shows "\<exists>r' as'. receive_loop fuel recv active i me r = Ok r' \<and> rec_inv r' as'
    \<and> list_all2 (holds (rmem r')) as' (ws @ instr_wires (items @ [e]))
    \<and> queue_locks (incoming_queue r') = queue_locks (incoming_queue r)"
  using assms
proof (induction items arbitrary: r ps as ws fuel i)
  case Nil
  then obtain f where f: "fuel = Suc f" by (cases fuel) auto
  obtain source dest name a where e: "e = Instr source dest name a" using Nil.prems(5) by (cases e) auto
  obtain r' ps' c where r': "receive_step fuel recv me r = Ok (True, r')" "rec_inv r' (as @ [c])"
    "holds (rmem r') c (item_wire e)" "\<forall>a b. holds (rmem r) a b \<longrightarrow> holds (rmem r') a b"
    "queue_locks (incoming_queue r') = queue_locks (incoming_queue r)"
    using receive_instr [of r recv source dest name a s ps as fuel me] Nil.prems e by auto
  have "list_all2 (holds (rmem r')) (as @ [c]) (ws @ [item_wire e])"
    using list_all2_holds_mono [OF Nil.prems(7) r'(4)] r'(3) by (intro list_all2_appendI) simp_all
  then show ?case using r' Nil.prems(9) f e by auto
next
  case (Cons x items)
  then obtain f where f: "fuel = Suc f" "length items + length ps + 1 < f" by (cases fuel) auto
  have act: "active i" "\<forall>k \<le> length items. active (Suc i + k)"
    using Cons.prems(9) by (auto dest: spec [of _ 0])
  show ?case
  proof (cases x)
    case Ping
    have st: "at_stream recv r (item_wire Ping @ stream_wire (items @ [e]) @ s) ps"
      using Cons.prems(2) Ping by simp
    obtain r' ps' where r': "receive_step fuel recv me r = Ok (False, r')"
      "at_stream recv r' (stream_wire (items @ [e]) @ s) ps'" "length ps' \<le> length ps" "same_else r r'"
      using receive_ping [OF Cons.prems(1) st] by blast
    have "rec_inv r' as" "list_all2 (holds (rmem r')) as ws" "state r' = REC_READING_HEADERS"
      using r'(4) Cons.prems(1,6,7) by (simp_all add: rec_inv_def same_else_def)
    then obtain r'' as' where "receive_loop f recv active (Suc i) me r' = Ok r''" "rec_inv r'' as'"
      "list_all2 (holds (rmem r'')) as' (ws @ instr_wires (items @ [e]))"
      "queue_locks (incoming_queue r'') = queue_locks (incoming_queue r')"
      using Cons.IH [OF _ r'(2) _ Cons.prems(4,5), of as ws f "Suc i"] Cons.prems(3) f(2) r'(3) act(2) by auto
    then show ?thesis using r'(1,4) act(1) f(1) Ping by (auto simp: same_else_def)
  next
    case (Instr source dest name a)
    have st: "at_stream recv r (item_wire (Instr source dest name a) @ stream_wire (items @ [e]) @ s) ps"
      using Cons.prems(2) Instr by simp
    have wf: "wf_item (Instr source dest name a)" "\<not> is_exit_item me (Instr source dest name a)"
      using Cons.prems(3) Instr by auto
    have fu: "Suc (length ps) < fuel" using Cons.prems(8) by simp
    obtain r' ps' c where r': "receive_step fuel recv me r = Ok (False, r')"
      "at_stream recv r' (stream_wire (items @ [e]) @ s) ps'" "length ps' \<le> length ps"
      "state r' = REC_READING_HEADERS" "rec_inv r' (as @ [c])"
      "holds (rmem r') c (item_wire (Instr source dest name a))"
      "\<forall>a b. holds (rmem r) a b \<longrightarrow> holds (rmem r') a b"
      "queue_locks (incoming_queue r') = queue_locks (incoming_queue r)"
      using receive_instr [OF Cons.prems(1) st wf(1) Cons.prems(6) fu, of me] wf(2) by auto
    have "list_all2 (holds (rmem r')) (as @ [c]) (ws @ [instr_wire source dest name a])"
      using list_all2_holds_mono [OF Cons.prems(7) r'(7)] r'(6) by (intro list_all2_appendI) simp_all
    then obtain r'' as' where "receive_loop f recv active (Suc i) me r' = Ok r''" "rec_inv r'' as'"
      "list_all2 (holds (rmem r'')) as' ((ws @ [instr_wire source dest name a]) @ instr_wires (items @ [e]))"
      "queue_locks (incoming_queue r'') = queue_locks (incoming_queue r')"
      using Cons.IH [OF r'(4,2) _ Cons.prems(4,5) r'(5), of "ws @ [instr_wire source dest name a]" f "Suc i"]
        Cons.prems(3) f(2) r'(3) act(2) by auto
    then show ?thesis using r'(1,8) act(1) f(1) Instr by auto
  qed
qed

lemma receive_step_idle:
  assumes "state r = REC_IDLE" and "at_stream recv r s (p # ps)" and "pending r = []"
  shows "receive_step fuel recv me r
      = receive_step fuel recv me ((wimp_reciever_next_packet recv r)\<lparr>state := REC_READING_HEADERS\<rparr>)"
    and "at_stream recv ((wimp_reciever_next_packet recv r)\<lparr>state := REC_READING_HEADERS\<rparr>) s ps"
  using next_packet_stream [OF assms(2,3)] assms(1)
  by (simp_all add: receive_step_def at_stream_def pending_def)

text \<open>Started on an empty buffer, the receiver turns a stream that ends in its exit instruction into
  queue entries, however the stream is cut into packets.\<close>

lemma receive_stream:
  assumes m: "queue_rel m q as" "heap_ok (nodes m)" "no_fail (nodes m)" "heap_ok (bufs m)" "no_fail (bufs m)"
    and ws: "list_all2 (holds m) as ws"
    and items: "\<forall>x \<in> set items. wf_item x \<and> \<not> is_exit_item me x" "wf_item e" "is_exit_item me e"
    and ps: "concat ps = stream_wire (items @ [e]) @ s" "\<forall>p \<in> set ps. is_packet p"
      "\<forall>i < length ps. recv i = Some (ps ! i)"
    and f: "length items + length ps + 1 < fuel" and act: "\<forall>k \<le> length items. active k"
  shows "\<exists>r as'. receive_loop fuel recv active 0 me (start_receiver m q) = Ok r
    \<and> queue_rel (rmem r) (incoming_queue r) as'
    \<and> list_all2 (holds (rmem r)) as' (ws @ instr_wires (items @ [e]))
    \<and> queue_locks (incoming_queue r) = queue_locks q"
proof -
  let ?r = "start_receiver m q" and ?s = "stream_wire (items @ [e]) @ s"
  have "0 < length (item_wire e)" using items(3) by (cases e) (simp_all add: instr_size_def)
  then have "stream_wire (items @ [e]) \<noteq> []" by (simp add: stream_wire_def)
  then obtain p ps' where p: "ps = p # ps'" using ps(1) by (cases ps) auto
  have st: "at_stream recv ?r ?s (p # ps')"
    using ps unfolding p at_stream_def by (simp add: start_receiver_def pending_def rec_consts WIMP_ZERO_BUFFER_def)
  have pe: "pending ?r = []" "state ?r = REC_IDLE" by (simp_all add: start_receiver_def pending_def)
  let ?n = "(wimp_reciever_next_packet recv ?r)\<lparr>state := REC_READING_HEADERS\<rparr>"
  note idle = receive_step_idle [OF pe(2) st pe(1)]
  have same: "rmem ?n = m" "incoming_queue ?n = q" "cur_instruction ?n = no_instruction"
    using next_packet_stream(2) [OF st pe(1)] by (simp_all add: same_else_def start_receiver_def)
  have inv: "rec_inv ?n as" "list_all2 (holds (rmem ?n)) as ws" using m ws same by (simp_all add: rec_inv_def)
  obtain f' where f': "fuel = Suc f'" using f by (cases fuel) auto
  have "receive_loop fuel recv active 0 me ?n = receive_loop fuel recv active 0 me ?r"
    using spec [OF act, of 0] idle(1) [of "Suc f'" me] unfolding f' receive_loop.simps by simp
  moreover have "length items + length ps' + 1 < fuel" using f p by simp
  ultimately show ?thesis
    using receive_loop_items [OF _ idle(2) items inv, of fuel active 0] act same(2)
    by (auto simp: rec_inv_def)
qed

section \<open>Handshake and connection\<close>

lemma connect_loop_eq:
  "fst (connect_loop connects k left) \<longleftrightarrow> (\<exists>i < left. connects (k + i))"
  "length (filter (\<lambda>c. c = SConnect) (snd (connect_loop connects k left))) \<le> left"
proof (induction connects k left rule: connect_loop.induct)
  case (2 connects k left)
  { case 1
    show ?case using "2.IH" by (auto simp: split_beta less_Suc_eq_0_disj)
  next
    case 2
    show ?case using "2.IH" by (auto simp: split_beta)
  }
qed simp_all

lemma create_handshake_eq:
  assumes "length name < 503"
  shows "wimp_create_handshake name WIMP_ZERO_BUFFER =
    Ok (\<lparr>handshake_header = WIMP_RECIEVER_HANDSHAKE, process_name_bytes = int (length name) + 1\<rparr>,
        fill_packet (int32_bytes WIMP_RECIEVER_HANDSHAKE @ le_bytes 4 (length name + 1) @ name @ [NUL]))"
proof -
  have 1: "to_int32 (length name + 1) = int (length name) + 1" using assms by (simp add: to_int32_small)
  have 2: "to_size (int 8 + (int (length name) + 1)) = length name + 9"
    using assms by (subst to_size_nonneg) auto
  have 3: "int32_bytes (int (length name) + 1) = le_bytes 4 (length name + 1)"
  proof -
    have "length name + 1 < 2 ^ 31" using assms by simp
    from int32_bytes_nat [OF this] show ?thesis by (simp only: of_nat_add of_nat_1)
  qed
  have n: "nat (int (length name) + 1) = length name + 1" by simp
  show ?thesis
    using assms unfolding wimp_create_handshake_def Let_def 1 2
    by (simp add: n 3 write_at_def fill_packet_def WIMP_ZERO_BUFFER_def WIMP_MESSAGE_BUFFER_BYTES_def
        replicate_add [symmetric] min_def)
qed

lemma reciever_init_eq:
  assumes "length (process_name args) < 503"
  shows "\<exists>trace. wimp_reciever_init True True connects reply args =
      Ok (if (\<exists>i < 5. connects i) \<and> (\<exists>bs. reply = Some bs \<and> bs \<noteq> []
            \<and> read_int32 (fill_packet bs) 0 = Ok WIMP_RECIEVER_HANDSHAKE)
          then WIMP_RECIEVER_SUCCESS else WIMP_RECIEVER_FAIL, trace)
    \<and> length (filter (\<lambda>c. c = SConnect) trace) \<le> 5"
proof -
  obtain ok trace where c: "connect_loop connects 0 5 = (ok, trace)" by (cases "connect_loop connects 0 5")
  have ok: "ok \<longleftrightarrow> (\<exists>i < 5. connects i)" "length (filter (\<lambda>c. c = SConnect) trace) \<le> 5"
    using connect_loop_eq [of connects 0 5] by (simp_all add: c)
  have r: "\<exists>v. read_int32 (fill_packet bs) 0 = Ok v" for bs
    by (simp add: read_int32_def fill_packet_def WIMP_MESSAGE_BUFFER_BYTES_def)
  note e = create_handshake_eq [OF assms]
  show ?thesis
  proof (cases "ok \<and> (\<exists>bs. reply = Some bs \<and> bs \<noteq> [])")
    case True
    then obtain bs v where bs: "reply = Some bs" "bs \<noteq> []" "read_int32 (fill_packet bs) 0 = Ok v"
      using r by blast
    then show ?thesis using True ok c e
      by (simp add: wimp_reciever_init_def Let_def WIMP_REC_TRY_COUNT_def)
  next
    case False
    then show ?thesis using ok c e
      by (cases reply) (auto simp: wimp_reciever_init_def Let_def WIMP_REC_TRY_COUNT_def)
  qed
qed

section \<open>A connection that closes\<close>

text \<open>From the idle state the receiver polls a closed connection for as long as its flag is set.\<close>

lemma receive_loop_closed:
  assumes "state r = REC_IDLE" and "\<forall>j. recv (packets r + j) = Some [] \<or> recv (packets r + j) = None"
  shows "receive_loop fuel recv (\<lambda>_. True) i me r = Fault OutOfFuel"
  using assms
proof (induction fuel arbitrary: i r)
  case 0
  then show ?case by simp
next
  case (Suc fuel)
  let ?n = "wimp_reciever_next_packet recv r"
  have "recv (packets r) = Some [] \<or> recv (packets r) = None" using Suc.prems(2) by (metis add_0_right)
  then have n: "state ?n = REC_IDLE" "incoming_size ?n \<le> 0" "packets ?n = Suc (packets r)"
    using Suc.prems(1) by (auto simp: wimp_reciever_next_packet_def)
  have "\<forall>j. recv (packets ?n + j) = Some [] \<or> recv (packets ?n + j) = None"
    using Suc.prems(2) n(3) by (metis add_Suc_shift)
  then have "receive_loop fuel recv (\<lambda>_. True) (Suc i) me ?n = Fault OutOfFuel" using Suc.IH n(1) by blast
  then show ?case using n Suc.prems(1) by (simp add: receive_step_def)
qed

text \<open>After one byte of a header the connection closes: the missing bytes are read as zeros, and the
  offset is left beyond the size of the last (empty) packet.\<close>

lemma read_header_byte_closed:
  assumes "incoming_size r \<in> {0, 1}" "nat (incoming_size r) \<le> rec_offset r" "recv (packets r) = Some []"
  shows "read_header_byte recv r = Ok (NUL, r\<lparr>recbuffer := WIMP_ZERO_BUFFER, incoming_size := 0,
    rec_offset := 1, packets := Suc (packets r)\<rparr>)"
  using assms
  by (auto simp: read_header_byte_def wimp_reciever_next_packet_def byte_at_def fill_packet_def
      WIMP_ZERO_BUFFER_def WIMP_MESSAGE_BUFFER_BYTES_def)

lemma truncated_header:
  assumes "state r = REC_READING_HEADERS" and "incoming_size r = 1" "rec_offset r = 0"
    and "recbuffer r = fill_packet [c]" "c \<noteq> NUL" and "\<forall>j. recv (packets r + j) = Some []"
    and inv: "rec_inv r as"
  shows "receive_step (Suc fuel) recv me r = Fault OutOfBounds"
proof -
  have p: "recv (packets r) = Some []" "recv (Suc (packets r)) = Some []" "recv (Suc (Suc (packets r))) = Some []"
    using spec [OF assms(6), of 0] spec [OF assms(6), of 1] spec [OF assms(6), of 2] by simp_all
  let ?r = "r\<lparr>recbuffer := WIMP_ZERO_BUFFER, incoming_size := 0, rec_offset := 1, packets := Suc (Suc (Suc (packets r)))\<rparr>"
  have h0: "read_header_byte recv r = Ok (c, r\<lparr>rec_offset := 1\<rparr>)"
    using assms(2-4) by (simp add: read_header_byte_def byte_at_def fill_packet_def WIMP_MESSAGE_BUFFER_BYTES_def)
  have h: "read_header recv 4 r = Ok ([c, NUL, NUL, NUL], ?r)"
    using p assms(2) by (simp add: eval_nat_numeral h0 read_header_byte_closed)
  let ?n = "of_char c :: nat" and ?a = "calls (bufs (rmem r))"
  have "?n mod 256 = ?n" by (simp add: mod_less)
  then have n: "0 < ?n" "?n < 256" using assms(5) char_of_NUL [of ?n] by auto
  let ?bs = "(bufs (rmem r))\<lparr>cells := (cells (bufs (rmem r)))(?a \<mapsto> replicate ?n NUL), calls := Suc ?a\<rparr>"
  let ?m = "(rmem r)\<lparr>bufs := ?bs\<rparr>"
  have "?n < 2 ^ 31" using n(2) by (rule less_le_trans) simp
  then have v: "to_int32 (le_val [c, NUL, NUL, NUL]) = int ?n" using to_int32_small [of ?n] by simp
  have al: "wimp_reciever_allocateinstr (bufs (rmem r)) (int ?n) =
      (\<lparr>i_instruction = Some ?a, i_instruction_bytes = ?n\<rparr>, ?bs)"
    using inv to_size_nonneg [of "int ?n"] \<open>?n < 2 ^ 31\<close>
    by (simp add: wimp_reciever_allocateinstr_def halloc_def rec_inv_def no_fail_def)
  have "int ?n < int 256" using n(2) by (simp only: of_nat_less_iff)
  then have ne: "int ?n \<noteq> - 1" "int ?n \<noteq> 0" "int ?n \<noteq> WIMP_RECIEVER_PING"
    using n(1) by (linarith, linarith, unfold WIMP_RECIEVER_PING_def, linarith)
  show ?thesis
  proof (cases "?n < 4")
    case True
    then have "buf_write ?m (Some ?a) 0 (int32_bytes (int ?n)) = Fault OutOfBounds"
      by (simp add: buf_write_def write_at_def int32_bytes_def)
    then have "reading_headers recv r = Fault OutOfBounds"
      using ne unfolding reading_headers_def h bnd.simps prod.case Let_def v by (simp add: al)
    then show ?thesis using assms(1) by (simp add: receive_step_def)
  next
    case False
    let ?b = "int32_bytes (int ?n) @ replicate (?n - 4) NUL"
    have w: "buf_write ?m (Some ?a) 0 (int32_bytes (int ?n)) = Ok (set_buf ?m ?a ?b)"
      using False buf_write_Ok [of ?m ?a "replicate ?n NUL" 0 "int32_bytes (int ?n)"]
      by (simp add: set_buf_def int32_bytes_def)
    let ?r' = "?r\<lparr>cur_instruction := \<lparr>i_instruction = Some ?a, i_instruction_bytes = ?n\<rparr>,
      state := REC_READING_DATA, rmem := set_buf ?m ?a ?b, instruction_bytes_read := 4\<rparr>"
    have hd: "reading_headers recv r = Ok ?r'"
      using ne w unfolding reading_headers_def h bnd.simps prod.case Let_def v by (simp add: al)
    have "reading_data (Suc fuel) recv me ?r' = Fault OutOfBounds"
    proof (cases "?n = 4")
      case True
      then have "data_loop (Suc fuel) recv ?r' = Ok ?r'" by (intro data_loop_done) simp
      moreover have "wimp_instr_get_from_buffer (Some ?b) ?n = Fault OutOfBounds"
        using True by (simp add: wimp_instr_get_from_buffer_def byte_at_def int32_bytes_def
            WIMP_INSTRUCTION_DEST_OFFSET_def find_start.simps read_int32_def nth_append nth_0_le_bytes char_of_NUL)
      ultimately show ?thesis
        by (simp add: reading_data_def Let_def node_buffer_def is_exit_for_def)
    next
      case neq: False
      have n4: "4 < int ?n" using False neq by linarith
      have "(int ?n - 4) mod 18446744073709551616 = int ?n - 4"
        "(1 + (int ?n - 4)) mod 18446744073709551616 = 1 + (int ?n - 4)"
        using \<open>int ?n < int 256\<close> n4 by (intro mod_pos_pos_trivial; linarith)+
      then have "data_loop (Suc fuel) recv ?r' = Fault OutOfBounds"
        using neq n4 by (simp add: data_loop.simps Let_def to_size_def WIMP_ZERO_BUFFER_def WIMP_MESSAGE_BUFFER_BYTES_def)
      then show ?thesis by (simp add: reading_data_def)
    qed
    then show ?thesis using assms(1) hd by (simp add: receive_step_def)
  qed
qed

section \<open>Properties\<close>

text \<open>C3: The receiver frames the byte stream correctly, whatever packets it arrives in. When the packets
  received concatenate to well-formed instructions and pings that end in the exit instruction for this
  process, then, with enough fuel, the loop returns without fault, and the incoming queue has gained exactly
  those instructions, byte for byte, in order, behind what it held before.\<close>

theorem receive_any_packets:
  assumes "queue_rel m q as" "heap_ok (nodes m)" "no_fail (nodes m)" "heap_ok (bufs m)" "no_fail (bufs m)"
    and "list_all2 (holds m) as ws"
    and "\<forall>x \<in> set items. wf_item x \<and> \<not> is_exit_item me x" "wf_item e" "is_exit_item me e"
    and "concat ps = stream_wire (items @ [e]) @ s" "\<forall>p \<in> set ps. is_packet p"
      "\<forall>i < length ps. recv i = Some (ps ! i)"
    and "length items + length ps + 1 < fuel" and "\<forall>k \<le> length items. active k"
  shows "\<exists>r as'. receive_loop fuel recv active 0 me (start_receiver m q) = Ok r
    \<and> queue_rel (rmem r) (incoming_queue r) as'
    \<and> list_all2 (holds (rmem r)) as' (ws @ instr_wires (items @ [e]))
    \<and> queue_locks (incoming_queue r) = queue_locks q"
  using receive_stream [OF assms] .

text \<open>A ping, an instruction and the exit, in packets of seven bytes.\<close>

definition ex_items :: "wire_item list" where
  "ex_items = [Ping, Instr ''main'' ''me'' ''print'' ''hi'']"

definition ex_exit :: wire_item where
  "ex_exit = Instr ''main'' ''me'' ''exit'' []"

fun chunks :: "nat \<Rightarrow> nat \<Rightarrow> bytes \<Rightarrow> bytes list" where
  "chunks 0 k bs = []"
| "chunks (Suc f) k bs = (if bs = [] then [] else take k bs # chunks f k (drop k bs))"

lemma concat_chunks: "0 < k \<Longrightarrow> length bs \<le> f \<Longrightarrow> concat (chunks f k bs) = bs"
  by (induction f k bs rule: chunks.induct) auto

lemma set_chunks: "p \<in> set (chunks f k bs) \<Longrightarrow> 0 < k \<Longrightarrow> p \<noteq> [] \<and> length p \<le> k"
  by (induction f k bs rule: chunks.induct) (auto split: if_splits)

lemma length_chunks: "length (chunks f k bs) \<le> f"
  by (induction f k bs rule: chunks.induct) auto

definition ex_packets :: "bytes list" where
  "ex_packets = chunks 100 7 (stream_wire (ex_items @ [ex_exit]))"

definition empty_mem :: mem where
  "empty_mem = \<lparr>nodes = empty_heap (\<lambda>_. False), bufs = empty_heap (\<lambda>_. False)\<rparr>"

lemma empty_mem_ok:
  "queue_rel empty_mem (wimp_create_instr_queue a b c) []" "heap_ok (nodes empty_mem)" "no_fail (nodes empty_mem)"
  "heap_ok (bufs empty_mem)" "no_fail (bufs empty_mem)"
  by (simp_all add: queue_rel_def wimp_create_instr_queue_def empty_mem_def no_fail_def empty_heap_def heap_ok_def)

lemma ex_stream: "concat ex_packets = stream_wire (ex_items @ [ex_exit])" "\<forall>p \<in> set ex_packets. is_packet p"
proof -
  let ?w = "stream_wire (ex_items @ [ex_exit])"
  have "length ?w \<le> 100" by (simp add: ex_items_def ex_exit_def instr_size_def)
  then show "concat ex_packets = ?w" unfolding ex_packets_def by (intro concat_chunks) simp_all
  show "\<forall>p \<in> set ex_packets. is_packet p"
    using set_chunks [of _ 100 7 ?w] by (fastforce simp: ex_packets_def is_packet_def rec_consts)
qed

theorem receive_any_packets_witness:
  "\<exists>r as'. receive_loop 200 (\<lambda>i. if i < length ex_packets then Some (ex_packets ! i) else Some []) (\<lambda>_. True) 0 ''me''
        (start_receiver empty_mem (wimp_create_instr_queue 0 1 2)) = Ok r
    \<and> queue_rel (rmem r) (incoming_queue r) as'
    \<and> list_all2 (holds (rmem r)) as' ([] @ instr_wires (ex_items @ [ex_exit]))
    \<and> queue_locks (incoming_queue r) = queue_locks (wimp_create_instr_queue 0 1 2)"
proof (rule receive_any_packets [OF empty_mem_ok, where ps = ex_packets and s = "[]"])
  show "\<forall>x \<in> set ex_items. wf_item x \<and> \<not> is_exit_item ''me'' x" "wf_item ex_exit" "is_exit_item ''me'' ex_exit"
    by (simp_all add: ex_items_def ex_exit_def cstring_def instr_size_def rec_consts)
  show "length ex_items + length ex_packets + 1 < 200"
    using length_chunks [of 100 7 "stream_wire (ex_items @ [ex_exit])"] by (simp add: ex_items_def ex_packets_def)
qed (simp_all add: ex_stream)

text \<open>The handshake is accepted by the other side: for a process name that fits the message buffer
  the client's message starts with the handshake number and holds the length and the name, and the
  initialisation succeeds exactly when one of the first five connection attempts does and the reply starts
  with the handshake number; it never tries more than five times.\<close>

lemma handshake_and_connect:
  assumes "length (process_name args) < 503"
  shows "wimp_create_handshake (process_name args) WIMP_ZERO_BUFFER =
      Ok (\<lparr>handshake_header = WIMP_RECIEVER_HANDSHAKE, process_name_bytes = int (length (process_name args)) + 1\<rparr>,
          fill_packet (int32_bytes WIMP_RECIEVER_HANDSHAKE @ le_bytes 4 (length (process_name args) + 1)
            @ process_name args @ [NUL]))
    \<and> (\<exists>trace. wimp_reciever_init True True connects reply args =
        Ok (if (\<exists>i < 5. connects i) \<and> (\<exists>bs. reply = Some bs \<and> bs \<noteq> []
              \<and> read_int32 (fill_packet bs) 0 = Ok WIMP_RECIEVER_HANDSHAKE)
            then WIMP_RECIEVER_SUCCESS else WIMP_RECIEVER_FAIL, trace)
      \<and> length (filter (\<lambda>c. c = SConnect) trace) \<le> 5)"
  using create_handshake_eq [OF assms] reciever_init_eq [OF assms] by blast

definition ex_args :: RecieverArgs where
  "ex_args = \<lparr>process_name = ''me'', recfrom_domain = ''127.0.0.1'', recfrom_port = 8000\<rparr>"

lemma handshake_and_connect_witness:
  "wimp_create_handshake (process_name ex_args) WIMP_ZERO_BUFFER =
      Ok (\<lparr>handshake_header = WIMP_RECIEVER_HANDSHAKE, process_name_bytes = int (length (process_name ex_args)) + 1\<rparr>,
          fill_packet (int32_bytes WIMP_RECIEVER_HANDSHAKE @ le_bytes 4 (length (process_name ex_args) + 1)
            @ process_name ex_args @ [NUL]))
    \<and> (\<exists>trace. wimp_reciever_init True True (\<lambda>i. i = 3) (Some ''wimp'') ex_args =
        Ok (if (\<exists>i < 5. (\<lambda>i. i = (3 :: nat)) i) \<and> (\<exists>bs. Some ''wimp'' = Some bs \<and> bs \<noteq> []
              \<and> read_int32 (fill_packet bs) 0 = Ok WIMP_RECIEVER_HANDSHAKE)
            then WIMP_RECIEVER_SUCCESS else WIMP_RECIEVER_FAIL, trace)
      \<and> length (filter (\<lambda>c. c = SConnect) trace) \<le> 5)"
  by (rule handshake_and_connect) (simp add: ex_args_def)



text \<open>C40: A connection that closes, or fails, while the receiver is idle is polled for as long as the
  server is active: no amount of fuel makes the loop end.\<close>

theorem closed_connection_polled:
  assumes "\<forall>j. recv j = Some [] \<or> recv j = None"
  shows "receive_loop fuel recv (\<lambda>_. True) 0 me (start_receiver m q) = Fault OutOfFuel"
  by (rule receive_loop_closed) (use assms in \<open>simp_all add: start_receiver_def\<close>)

theorem closed_connection_polled_witness:
  "receive_loop 1000 (\<lambda>_. Some []) (\<lambda>_. True) 0 ''me'' (start_receiver empty_mem (wimp_create_instr_queue 0 1 2))
    = Fault OutOfFuel"
  by (rule closed_connection_polled) simp

end
