(* ===== verification/Wimp_Server.thy ===== *)
theory Wimp_Server
  imports Wimp_Process_Table Wimp_Reciever
begin

section \<open>The server (\<open>wimp_server.c\<close>)\<close>

text \<open>
  A server owns a process table, an incoming and an outgoing queue and two buffers. Its
  operations change the server, the heap with the queues' nodes and buffers, and the heap of
  process data; they also lock mutexes and send on sockets, which the state records as lists.

  What the libraries return is a parameter: \<open>send_res k n\<close> is the result of the \<open>k\<close>th send call
  when it is given \<open>n\<close> bytes (-1 for an error, otherwise the number of bytes taken), \<open>accepts k\<close> the
  connection and first message that the \<open>k\<close>th accept call yields, \<open>arrivals i\<close> the instructions that
  receivers add to the incoming queue before a waiting server locks it for the \<open>i\<close>th time.

  The first part holds the operations, the second what they do.
\<close>

subsection \<open>Constants and data\<close>

definition WIMP_SERVER_SUCCESS :: int where "WIMP_SERVER_SUCCESS = 0"
definition WIMP_SERVER_FAIL :: int where "WIMP_SERVER_FAIL = - 1"
definition WIMP_SERVER_ADDRESS_FAIL :: int where "WIMP_SERVER_ADDRESS_FAIL = - 2"
definition WIMP_SERVER_SOCKET_FAIL :: int where "WIMP_SERVER_SOCKET_FAIL = - 3"
definition WIMP_SERVER_BIND_FAIL :: int where "WIMP_SERVER_BIND_FAIL = - 4"
definition WIMP_SERVER_LISTEN_FAIL :: int where "WIMP_SERVER_LISTEN_FAIL = - 5"
definition WIMP_SERVER_TOO_FEW_PROCESSES :: int where "WIMP_SERVER_TOO_FEW_PROCESSES = - 6"
definition WIMP_SERVER_UNEXPECTED_PROCESS :: int where "WIMP_SERVER_UNEXPECTED_PROCESS = - 7"

lemmas server_consts = WIMP_SERVER_SUCCESS_def WIMP_SERVER_FAIL_def WIMP_SERVER_ADDRESS_FAIL_def
  WIMP_SERVER_SOCKET_FAIL_def WIMP_SERVER_BIND_FAIL_def WIMP_SERVER_LISTEN_FAIL_def
  WIMP_SERVER_TOO_FEW_PROCESSES_def WIMP_SERVER_UNEXPECTED_PROCESS_def

record WimpServer =
  server_name :: bytes
  s_addr :: nat
  s_server :: nat
  ptable :: WimpProcessTable
  parent :: "bytes option"
  incomingmsg :: WimpInstrQueue
  outgoingmsg :: WimpInstrQueue
  sendbuffer :: bytes
  s_recbuffer :: bytes
  s_active :: int

text \<open>A server with the memory it works on, the bytes that each send call put on a connection, the
  number of send calls so far, and the mutex calls.\<close>

record server_state = WimpServer +
  smem :: mem
  sprocs :: "WimpProcessData heap"
  sent :: "(nat option \<times> bytes) list"
  sends :: nat
  slocks :: "mutex_call list"

record InstrBundle =
  b_instr :: "addr option"
  b_size :: nat

subsection \<open>Creating a server\<close>

text \<open>\<open>addr\<close>, \<open>sock\<close> and \<open>bound\<close> are the results of the socket library, the six numbers the mutexes of
  the two queues. On failure the buffers have been cleared and nothing else.\<close>

definition wimp_create_server ::
    "nat option \<Rightarrow> nat option \<Rightarrow> bool \<Rightarrow> bool \<Rightarrow> bool \<Rightarrow> mutex \<times> mutex \<times> mutex \<Rightarrow> mutex \<times> mutex \<times> mutex \<Rightarrow>
     WimpServer \<Rightarrow> bytes \<Rightarrow> int \<times> WimpServer" where
  "wimp_create_server addr sock bound container_ok table_ok in_mutexes out_mutexes server name =
     (let t = wimp_create_process_table container_ok table_ok;
          server = server\<lparr>s_recbuffer := WIMP_ZERO_BUFFER, sendbuffer := WIMP_ZERO_BUFFER\<rparr>
      in case addr of
           None \<Rightarrow> (WIMP_SERVER_ADDRESS_FAIL, server)
         | Some a \<Rightarrow>
             (case sock of
                None \<Rightarrow> (WIMP_SERVER_SOCKET_FAIL, server)
              | Some s \<Rightarrow>
                  if \<not> bound then (WIMP_SERVER_BIND_FAIL, server)
                  else
                    (WIMP_SERVER_SUCCESS,
                     server\<lparr>server_name := name, s_addr := a, ptable := t, s_server := s, parent := None,
                            incomingmsg := (case in_mutexes of (d, n, l) \<Rightarrow> wimp_create_instr_queue d n l),
                            outgoingmsg := (case out_mutexes of (d, n, l) \<Rightarrow> wimp_create_instr_queue d n l),
                            s_active := 1\<rparr>)))"

subsection \<open>Bundling and adding\<close>

definition wimp_server_free_bundle :: "bytes heap \<Rightarrow> InstrBundle \<Rightarrow> (InstrBundle \<times> bytes heap) outcome" where
  "wimp_server_free_bundle h bundle =
     bnd (hfree h (b_instr bundle)) (\<lambda>h. Ok (bundle\<lparr>b_instr := None, b_size := 0\<rparr>, h))"

definition wimp_server_bundle_instr ::
    "bytes heap \<Rightarrow> bytes \<Rightarrow> bytes \<Rightarrow> bytes \<Rightarrow> bytes option \<Rightarrow> nat \<Rightarrow> (InstrBundle \<times> bytes heap) outcome" where
  "wimp_server_bundle_instr h process dest instr args arg_size =
     (let total_bytes = bundle_size process dest instr arg_size;
          (instrbuff, h) = halloc h (replicate total_bytes NUL)
      in case instrbuff of
           None \<Rightarrow> Ok (\<lparr>b_instr = None, b_size = 0\<rparr>, h)
         | Some a \<Rightarrow>
             bnd (hload h a) (\<lambda>buf.
             bnd (fill_bundle buf process dest instr args arg_size) (\<lambda>buf.
             bnd (hstore h a buf) (\<lambda>h.
             Ok (\<lparr>b_instr = Some a, b_size = total_bytes\<rparr>, h)))))"

text \<open>The bundle is queued whether or not it could be allocated.\<close>

definition wimp_server_add ::
    "server_state \<Rightarrow> bytes \<Rightarrow> bytes \<Rightarrow> bytes option \<Rightarrow> nat \<Rightarrow> server_state outcome" where
  "wimp_server_add st dest instr args arg_size =
     bnd (wimp_server_bundle_instr (bufs (smem st)) (server_name st) dest instr args arg_size) (\<lambda>(bundle, bs).
     bnd (wimp_instr_queue_add ((smem st)\<lparr>bufs := bs\<rparr>) (outgoingmsg st) (b_instr bundle) (b_size bundle))
       (\<lambda>(_, q, m). Ok (st\<lparr>outgoingmsg := q, smem := m\<rparr>)))"

subsection \<open>The thread's own server\<close>

definition wimp_get_local_server :: "'s option \<Rightarrow> 's option" where
  "wimp_get_local_server local_server = local_server"

text \<open>\<open>fresh\<close> is the block that \<open>malloc\<close> returns; the result of \<open>malloc\<close> is not checked.\<close>

definition wimp_init_local_server ::
    "nat option \<Rightarrow> nat option \<Rightarrow> bool \<Rightarrow> bool \<Rightarrow> bool \<Rightarrow> mutex \<times> mutex \<times> mutex \<Rightarrow> mutex \<times> mutex \<times> mutex \<Rightarrow>
     WimpServer option \<Rightarrow> WimpServer option \<Rightarrow> bytes \<Rightarrow> (int \<times> WimpServer option) outcome" where
  "wimp_init_local_server addr sock bound container_ok table_ok in_mutexes out_mutexes fresh local_server name =
     (case local_server of
        Some _ \<Rightarrow> Ok (WIMP_SERVER_FAIL, local_server)
      | None \<Rightarrow>
          bnd (deref fresh) (\<lambda>s.
          let (r, s) = wimp_create_server addr sock bound container_ok table_ok in_mutexes out_mutexes s name
          in Ok (r, Some s)))"

definition wimp_add_local_server ::
    "server_state option \<Rightarrow> bytes \<Rightarrow> bytes \<Rightarrow> bytes option \<Rightarrow> nat \<Rightarrow> server_state option outcome" where
  "wimp_add_local_server local_server dest instr args arg_size =
     (case local_server of
        None \<Rightarrow> Ok None
      | Some st \<Rightarrow> bnd (wimp_server_add st dest instr args arg_size) (\<lambda>st. Ok (Some st)))"

subsection \<open>Accepting connections\<close>

text \<open>One accept call yields nothing, or a connection with its first message.\<close>

type_synonym accept_result = "(nat \<times> bytes option) option"

text \<open>What the loop keeps: the server and the heap of process data, the replies sent, the number of
  accepted connections and the reason to report.\<close>

record accept_state =
  a_server :: WimpServer
  a_procs :: "WimpProcessData heap"
  a_sent :: "(nat \<times> bytes) list"
  accepted_count :: nat
  failure_reason :: int

definition handshake_reply :: bytes where
  "handshake_reply = int32_bytes WIMP_RECIEVER_HANDSHAKE @ int32_bytes 0"

text \<open>The body of the loop once a connection is made. The flag says whether the connection is to be
  tried again (\<open>i--\<close>).\<close>

definition accept_connection ::
    "bytes list \<Rightarrow> nat \<Rightarrow> bytes option \<Rightarrow> accept_state \<Rightarrow> (bool \<times> accept_state) outcome" where
  "accept_connection pnames con msg a =
     (case msg of
        None \<Rightarrow> Ok (False, a)
      | Some bs \<Rightarrow>
          if bs = [] then Ok (False, a)
          else
            let buf = bs @ drop (length bs) (s_recbuffer (a_server a));
                a = a\<lparr>a_server := (a_server a)\<lparr>s_recbuffer := buf\<rparr>\<rparr>
            in bnd (read_int32 buf 0) (\<lambda>header.
               if header \<noteq> WIMP_RECIEVER_HANDSHAKE then Ok (False, a)
               else
                 bnd (cstr_at buf 8) (\<lambda>proc_name.
                 if proc_name \<notin> set pnames
                 then Ok (True, a\<lparr>failure_reason := WIMP_SERVER_UNEXPECTED_PROCESS\<rparr>)
                 else
                   bnd (wimp_process_table_get (ptable (a_server a)) (Some proc_name)) (\<lambda>(r, procdat).
                   if r \<noteq> WIMP_PROCESS_TABLE_SUCCESS then Ok (False, a)
                   else
                     bnd (deref procdat) (\<lambda>p.
                     bnd (hload (a_procs a) p) (\<lambda>d.
                     bnd (hstore (a_procs a) p
                            (d\<lparr>process_connection := Some con, process_active := WIMP_PROCESS_ACTIVE\<rparr>)) (\<lambda>procs.
                     let s = a_server a;
                         s = (if process_relation d = WIMP_Process_Parent \<and> parent s = None
                              then s\<lparr>parent := Some proc_name\<rparr> else s);
                         s = s\<lparr>s_recbuffer := WIMP_ZERO_BUFFER, sendbuffer := WIMP_ZERO_BUFFER\<rparr>
                     in Ok (False, a\<lparr>a_server := s, a_procs := procs,
                                     a_sent := a_sent a @ [(con, handshake_reply)],
                                     accepted_count := accepted_count a + 1\<rparr>))))))))"

text \<open>The \<open>for\<close> loop: \<open>left\<close> is \<open>pcount - i\<close>, \<open>k\<close> counts the accept calls. Unexpected connections do not
  use up a turn, so the loop takes fuel.\<close>

fun accept_loop ::
    "nat \<Rightarrow> (nat \<Rightarrow> accept_result) \<Rightarrow> bytes list \<Rightarrow> nat \<Rightarrow> nat \<Rightarrow> accept_state \<Rightarrow> accept_state outcome" where
  "accept_loop fuel accepts pnames 0 k a = Ok a"
| "accept_loop 0 accepts pnames (Suc left) k a = Fault OutOfFuel"
| "accept_loop (Suc fuel) accepts pnames (Suc left) k a =
     (case accepts k of
        None \<Rightarrow> accept_loop fuel accepts pnames left (Suc k) a
      | Some (con, msg) \<Rightarrow>
          bnd (accept_connection pnames con msg a) (\<lambda>(again, a).
          accept_loop fuel accepts pnames (if again then Suc left else left) (Suc k) a))"

definition start_accept :: "WimpServer \<Rightarrow> WimpProcessData heap \<Rightarrow> accept_state" where
  "start_accept server procs =
     \<lparr>a_server = server, a_procs = procs, a_sent = [], accepted_count = 0,
      failure_reason = WIMP_SERVER_TOO_FEW_PROCESSES\<rparr>"

definition wimp_server_process_accept ::
    "bool \<Rightarrow> bool \<Rightarrow> nat \<Rightarrow> (nat \<Rightarrow> accept_result) \<Rightarrow> WimpServer \<Rightarrow> WimpProcessData heap \<Rightarrow> bytes list \<Rightarrow>
     (int \<times> accept_state) outcome" where
  "wimp_server_process_accept malloc_ok listen_ok fuel accepts server procs pnames =
     (let a = start_accept server procs in
      if \<not> malloc_ok then Ok (WIMP_SERVER_FAIL, a)
      else if \<not> listen_ok then Ok (WIMP_SERVER_LISTEN_FAIL, a)
      else
        bnd (accept_loop fuel accepts pnames (length pnames) 0 a) (\<lambda>a.
        Ok (if accepted_count a \<noteq> length pnames then failure_reason a else WIMP_SERVER_SUCCESS, a)))"

subsection \<open>Checking connections\<close>

definition ping_bytes :: bytes where
  "ping_bytes = int32_bytes WIMP_RECIEVER_PING"

text \<open>One send call on a connection: the result, and the bytes that were taken recorded.\<close>

definition do_send ::
    "(nat \<Rightarrow> nat \<Rightarrow> int) \<Rightarrow> nat option \<Rightarrow> bytes \<Rightarrow> server_state \<Rightarrow> int \<times> server_state" where
  "do_send send_res con bs st =
     (let res = send_res (sends st) (length bs)
      in (res, st\<lparr>sends := Suc (sends st),
                  sent := (if res < 0 then sent st else sent st @ [(con, take (nat res) bs)])\<rparr>))"

definition wimp_server_check_process_listening ::
    "(nat \<Rightarrow> nat \<Rightarrow> int) \<Rightarrow> server_state \<Rightarrow> bytes \<Rightarrow> (bool \<times> server_state) outcome" where
  "wimp_server_check_process_listening send_res st name =
     bnd (wimp_process_table_get (ptable st) (Some name)) (\<lambda>(r, procdat).
     if r = WIMP_PROCESS_TABLE_FAIL then Ok (False, st)
     else
       bnd (deref procdat) (\<lambda>p.
       bnd (hload (sprocs st) p) (\<lambda>d.
       if process_active d = 0 then Ok (False, st)
       else
         let (res, st) = do_send send_res (process_connection d) ping_bytes st in
         if res \<noteq> - 1 then Ok (True, st)
         else
           bnd (hstore (sprocs st) p (d\<lparr>process_active := 0\<rparr>)) (\<lambda>procs.
           bnd (wimp_process_table_remove procs (Some (ptable st)) name) (\<lambda>(_, t, procs).
           bnd (deref t) (\<lambda>t. Ok (False, st\<lparr>ptable := t, sprocs := procs\<rparr>)))))))"

definition wimp_server_is_parent_alive ::
    "(nat \<Rightarrow> nat \<Rightarrow> int) \<Rightarrow> server_state \<Rightarrow> (bool \<times> server_state) outcome" where
  "wimp_server_is_parent_alive send_res st =
     (case parent st of
        None \<Rightarrow> Ok (True, st)
      | Some name \<Rightarrow> wimp_server_check_process_listening send_res st name)"

subsection \<open>Waiting for a response\<close>

text \<open>What a receiver does to a queue with one complete instruction.\<close>

definition deliver :: "mem \<Rightarrow> WimpInstrQueue \<Rightarrow> bytes \<Rightarrow> (WimpInstrQueue \<times> mem) outcome" where
  "deliver m q instr =
     (let (p, bs) = halloc (bufs m) instr in
      bnd (wimp_instr_queue_add (m\<lparr>bufs := bs\<rparr>) q p (length instr)) (\<lambda>(_, q, m). Ok (q, m)))"

fun deliver_all :: "mem \<Rightarrow> WimpInstrQueue \<Rightarrow> bytes list \<Rightarrow> (WimpInstrQueue \<times> mem) outcome" where
  "deliver_all m q [] = Ok (q, m)"
| "deliver_all m q (b # bs) = bnd (deliver m q b) (\<lambda>(q, m). deliver_all m q bs)"

datatype scan_result = Found addr | Exited | Exhausted

text \<open>The inner loop of \<open>wimp_server_wait_response\<close>: pop until the awaited instruction or the exit
  instruction, keeping everything else in the temporary queue.\<close>

fun scan_loop ::
    "nat \<Rightarrow> bytes \<Rightarrow> mem \<Rightarrow> WimpInstrQueue \<Rightarrow> WimpInstrQueue \<Rightarrow>
     (scan_result \<times> WimpInstrQueue \<times> WimpInstrQueue \<times> mem) outcome" where
  "scan_loop 0 instr m q tmp = Fault OutOfFuel"
| "scan_loop (Suc fuel) instr m q tmp =
     bnd (wimp_instr_queue_pop m q) (\<lambda>(currentnode, q).
     case currentnode of
       None \<Rightarrow> Ok (Exhausted, q, tmp, m)
     | Some a \<Rightarrow>
         bnd (wimp_instr_get_from_node m a) (\<lambda>meta.
         bnd (node_string m a (m_instr meta)) (\<lambda>s.
         bnd (wimp_instr_check s (Some instr)) (\<lambda>is_instr.
         if is_instr then Ok (Found a, q, tmp, m)
         else
           bnd (wimp_instr_check s (Some WIMP_INSTRUCTION_EXIT)) (\<lambda>is_exit.
           if is_exit then bnd (wimp_instr_node_free m a) (\<lambda>m. Ok (Exited, q, tmp, m))
           else
             bnd (wimp_instr_queue_add_existing m tmp a) (\<lambda>(_, tmp, m).
             scan_loop fuel instr m q tmp))))))"

text \<open>The outer loop: lock, scan, unlock, until something ended the scan. The temporary queue and
  the trace of mutex calls are carried along.\<close>

fun wait_loop ::
    "nat \<Rightarrow> nat \<Rightarrow> (nat \<Rightarrow> bytes list) \<Rightarrow> bytes \<Rightarrow> mem \<Rightarrow> WimpInstrQueue \<Rightarrow> WimpInstrQueue \<Rightarrow>
     (addr option \<times> mutex_call list \<times> WimpInstrQueue \<times> WimpInstrQueue \<times> mem) outcome" where
  "wait_loop 0 i arrivals instr m q tmp = Fault OutOfFuel"
| "wait_loop (Suc fuel) i arrivals instr m q tmp =
     bnd (deliver_all m q (arrivals i)) (\<lambda>(q, m).
     let locked = wimp_instr_queue_high_prio_lock q in
     bnd (scan_loop (Suc (calls (nodes m))) instr m q tmp) (\<lambda>(res, q, tmp, m).
     let trace = locked @ wimp_instr_queue_high_prio_unlock q in
     case res of
       Found a \<Rightarrow> Ok (Some a, trace, q, tmp, m)
     | Exited \<Rightarrow> Ok (None, trace, q, tmp, m)
     | Exhausted \<Rightarrow>
         bnd (wait_loop fuel (Suc i) arrivals instr m q tmp) (\<lambda>(node, trace', r).
         Ok (node, trace @ trace', r))))"

text \<open>The timeout argument is never read. \<open>tmp\<close> holds the mutexes made for the temporary queue.\<close>

definition wimp_server_wait_response ::
    "nat \<Rightarrow> (nat \<Rightarrow> bytes list) \<Rightarrow> mutex \<times> mutex \<times> mutex \<Rightarrow> server_state \<Rightarrow> bytes \<Rightarrow> int \<Rightarrow>
     (addr option \<times> server_state) outcome" where
  "wimp_server_wait_response fuel arrivals tmp st instr timeout =
     (let tmpqueue = (case tmp of (d, n, l) \<Rightarrow> wimp_create_instr_queue d n l) in
      bnd (wait_loop fuel 0 arrivals instr (smem st) (incomingmsg st) tmpqueue) (\<lambda>(node, trace, q, tmpqueue, m).
      let locked = wimp_instr_queue_high_prio_lock q in
      bnd (wimp_instr_queue_prepend_queue m (Some q) (Some tmpqueue)) (\<lambda>(success, q, tmpqueue, m).
      bnd (guard_or AssertFailed (success = WIMP_INSTRUCTION_SUCCESS)) (\<lambda>_.
      bnd (deref q) (\<lambda>q.
      bnd (deref tmpqueue) (\<lambda>tmpqueue.
      let unlocked = wimp_instr_queue_high_prio_unlock q in
      bnd (wimp_instr_queue_free m tmpqueue) (\<lambda>(freed, m).
      Ok (node, st\<lparr>incomingmsg := q, smem := m,
                    slocks := slocks st @ trace @ locked @ unlocked @ freed\<rparr>))))))))"

subsection \<open>Routing and sending\<close>

definition wimp_server_instr_routed ::
    "server_state \<Rightarrow> bytes option \<Rightarrow> addr \<Rightarrow> (bool \<times> server_state) outcome" where
  "wimp_server_instr_routed st dest_name instrnode =
     bnd (strings_equal dest_name (Some (server_name st))) (\<lambda>here.
     if \<not> here then
       bnd (wimp_instr_queue_add_existing (smem st) (outgoingmsg st) instrnode) (\<lambda>(_, q, m).
       Ok (True, st\<lparr>outgoingmsg := q, smem := m\<rparr>))
     else Ok (False, st))"

text \<open>The sending loop: \<open>sent_bytes\<close> is a \<open>size_t\<close>, to which a failed call adds -1.\<close>

fun send_chunks ::
    "nat \<Rightarrow> (nat \<Rightarrow> nat \<Rightarrow> int) \<Rightarrow> nat option \<Rightarrow> bytes \<Rightarrow> nat \<Rightarrow> nat \<Rightarrow> server_state \<Rightarrow> server_state outcome" where
  "send_chunks 0 send_res con instr total_size sent_bytes st = Fault OutOfFuel"
| "send_chunks (Suc fuel) send_res con instr total_size sent_bytes st =
     (if sent_bytes < total_size then
        let bytes_to_send = total_size - sent_bytes;
            bytes_to_send = (if bytes_to_send > WIMP_MESSAGE_BUFFER_BYTES then WIMP_MESSAGE_BUFFER_BYTES
                             else bytes_to_send)
        in bnd (guard_or OutOfBounds (sent_bytes + bytes_to_send \<le> length instr)) (\<lambda>_.
           bnd (write_at (sendbuffer st) 0 (take bytes_to_send (drop sent_bytes instr))) (\<lambda>buf.
           let (sendres, st) = do_send send_res con (take bytes_to_send buf) st;
               st = st\<lparr>sendbuffer := WIMP_ZERO_BUFFER\<rparr>
           in send_chunks fuel send_res con instr total_size (to_size (int sent_bytes + sendres)) st))
      else Ok st)"

declare send_chunks.simps [simp del]

text \<open>Where an instruction goes: to the named process, or else to the parent.\<close>

definition send_target :: "WimpServer \<Rightarrow> bytes option \<Rightarrow> addr option outcome" where
  "send_target server dest =
     bnd (wimp_process_table_get (ptable server) dest) (\<lambda>(r, data).
     if r = WIMP_PROCESS_TABLE_SUCCESS then Ok data
     else bnd (wimp_process_table_get (ptable server) (parent server)) (\<lambda>(r, data).
          if r = WIMP_PROCESS_TABLE_SUCCESS then Ok data else Ok None))"

text \<open>One instruction. In the loopback case the incoming queue gets the very buffer that the node
  owns. Every case ends with the free of the node and its buffer.\<close>

definition send_node ::
    "nat \<Rightarrow> (nat \<Rightarrow> nat \<Rightarrow> int) \<Rightarrow> addr \<Rightarrow> server_state \<Rightarrow> server_state outcome" where
  "send_node fuel send_res a st =
     bnd (wimp_instr_get_from_node (smem st) a) (\<lambda>meta.
     bnd (hload (nodes (smem st)) a) (\<lambda>n.
     bnd (node_string (smem st) a (dest_process meta)) (\<lambda>dest.
     bnd (strings_equal dest (Some (server_name st))) (\<lambda>here.
     bnd (if here then
            bnd (wimp_instr_queue_add (smem st) (incomingmsg st) (instruction n) (total_bytes meta)) (\<lambda>(_, q, m).
            Ok (st\<lparr>incomingmsg := q, smem := m\<rparr>))
          else
            bnd (send_target (WimpServer.truncate st) dest) (\<lambda>target.
            case target of
              None \<Rightarrow> Ok st
            | Some p \<Rightarrow>
                bnd (hload (sprocs st) p) (\<lambda>d.
                if process_active d \<noteq> 0 then
                  bnd (node_buffer (smem st) n) (\<lambda>buf.
                  bnd (deref buf) (\<lambda>instr.
                  send_chunks fuel send_res (process_connection d) instr (total_bytes meta) 0 st))
                else Ok st))) (\<lambda>st.
     bnd (wimp_instr_node_free (smem st) a) (\<lambda>m.
     Ok (st\<lparr>smem := m\<rparr>)))))))"

fun send_loop :: "nat \<Rightarrow> (nat \<Rightarrow> nat \<Rightarrow> int) \<Rightarrow> server_state \<Rightarrow> server_state outcome" where
  "send_loop 0 send_res st = Fault OutOfFuel"
| "send_loop (Suc fuel) send_res st =
     bnd (wimp_instr_queue_pop (smem st) (outgoingmsg st)) (\<lambda>(currentn, q).
     let st = st\<lparr>outgoingmsg := q\<rparr> in
     case currentn of
       None \<Rightarrow> Ok st
     | Some a \<Rightarrow> bnd (send_node fuel send_res a st) (\<lambda>st. send_loop fuel send_res st))"

definition wimp_server_send_instructions ::
    "nat \<Rightarrow> (nat \<Rightarrow> nat \<Rightarrow> int) \<Rightarrow> server_state \<Rightarrow> (int \<times> server_state) outcome" where
  "wimp_server_send_instructions fuel send_res st =
     (let locked = wimp_instr_queue_high_prio_lock (outgoingmsg st) in
      bnd (send_loop fuel send_res st) (\<lambda>st'.
      Ok (WIMP_SERVER_SUCCESS,
          st'\<lparr>slocks := slocks st' @ locked @ wimp_instr_queue_high_prio_unlock (outgoingmsg st')\<rparr>)))"

subsection \<open>Freeing the server\<close>

fun exit_children :: "addr HashStringEntry list \<Rightarrow> server_state \<Rightarrow> server_state outcome" where
  "exit_children [] st = Ok st"
| "exit_children (entry # entries) st =
     bnd (hload (sprocs st) (hvalue entry)) (\<lambda>d.
     bnd (if process_relation d = WIMP_Process_Child
          then wimp_server_add st (hkey entry) WIMP_INSTRUCTION_EXIT None 0 else Ok st) (\<lambda>st.
     exit_children entries st))"

definition wimp_server_free ::
    "nat \<Rightarrow> (nat \<Rightarrow> nat \<Rightarrow> int) \<Rightarrow> server_state \<Rightarrow> server_state outcome" where
  "wimp_server_free fuel send_res st =
     (let st = st\<lparr>s_active := 0\<rparr> in
      bnd (deref (hash_table (ptable st))) (\<lambda>h.
      bnd (HASH_STRING_ITER h) (\<lambda>entries.
      bnd (exit_children entries st) (\<lambda>st.
      bnd (wimp_server_send_instructions fuel send_res st) (\<lambda>(_, st).
      bnd (wimp_process_table_free (sprocs st) (ptable st)) (\<lambda>(procs, _).
      bnd (wimp_instr_queue_free (smem st) (incomingmsg st)) (\<lambda>(freed_in, m).
      bnd (wimp_instr_queue_free m (outgoingmsg st)) (\<lambda>(freed_out, m).
      Ok (st\<lparr>sprocs := procs, smem := m, slocks := slocks st @ freed_in @ freed_out,
             parent := None, s_recbuffer := WIMP_ZERO_BUFFER, sendbuffer := WIMP_ZERO_BUFFER\<rparr>)))))))))"

definition wimp_close_local_server ::
    "nat \<Rightarrow> (nat \<Rightarrow> nat \<Rightarrow> int) \<Rightarrow> server_state option \<Rightarrow> server_state option outcome" where
  "wimp_close_local_server fuel send_res local_server =
     (case local_server of
        None \<Rightarrow> Ok None
      | Some st \<Rightarrow> bnd (wimp_server_free fuel send_res st) (\<lambda>_. Ok None))"

section \<open>Adding\<close>

text \<open>A server whose memory is well-formed and never exhausted, and whose two queues hold the nodes
  \<open>ins\<close> and \<open>outs\<close>.\<close>

definition mem_ok :: "mem \<Rightarrow> bool" where
  "mem_ok m \<longleftrightarrow> heap_ok (nodes m) \<and> no_fail (nodes m) \<and> heap_ok (bufs m) \<and> no_fail (bufs m)"

lemma bundle_instr_eq:
  assumes "instr_size process dest instr a < 2 ^ 64" and "a = [] \<or> (\<exists>rest. args = Some (a @ rest))" and "no_fail h"
  shows "wimp_server_bundle_instr h process dest instr args (length a) =
    Ok (\<lparr>b_instr = Some (calls h), b_size = instr_size process dest instr a\<rparr>,
        h\<lparr>cells := (cells h)(calls h \<mapsto> instr_wire process dest instr a), calls := Suc (calls h)\<rparr>)"
proof -
  note sz = bundle_size_eq [OF assms(1)]
  have "fill_bundle (replicate (instr_size process dest instr a) NUL) process dest instr args (length a)
      = Ok (instr_wire process dest instr a)"
    using assms(2) by (intro fill_bundle_wire sz) simp_all
  then show ?thesis using assms(3)
    by (simp add: wimp_server_bundle_instr_def sz halloc_def no_fail_def)
qed

lemma server_add_eq:
  assumes q: "queue_rel (smem st) (outgoingmsg st) outs" and m: "mem_ok (smem st)"
    and w: "instr_size (server_name st) dest instr a < 2 ^ 64" "a = [] \<or> (\<exists>rest. args = Some (a @ rest))"
  shows "\<exists>q m c. wimp_server_add st dest instr args (length a) = Ok (st\<lparr>outgoingmsg := q, smem := m\<rparr>)
    \<and> queue_rel m q (outs @ [c]) \<and> mem_ok m \<and> queue_locks q = queue_locks (outgoingmsg st)
    \<and> holds m c (instr_wire (server_name st) dest instr a)
    \<and> (\<forall>a b. holds (smem st) a b \<longrightarrow> holds m a b)
    \<and> (\<forall>r bs. queue_rel (smem st) r bs \<longrightarrow> set outs \<inter> set bs = {} \<longrightarrow> queue_rel m r bs)"
proof -
  let ?h = "bufs (smem st)" and ?w = "instr_wire (server_name st) dest instr a"
  let ?m = "(smem st)\<lparr>bufs := ?h\<lparr>cells := (cells ?h)(calls ?h \<mapsto> ?w), calls := Suc (calls ?h)\<rparr>\<rparr>"
  have mm: "heap_ok (nodes (smem st))" "no_fail (nodes (smem st))" "heap_ok ?h" "no_fail ?h"
    using m by (simp_all add: mem_ok_def)
  note b = bundle_instr_eq [OF w mm(4)]
  obtain q' m'' where e: "wimp_instr_queue_add ?m (outgoingmsg st) (Some (calls ?h)) (length ?w) = Ok (0, q', m'')"
    "queue_rel m'' q' (outs @ [calls (nodes (smem st))])" "queue_locks q' = queue_locks (outgoingmsg st)"
    "heap_ok (nodes m'')" "no_fail (nodes m'')" "heap_ok (bufs m'')" "no_fail (bufs m'')"
    "holds m'' (calls (nodes (smem st))) ?w" "\<forall>a b. holds (smem st) a b \<longrightarrow> holds m'' a b"
    "\<forall>r bs. queue_rel (smem st) r bs \<longrightarrow> set outs \<inter> set bs = {} \<longrightarrow> queue_rel m'' r bs"
    using enqueue_complete [OF q mm refl, of ?w] by blast
  have "wimp_server_add st dest instr args (length a) = Ok (st\<lparr>outgoingmsg := q', smem := m''\<rparr>)"
    using e(1) by (simp add: wimp_server_add_def b)
  then show ?thesis using e(2-10) by (auto simp: mem_ok_def)
qed

section \<open>Sending\<close>

text \<open>The bytes put on one connection, in order.\<close>

definition con_bytes :: "nat option \<Rightarrow> (nat option \<times> bytes) list \<Rightarrow> bytes" where
  "con_bytes con log = concat (map snd (filter (\<lambda>x. fst x = con) log))"

lemma con_bytes_append [simp]: "con_bytes con (xs @ ys) = con_bytes con xs @ con_bytes con ys"
  by (simp add: con_bytes_def)

lemma con_bytes_map [simp]: "con_bytes con (map (Pair c) cs) = (if c = con then concat cs else [])"
  by (simp add: con_bytes_def comp_def filter_map)

text \<open>The documented result of a successful send call: at least one byte, at most those given.\<close>

definition sends_ok :: "(nat \<Rightarrow> nat \<Rightarrow> int) \<Rightarrow> nat \<Rightarrow> bool" where
  "sends_ok send_res k \<longleftrightarrow> (\<forall>i n. k \<le> i \<longrightarrow> 0 < n \<longrightarrow> 0 < send_res i n \<and> send_res i n \<le> int n)"

lemma send_chunks_done: "\<not> sent_bytes < n \<Longrightarrow> send_chunks (Suc fuel) res con w n sent_bytes st = Ok st"
  by (simp add: send_chunks.simps)

text \<open>One round of the sending loop.\<close>

lemma send_chunks_step:
  assumes "k < length w" and "length (sendbuffer st) = 512" and r: "r = res (sends st) (min (length w - k) 512)"
    and "r \<le> int (min (length w - k) 512)"
  shows "send_chunks (Suc fuel) res con w (length w) k st =
    send_chunks fuel res con w (length w) (to_size (int k + r))
      (st\<lparr>sends := Suc (sends st),
          sent := (if r < 0 then sent st else sent st @ [(con, take (nat r) (drop k w))]),
          sendbuffer := WIMP_ZERO_BUFFER\<rparr>)"
proof -
  let ?n = "min (length w - k) 512"
  have n: "(if length w - k > WIMP_MESSAGE_BUFFER_BYTES then WIMP_MESSAGE_BUFFER_BYTES else length w - k) = ?n"
    by (simp add: WIMP_MESSAGE_BUFFER_BYTES_def min_def)
  let ?b = "take ?n (drop k w)"
  have l: "length ?b = ?n" by simp
  obtain buf where wr: "write_at (sendbuffer st) 0 ?b = Ok buf" "take ?n buf = ?b"
    using write_at_here [of "sendbuffer st" 0 ?b] l assms(2) by (auto simp: write_at_def)
  have t: "take (nat r) ?b = take (nat r) (drop k w)" using assms(4) by (simp add: min_def)
  have d: "do_send res con (take ?n buf) st =
     (r, st\<lparr>sends := Suc (sends st), sent := (if r < 0 then sent st else sent st @ [(con, take (nat r) (drop k w))])\<rparr>)"
    unfolding wr(2) do_send_def Let_def l using t r by simp
  have g: "k + ?n \<le> length w" using assms(1) by simp
  show ?thesis
    unfolding send_chunks.simps Let_def n wr(1) bnd.simps d guard_or_True [OF g] prod.case
    using assms(1) by simp
qed

lemma send_chunks_all:
  assumes "sends_ok res (sends st)" and "k \<le> length w" and "length (sendbuffer st) = 512"
    and "length w < 2 ^ 31" and "length w - k < fuel"
  shows "\<exists>cs b i. send_chunks fuel res con w (length w) k st
      = Ok (st\<lparr>sends := i, sent := sent st @ map (Pair con) cs, sendbuffer := b\<rparr>)
    \<and> concat cs = drop k w \<and> (\<forall>c \<in> set cs. is_packet c) \<and> length b = 512 \<and> sends st \<le> i"
  using assms
proof (induction fuel arbitrary: k st)
  case 0
  then show ?case by simp
next
  case (Suc fuel)
  show ?case
  proof (cases "k < length w")
    case False
    then show ?thesis using Suc.prems
      by (intro exI [of _ "[]"] exI [of _ "sendbuffer st"] exI [of _ "sends st"]) (simp add: send_chunks_done)
  next
    case True
    let ?n = "min (length w - k) 512"
    define r where "r = res (sends st) ?n"
    have r: "0 < r" "r \<le> int ?n" using Suc.prems(1) True by (auto simp: sends_ok_def r_def)
    let ?c = "take (nat r) (drop k w)"
    let ?st = "st\<lparr>sends := Suc (sends st), sent := sent st @ [(con, ?c)], sendbuffer := WIMP_ZERO_BUFFER\<rparr>"
    have k: "to_size (int k + r) = k + nat r"
      using r Suc.prems(4) by (subst to_size_nonneg) (auto simp: nat_add_distrib)
    have kr: "k + nat r \<le> length w" "0 < nat r" using r True by auto
    have step: "send_chunks (Suc fuel) res con w (length w) k st = send_chunks fuel res con w (length w) (k + nat r) ?st"
      using send_chunks_step [of k w st r res fuel con, OF True Suc.prems(3) r_def r(2)] r(1) k by simp
    have ok: "sends_ok res (sends ?st)" using Suc.prems(1) by (simp add: sends_ok_def)
    have lb: "length (sendbuffer ?st) = 512" by (simp add: WIMP_ZERO_BUFFER_def WIMP_MESSAGE_BUFFER_BYTES_def)
    have fu: "length w - (k + nat r) < fuel" using Suc.prems(5) kr True by linarith
    obtain cs b i where IH: "send_chunks fuel res con w (length w) (k + nat r) ?st
        = Ok (?st\<lparr>sends := i, sent := sent ?st @ map (Pair con) cs, sendbuffer := b\<rparr>)"
      "concat cs = drop (k + nat r) w" "\<forall>c \<in> set cs. is_packet c" "length b = 512" "sends ?st \<le> i"
      using Suc.IH [OF ok kr(1) lb Suc.prems(4) fu] by blast
    have "concat (?c # cs) = drop k w"
      using IH(2) append_take_drop_id [of "nat r" "drop k w"] by (simp add: add.commute)
    moreover have "is_packet ?c" using r kr True by (auto simp: is_packet_def WIMP_MESSAGE_BUFFER_BYTES_def)
    ultimately show ?thesis using IH step
      by (intro exI [of _ "?c # cs"] exI [of _ b] exI [of _ i]) auto
  qed
qed

fun item_dest :: "wire_item \<Rightarrow> bytes" where
  "item_dest Ping = []"
| "item_dest (Instr source dest name a) = dest"

text \<open>Instructions for \<open>dest\<close> leave the server on the connection \<open>con\<close>.\<close>

definition routed_to :: "server_state \<Rightarrow> bytes \<Rightarrow> nat option \<Rightarrow> bool" where
  "routed_to st dest con \<longleftrightarrow> dest \<noteq> server_name st
     \<and> (\<exists>p d. send_target (WimpServer.truncate st) (Some dest) = Ok (Some p)
          \<and> cells (sprocs st) p = Some d \<and> process_active d \<noteq> 0 \<and> process_connection d = con)"

lemma send_target_cong:
  assumes "ptable s' = ptable s" and "parent s' = parent s"
  shows "send_target s' dest = send_target s dest"
  unfolding send_target_def assms ..

lemma truncate_fields [simp]:
  "ptable (WimpServer.truncate st) = ptable st" "parent (WimpServer.truncate st) = parent st"
  by (simp_all add: WimpServer.truncate_def)

lemma routed_to_cong:
  "server_name st' = server_name st \<Longrightarrow> ptable st' = ptable st \<Longrightarrow> parent st' = parent st \<Longrightarrow>
   sprocs st' = sprocs st \<Longrightarrow> routed_to st' dest con = routed_to st dest con"
  unfolding routed_to_def
  by (simp add: send_target_cong [of "WimpServer.truncate st'" "WimpServer.truncate st"])

lemma holdsE:
  assumes "holds m a w"
  obtains n b where "cells (nodes m) a = Some n" "instruction n = Some b" "cells (bufs m) b = Some w"
    "instruction_bytes n = length w" "buf_of m a = [b]"
  using assms
  by (auto simp: holds_def node_bytes_def payload_def buf_of_def split: option.splits)

lemma holds_node:
  assumes "holds m a w"
  shows "wimp_instr_get_from_node m a = wimp_instr_get_from_buffer (Some w) (length w)"
    and "node_string m a p = meta_string (Some w) p"
  using assms by (auto elim!: holdsE simp: wimp_instr_get_from_node_def node_buffer_def node_string_def)

text \<open>The memory after a node and its buffer are freed.\<close>

definition freed :: "mem \<Rightarrow> addr list \<Rightarrow> mem" where
  "freed m as = m\<lparr>nodes := (nodes m)\<lparr>cells := remove_keys (cells (nodes m)) (set as)\<rparr>,
     bufs := (bufs m)\<lparr>cells := remove_keys (cells (bufs m)) (set (concat (map (buf_of m) as)))\<rparr>\<rparr>"

lemma node_free_freed:
  assumes "holds m a w"
  shows "wimp_instr_node_free m a = Ok (freed m [a])"
  using assms node_free_eq [of m a] by (auto elim!: holdsE simp: freed_def)

text \<open>A sendable instruction: queued in node \<open>a\<close>, well-formed, and routed to a connection.\<close>

definition sendable :: "server_state \<Rightarrow> addr \<Rightarrow> wire_item \<times> nat option \<Rightarrow> bool" where
  "sendable st a x \<longleftrightarrow> holds (smem st) a (item_wire (fst x)) \<and> wf_item (fst x) \<and> fst x \<noteq> Ping
     \<and> routed_to st (item_dest (fst x)) (snd x)"

text \<open>One instruction: everything up to the chunks is determined by what the node holds.\<close>

lemma send_node_prefix:
  assumes s: "sendable st a (x, con)" and c: "send_chunks fuel res con (item_wire x) (length (item_wire x)) 0 st = Ok st'"
    and m: "smem st' = smem st"
  shows "send_node fuel res a st = Ok (st'\<lparr>smem := freed (smem st) [a]\<rparr>)"
proof -
  obtain source dest name arg where x: "x = Instr source dest name arg"
    using s by (cases x) (auto simp: sendable_def)
  let ?w = "instr_wire source dest name arg"
  have h: "holds (smem st) a ?w" and wf: "wf_item (Instr source dest name arg)" and r: "routed_to st dest con"
    using s by (simp_all add: sendable_def x)
  obtain n b where n: "cells (nodes (smem st)) a = Some n" "instruction n = Some b" "cells (bufs (smem st)) b = Some ?w"
    using h by (elim holdsE)
  obtain p d where p: "dest \<noteq> server_name st" "send_target (WimpServer.truncate st) (Some dest) = Ok (Some p)"
    "cells (sprocs st) p = Some d" "process_active d \<noteq> 0" "process_connection d = con"
    using r by (auto simp: routed_to_def)
  have c3: "cstring dest" "cstring source" "cstring name" using wf by simp_all
  have pa: "wimp_instr_get_from_buffer (Some ?w) (length ?w) = Ok (wire_meta source dest name arg)"
    using wf by (intro parse_wire) simp_all
  have ds: "node_string (smem st) a (dest_process (wire_meta source dest name arg)) = Ok (Some dest)"
    unfolding holds_node(2) [OF h] by (rule wire_meta_strings [OF c3])
  have tb: "total_bytes (wire_meta source dest name arg) = length ?w" by (simp add: wire_meta_def)
  have nf: "wimp_instr_node_free (smem st') a = Ok (freed (smem st) [a])"
    unfolding m by (rule node_free_freed [OF h])
  have nb: "node_buffer (smem st) n = Ok (Some ?w)" using n by (simp add: node_buffer_def)
  show ?thesis
    unfolding send_node_def holds_node(1) [OF h] pa bnd.simps hload_Some [OF n(1)] ds strings_equal_def
      prod.case option.case tb
    using p nf nb c by (simp add: x)
qed

lemma holds_freed:
  assumes "holds m c w" and "c \<notin> set as" and "set (buf_of m c) \<inter> set (concat (map (buf_of m) as)) = {}"
  shows "holds (freed m as) c w"
  using assms(1)
proof (elim holdsE)
  fix n b assume n: "cells (nodes m) c = Some n" "instruction n = Some b" "cells (bufs m) b = Some w"
    "instruction_bytes n = length w" "buf_of m c = [b]"
  then have "b \<notin> set (concat (map (buf_of m) as))" using assms(3) by auto
  then show ?thesis using n assms(2)
    by (simp add: holds_def node_bytes_def payload_def freed_def remove_keys_def)
qed

lemma buf_of_freed: "c \<notin> set as \<Longrightarrow> buf_of (freed m as) c = buf_of m c"
  by (simp add: buf_of_def freed_def remove_keys_def)

lemma freed_freed:
  assumes "a \<notin> set as"
  shows "freed (freed m [a]) as = freed m (a # as)"
proof -
  have b: "map (buf_of (freed m [a])) as = map (buf_of m) as" using assms by (auto intro!: buf_of_freed)
  show ?thesis unfolding freed_def [of "freed m [a]"] b
    by (auto simp: freed_def remove_keys_def fun_eq_iff intro!: mem.equality heap.equality)
qed

definition msg_bytes :: "nat option \<Rightarrow> (wire_item \<times> nat option) list \<Rightarrow> bytes" where
  "msg_bytes con msgs = stream_wire (map fst (filter (\<lambda>x. snd x = con) msgs))"

text \<open>What sending the nodes \<open>as\<close> with the instructions \<open>msgs\<close> makes of a server: only the outgoing
  queue, the memory, the send buffer and the log of sends change.\<close>

definition sent_all ::
    "server_state \<Rightarrow> addr list \<Rightarrow> (wire_item \<times> nat option) list \<Rightarrow> server_state \<Rightarrow> bool" where
  "sent_all st as msgs st' \<longleftrightarrow> smem st' = freed (smem st) as
     \<and> (\<exists>log. sent st' = sent st @ log \<and> (\<forall>con. con_bytes con log = msg_bytes con msgs)
          \<and> (\<forall>x \<in> set log. is_packet (snd x)))
     \<and> queue_rel (smem st') (outgoingmsg st') []
     \<and> queue_locks (outgoingmsg st') = queue_locks (outgoingmsg st)
     \<and> incomingmsg st' = incomingmsg st \<and> server_name st' = server_name st \<and> ptable st' = ptable st
     \<and> parent st' = parent st \<and> sprocs st' = sprocs st \<and> slocks st' = slocks st
     \<and> length (sendbuffer st') = 512"

lemma sent_all_Cons:
  assumes "sent_all st' as msgs st''" and m: "smem st' = freed (smem st) [a]" and a: "a \<notin> set as"
    and l: "sent st' = sent st @ map (Pair con) cs" "concat cs = item_wire x" "\<forall>c \<in> set cs. is_packet c"
    and "queue_locks (outgoingmsg st') = queue_locks (outgoingmsg st)" "incomingmsg st' = incomingmsg st"
      "server_name st' = server_name st" "ptable st' = ptable st" "parent st' = parent st"
      "sprocs st' = sprocs st" "slocks st' = slocks st"
  shows "sent_all st (a # as) ((x, con) # msgs) st''"
proof -
  obtain log where log: "sent st'' = sent st' @ log" "\<forall>con. con_bytes con log = msg_bytes con msgs"
    "\<forall>x \<in> set log. is_packet (snd x)" using assms(1) by (auto simp: sent_all_def)
  have "\<exists>log. sent st'' = sent st @ log \<and> (\<forall>c. con_bytes c log = msg_bytes c ((x, con) # msgs))
     \<and> (\<forall>x \<in> set log. is_packet (snd x))"
    using log l by (intro exI [of _ "map (Pair con) cs @ log"]) (auto simp: msg_bytes_def)
  moreover have "smem st'' = freed (smem st) (a # as)"
    using assms(1) freed_freed [OF a, of "smem st"] m by (simp add: sent_all_def)
  moreover have "queue_rel (smem st'') (outgoingmsg st'') []" using assms(1) unfolding sent_all_def by blast
  ultimately show ?thesis using assms(1,7-13) unfolding sent_all_def by auto
qed

lemma send_loop_all:
  assumes "queue_rel (smem st) (outgoingmsg st) as" and "list_all2 (sendable st) as msgs"
    and "bufs_owned (smem st) as" and "sends_ok res (sends st)" and "length (sendbuffer st) = 512"
    and "length as + (\<Sum>x \<leftarrow> msgs. length (item_wire (fst x))) < fuel"
  shows "\<exists>st'. send_loop fuel res st = Ok st' \<and> sent_all st as msgs st'"
  using assms
proof (induction as arbitrary: st msgs fuel)
  case Nil
  then obtain f where f: "fuel = Suc f" by (cases fuel) auto
  have n: "outgoingmsg (st\<lparr>outgoingmsg := outgoingmsg st\<rparr>) = outgoingmsg st" by simp
  have fr: "freed (smem st) [] = smem st" by (simp add: freed_def remove_keys_def)
  have "msgs = []" using Nil.prems(2) by simp
  then have "sent_all st [] msgs st"
    using Nil.prems(1,5) by (auto simp: sent_all_def fr con_bytes_def msg_bytes_def)
  moreover have "send_loop fuel res st = Ok st"
    using wq.pop_nil [OF Nil.prems(1)] by (simp add: f)
  ultimately show ?case by blast
next
  case (Cons a as)
  obtain x con msgs' where msgs: "msgs = (x, con) # msgs'" "sendable st a (x, con)" "list_all2 (sendable st) as msgs'"
    using Cons.prems(2) by (auto simp: list_all2_Cons1)
  obtain f where f: "fuel = Suc f"
    "length as + (\<Sum>x \<leftarrow> msgs'. length (item_wire (fst x))) + length (item_wire x) < f"
    using Cons.prems(6) msgs(1) by (cases fuel) auto
  obtain q1 where q1: "wimp_instr_queue_pop (smem st) (outgoingmsg st) = Ok (Some a, q1)"
    "queue_rel (smem st) q1 as" "queue_locks q1 = queue_locks (outgoingmsg st)"
    using wq.pop_cons [OF Cons.prems(1)] by blast
  let ?st = "st\<lparr>outgoingmsg := q1\<rparr>" and ?w = "item_wire x"
  have s1: "sendable ?st c y = sendable st c y" for c y
    by (simp add: sendable_def routed_to_cong [of ?st st])
  have wl: "length ?w < 2 ^ 31" using msgs(2) by (cases x) (auto simp: sendable_def)
  have ok1: "sends_ok res (sends ?st)" "length (sendbuffer ?st) = 512" "0 \<le> length ?w" "length ?w - 0 < f"
    using Cons.prems(4,5) f(2) by simp_all
  obtain cs b i where c: "send_chunks f res con ?w (length ?w) 0 ?st
      = Ok (?st\<lparr>sends := i, sent := sent ?st @ map (Pair con) cs, sendbuffer := b\<rparr>)"
    "concat cs = ?w" "\<forall>c \<in> set cs. is_packet c" "length b = 512" "sends ?st \<le> i"
    using send_chunks_all [where con = con, OF ok1(1,3,2) wl ok1(4)] by (simp only: drop_0) blast
  let ?st1 = "(?st\<lparr>sends := i, sent := sent ?st @ map (Pair con) cs, sendbuffer := b\<rparr>)\<lparr>smem := freed (smem ?st) [a]\<rparr>"
  have step: "send_node f res a ?st = Ok ?st1"
    using send_node_prefix [of ?st a x con, unfolded s1, OF msgs(2) c(1)] by simp
  have d: "a \<notin> set as" using wq.rel_distinct [OF Cons.prems(1)] by simp
  have disj: "set (buf_of (smem st) c) \<inter> set (buf_of (smem st) a) = {}" if "c \<in> set as" for c
    using Cons.prems(3) that by (auto simp: bufs_owned_def)
  have "queue_rel (smem ?st1) (outgoingmsg ?st1) as"
    using q1(2) d by (subst queue_rel_frame [of _ _ "smem st"]) (auto simp: freed_def remove_keys_def)
  moreover have "sendable ?st1 c y" if "c \<in> set as" "sendable st c y" for c y
  proof -
    have "c \<notin> set [a]" using that(1) d by auto
    then have "holds (freed (smem st) [a]) c (item_wire (fst y))"
      using that(2) disj [OF that(1)] by (intro holds_freed) (auto simp: sendable_def)
    moreover have "routed_to ?st1 d k = routed_to st d k" for d k by (rule routed_to_cong) simp_all
    ultimately show ?thesis using that(2) by (simp add: sendable_def)
  qed
  then have "list_all2 (sendable ?st1) as msgs'"
    using msgs(3) by (auto simp: list_all2_conv_all_nth)
  moreover have bo: "map (buf_of (freed (smem st) [a])) as = map (buf_of (smem st)) as"
    using d by (auto intro!: buf_of_freed)
  have "bufs_owned (smem ?st1) as"
    using Cons.prems(3) unfolding bufs_owned_def by (simp add: bo del: set_concat) (auto simp: freed_def remove_keys_def)
  moreover have "sends_ok res (sends ?st1)" using Cons.prems(4) c(5) by (simp add: sends_ok_def)
  moreover have "length (sendbuffer ?st1) = 512" using c(4) by simp
  moreover have "length as + (\<Sum>x \<leftarrow> msgs'. length (item_wire (fst x))) < f" using f(2) by simp
  ultimately obtain st' where st': "send_loop f res ?st1 = Ok st'" "sent_all ?st1 as msgs' st'"
    using Cons.IH by blast
  have "sent_all st (a # as) ((x, con) # msgs') st'"
    using st'(2) d c(2,3) q1(3) by (intro sent_all_Cons [OF st'(2)]) simp_all
  then show ?case using st'(1) step q1(1) f(1) msgs(1) by auto
qed

text \<open>Sending under the lock of the outgoing queue.\<close>

lemma send_instructions_eq:
  assumes "send_loop fuel res st = Ok st'" and "queue_locks (outgoingmsg st') = queue_locks (outgoingmsg st)"
    and "slocks st' = slocks st"
  shows "wimp_server_send_instructions fuel res st = Ok (WIMP_SERVER_SUCCESS,
    st'\<lparr>slocks := slocks st @ [MLock (nextmutex (outgoingmsg st)), MLock (datamutex (outgoingmsg st)),
      MUnlock (nextmutex (outgoingmsg st)), MUnlock (datamutex (outgoingmsg st))]\<rparr>)"
  using assms by (simp add: wimp_server_send_instructions_def wimp_instr_queue_high_prio_lock_def
      wimp_instr_queue_high_prio_unlock_def queue_locks_def)

text \<open>A queue of one instruction whose chunks leave only the log, the counter and the buffer changed.\<close>

lemma send_one:
  assumes q: "queue_rel (smem st) (outgoingmsg st) [a]" and s: "sendable st a (x, con)"
    and c: "\<And>q. \<exists>i log b. send_chunks (Suc fuel) res con (item_wire x) (length (item_wire x)) 0 (st\<lparr>outgoingmsg := q\<rparr>)
      = Ok (st\<lparr>outgoingmsg := q, sends := i, sent := log, sendbuffer := b\<rparr>) \<and> P log"
  shows "\<exists>st'. wimp_server_send_instructions (Suc (Suc fuel)) res st = Ok (WIMP_SERVER_SUCCESS, st')
    \<and> P (sent st') \<and> smem st' = freed (smem st) [a] \<and> queue_rel (smem st') (outgoingmsg st') []"
proof -
  obtain q1 where q1: "wimp_instr_queue_pop (smem st) (outgoingmsg st) = Ok (Some a, q1)"
    "queue_rel (smem st) q1 []" "queue_locks q1 = queue_locks (outgoingmsg st)"
    using wq.pop_cons [OF q] by blast
  obtain i log b where c1: "send_chunks (Suc fuel) res con (item_wire x) (length (item_wire x)) 0 (st\<lparr>outgoingmsg := q1\<rparr>)
      = Ok (st\<lparr>outgoingmsg := q1, sends := i, sent := log, sendbuffer := b\<rparr>)" "P log"
    using c [of q1] by blast
  let ?st = "st\<lparr>outgoingmsg := q1\<rparr>"
  let ?st1 = "(st\<lparr>outgoingmsg := q1, sends := i, sent := log, sendbuffer := b\<rparr>)\<lparr>smem := freed (smem st) [a]\<rparr>"
  have "routed_to ?st d k = routed_to st d k" for d k by (rule routed_to_cong) simp_all
  then have "sendable ?st a (x, con)" using s by (simp add: sendable_def)
  from send_node_prefix [OF this c1(1)] have n: "send_node (Suc fuel) res a ?st = Ok ?st1" by simp
  have e: "queue_rel (freed (smem st) [a]) q1 []" using q1(2) by (simp add: queue_rel_def)
  have "send_loop (Suc (Suc fuel)) res st = Ok ?st1"
    using q1(1) n wq.pop_nil [OF e] by (simp add: send_loop.simps(2) [of "Suc fuel"] send_loop.simps(2) [of fuel])
  from send_instructions_eq [OF this] q1(3) e c1(2) show ?thesis by simp
qed

lemma send_chunks_lost:
  assumes "w \<noteq> []" and "length w < 2 ^ 31" and "length (sendbuffer st) = 512" and "res (sends st) (min (length w) 512) = - 1"
  shows "send_chunks (Suc (Suc fuel)) res con w (length w) 0 st
    = Ok (st\<lparr>sends := Suc (sends st), sent := sent st, sendbuffer := WIMP_ZERO_BUFFER\<rparr>)"
proof -
  have "to_size (int 0 + - 1) = 2 ^ 64 - 1" using to_size_minus_one by simp
  then show ?thesis
    using assms send_chunks_step [of 0 w st "- 1" res "Suc fuel" con] send_chunks_done by simp
qed

text \<open>A failed call after \<open>k\<close> bytes sets the count back to \<open>k - 1\<close>.\<close>

lemma send_chunks_retry:
  assumes l: "512 < length w" "length w < 2 ^ 31" and b: "length (sendbuffer st) = 512"
    and r: "res (sends st) 512 = 512" "res (Suc (sends st)) (min (length w - 512) 512) = - 1"
    and ok: "sends_ok res (Suc (Suc (sends st)))" and f: "length w + 2 < fuel"
  shows "\<exists>cs i b. send_chunks fuel res con w (length w) 0 st
      = Ok (st\<lparr>sends := i, sent := sent st @ map (Pair con) cs, sendbuffer := b\<rparr>)
    \<and> concat cs = take 512 w @ drop 511 w"
proof -
  obtain f0 where f0: "fuel = Suc (Suc f0)" "length w - 511 < f0"
    using f l by (metis Suc_lessE add_2_eq_Suc' less_imp_diff_less Suc_less_eq)
  let ?z = WIMP_ZERO_BUFFER
  let ?st1 = "st\<lparr>sends := Suc (sends st), sent := sent st @ [(con, take 512 w)], sendbuffer := ?z\<rparr>"
  let ?st2 = "st\<lparr>sends := Suc (Suc (sends st)), sent := sent st @ [(con, take 512 w)], sendbuffer := ?z\<rparr>"
  have w: "w \<noteq> []" using l by auto
  have z: "length (sendbuffer ?st1) = 512" "length (sendbuffer ?st2) = 512"
    by (simp_all add: WIMP_ZERO_BUFFER_def WIMP_MESSAGE_BUFFER_BYTES_def)
  have m: "min (length w - 0) 512 = 512" using l by simp
  have "to_size (int 0 + 512) = 512" "to_size (int 512 + - 1) = 511" by (simp_all add: to_size_def)
  then have 1: "send_chunks fuel res con w (length w) 0 st = send_chunks (Suc f0) res con w (length w) 512 ?st1"
    and 2: "send_chunks (Suc f0) res con w (length w) 512 ?st1 = send_chunks f0 res con w (length w) 511 ?st2"
    using send_chunks_step [of 0 w st 512 res "Suc f0" con] send_chunks_step [of 512 w ?st1 "- 1" res f0 con]
      l b r m z(1) f0(1) w by simp_all
  have k: "511 \<le> length w" and ok2: "sends_ok res (sends ?st2)" using l ok by simp_all
  obtain cs b' i where 3: "send_chunks f0 res con w (length w) 511 ?st2
      = Ok (?st2\<lparr>sends := i, sent := sent ?st2 @ map (Pair con) cs, sendbuffer := b'\<rparr>)"
    "concat cs = drop 511 w"
    using send_chunks_all [where con = con, OF ok2 k z(2) l(2) f0(2)] by blast
  have "send_chunks fuel res con w (length w) 0 st
      = Ok (st\<lparr>sends := i, sent := sent st @ map (Pair con) (take 512 w # cs), sendbuffer := b'\<rparr>)"
    unfolding 1 2 3(1) by simp
  then show ?thesis using 3(2) by (intro exI [of _ "take 512 w # cs"] exI [of _ i] exI [of _ b']) simp
qed

text \<open>The loopback case: the incoming queue's new node owns the buffer that is then freed.\<close>

lemma send_node_loopback:
  assumes q: "queue_rel (smem st) (incomingmsg st) ins" and m: "heap_ok (nodes (smem st))" "no_fail (nodes (smem st))"
    and h: "holds (smem st) a (item_wire x)" and wf: "wf_item x" "x \<noteq> Ping" and d: "item_dest x = server_name st"
    and ins: "a \<notin> set ins"
  shows "\<exists>st' c. send_node fuel res a st = Ok st' \<and> queue_rel (smem st') (incomingmsg st') (ins @ [c])
    \<and> wimp_instr_get_from_node (smem st') c = Fault UseAfterFree \<and> sent st' = sent st
    \<and> outgoingmsg st' = outgoingmsg st \<and> slocks st' = slocks st"
proof -
  obtain source name arg where x: "x = Instr source (server_name st) name arg"
    using wf(2) d by (cases x) auto
  let ?me = "server_name st"
  let ?w = "instr_wire source ?me name arg" and ?c = "calls (nodes (smem st))"
  have h: "holds (smem st) a ?w" using h by (simp add: x)
  obtain n b where n: "cells (nodes (smem st)) a = Some n" "instruction n = Some b"
    "cells (bufs (smem st)) b = Some ?w" "buf_of (smem st) a = [b]"
    using h by (elim holdsE)
  have wf: "wf_item (Instr source ?me name arg)" using wf(1) x by simp
  have c3: "cstring ?me" "cstring source" "cstring name" using wf by simp_all
  have pa: "wimp_instr_get_from_buffer (Some ?w) (length ?w) = Ok (wire_meta source ?me name arg)"
    using wf by (intro parse_wire) simp_all
  have ds: "node_string (smem st) a (dest_process (wire_meta source ?me name arg)) = Ok (Some ?me)"
    unfolding holds_node(2) [OF h] by (rule wire_meta_strings [OF c3])
  let ?k = "total_bytes (wire_meta source ?me name arg)"
  obtain q' m' where a: "wimp_instr_queue_add (smem st) (incomingmsg st) (Some b) ?k = Ok (0, q', m')"
    "queue_rel m' q' (ins @ [?c])" "bufs m' = bufs (smem st)"
    "payload m' = (payload (smem st))(?c \<mapsto> (Some b, ?k))"
    using queue_add_rel [OF q m] by blast
  have "a \<noteq> ?c" using n(1) m(1) by (auto simp: heap_ok_def)
  then have pa': "payload m' a = payload (smem st) a" by (simp add: a(4))
  have cell: "map_option instruction (cells (nodes m') k) = map_option fst (payload m' k)" for k
    by (simp add: payload_def option.map_comp comp_def)
  obtain n' where n': "cells (nodes m') a = Some n'" "instruction n' = Some b"
    using cell [of a] pa' n(1,2) by (auto simp: payload_def)
  obtain nc where nc: "cells (nodes m') ?c = Some nc" "instruction nc = Some b"
    using cell [of ?c] by (auto simp: a(4))
  have bo: "buf_of m' a = [b]" using n' by (simp add: buf_of_def)
  have al: "\<forall>b \<in> set (buf_of m' a). cells (bufs m') b \<noteq> None" using n(3) by (simp add: bo a(3))
  have na: "cells (nodes m') a \<noteq> None" using n'(1) by simp
  have nf: "wimp_instr_node_free m' a = Ok (freed m' [a])"
    using node_free_eq [OF na al] by (simp add: freed_def)
  have "send_node fuel res a st = Ok (st\<lparr>incomingmsg := q', smem := freed m' [a]\<rparr>)"
    unfolding send_node_def holds_node(1) [OF h] pa bnd.simps hload_Some [OF n(1)] ds strings_equal_def
      prod.case option.case n(2) by (simp add: a(1) nf)
  moreover have "queue_rel (freed m' [a]) q' (ins @ [?c])"
    using a(2) \<open>a \<noteq> ?c\<close> ins by (subst queue_rel_frame [of _ _ m']) (auto simp: freed_def remove_keys_def)
  moreover have "wimp_instr_get_from_node (freed m' [a]) ?c = Fault UseAfterFree"
    using nc \<open>a \<noteq> ?c\<close> by (simp add: wimp_instr_get_from_node_def node_buffer_def freed_def remove_keys_def bo hload_def)
  ultimately show ?thesis by (intro exI [of _ "st\<lparr>incomingmsg := q', smem := freed m' [a]\<rparr>"] exI [of _ ?c]) simp
qed

section \<open>Waiting for a response\<close>

fun item_name :: "wire_item \<Rightarrow> bytes" where
  "item_name Ping = []"
| "item_name (Instr source dest name a) = name"

text \<open>The nodes \<open>as\<close> hold the instructions \<open>xs\<close>, each in a buffer of its own.\<close>

definition item_at :: "mem \<Rightarrow> addr \<Rightarrow> wire_item \<Rightarrow> bool" where
  "item_at m a x \<longleftrightarrow> holds m a (item_wire x) \<and> wf_item x \<and> x \<noteq> Ping"

definition stored :: "mem \<Rightarrow> addr list \<Rightarrow> wire_item list \<Rightarrow> bool" where
  "stored m as xs \<longleftrightarrow> list_all2 (item_at m) as xs \<and> distinct as \<and> distinct (concat (map (buf_of m) as))"

lemma buf_of_payload: "buf_of m a = (case payload m a of Some (Some b, _) \<Rightarrow> [b] | _ \<Rightarrow> [])"
  by (auto simp: buf_of_def payload_def split: option.splits)

lemma holds_payload:
  "holds m a w \<longleftrightarrow> (\<exists>b. payload m a = Some (Some b, length w) \<and> cells (bufs m) b = Some w)"
  by (auto simp: holds_def node_bytes_def payload_def split: option.splits)

lemma stored_same:
  assumes "same_payload m m'"
  shows "stored m' as xs \<longleftrightarrow> stored m as xs"
proof -
  have p: "payload m' = payload m" "bufs m' = bufs m" using assms by (simp_all add: same_payload_def)
  have "item_at m' = item_at m" by (auto simp: item_at_def holds_payload p fun_eq_iff)
  moreover have "buf_of m' = buf_of m" by (auto simp: buf_of_payload p fun_eq_iff)
  ultimately show ?thesis by (simp add: stored_def)
qed

lemma mem_ok_payload: "mem_ok m \<longleftrightarrow> (\<forall>a. payload m a \<noteq> None \<longrightarrow> a < calls (nodes m)) \<and> no_fail (nodes m)
    \<and> heap_ok (bufs m) \<and> no_fail (bufs m)"
  by (simp add: mem_ok_def heap_ok_def payload_def)

lemma mem_ok_same: "same_payload m m' \<Longrightarrow> mem_ok m \<Longrightarrow> mem_ok m'"
  by (simp add: mem_ok_payload same_payload_def no_fail_def)

lemma stored_alloc: "stored m as xs \<Longrightarrow> a \<in> set as \<Longrightarrow> payload m a \<noteq> None \<and> (\<forall>b \<in> set (buf_of m a). cells (bufs m) b \<noteq> None)"
  by (auto simp: stored_def item_at_def holds_payload buf_of_payload list_all2_conv_all_nth in_set_conv_nth)

lemma item_name_at:
  assumes "item_at m a x"
  shows "\<exists>meta. wimp_instr_get_from_node m a = Ok meta \<and> node_string m a (m_instr meta) = Ok (Some (item_name x))"
proof -
  obtain source dest name arg where x: "x = Instr source dest name arg" using assms by (cases x) (auto simp: item_at_def)
  let ?w = "instr_wire source dest name arg"
  have h: "holds m a ?w" and wf: "wf_item (Instr source dest name arg)" using assms by (simp_all add: item_at_def x)
  have c3: "cstring dest" "cstring source" "cstring name" using wf by simp_all
  have "wimp_instr_get_from_buffer (Some ?w) (length ?w) = Ok (wire_meta source dest name arg)"
    using wf by (intro parse_wire) simp_all
  then show ?thesis
    using wire_meta_strings(3) [OF c3] by (simp add: holds_node [OF h] x)
qed

text \<open>One delivered instruction goes to the back of the queue, in a fresh node and a fresh buffer.\<close>

lemma deliver_stored:
  assumes q: "queue_rel m q as" and m: "mem_ok m" and s: "stored m (ts @ as) zs"
    and x: "wf_item x" "x \<noteq> Ping"
  shows "\<exists>q' m' c. deliver m q (item_wire x) = Ok (q', m') \<and> queue_rel m' q' (as @ [c]) \<and> mem_ok m'
    \<and> stored m' (ts @ as @ [c]) (zs @ [x]) \<and> queue_locks q' = queue_locks q
    \<and> (\<forall>r. queue_rel m r ts \<longrightarrow> queue_rel m' r ts)"
proof -
  let ?h = "bufs m" and ?w = "item_wire x" and ?c = "calls (nodes m)"
  let ?m = "m\<lparr>bufs := ?h\<lparr>cells := (cells ?h)(calls ?h \<mapsto> ?w), calls := Suc (calls ?h)\<rparr>\<rparr>"
  have mm: "heap_ok (nodes m)" "no_fail (nodes m)" "heap_ok ?h" "no_fail ?h"
    using m by (simp_all add: mem_ok_def)
  obtain q' m' where e: "wimp_instr_queue_add ?m q (Some (calls ?h)) (length ?w) = Ok (0, q', m')"
    "queue_rel m' q' (as @ [?c])" "queue_locks q' = queue_locks q"
    "heap_ok (nodes m')" "no_fail (nodes m')" "heap_ok (bufs m')" "no_fail (bufs m')"
    "holds m' ?c ?w" "\<forall>a b. holds m a b \<longrightarrow> holds m' a b"
    "\<forall>r bs. queue_rel m r bs \<longrightarrow> set as \<inter> set bs = {} \<longrightarrow> queue_rel m' r bs"
    "payload m' = (payload m)(?c \<mapsto> (Some (calls ?h), length ?w))"
    using enqueue_complete [OF q mm refl, of ?w] by blast
  have d: "deliver m q ?w = Ok (q', m')"
    using e(1) mm(4) by (simp add: deliver_def halloc_def no_fail_def)
  have fc: "payload m ?c = None" using heap_ok_fresh [OF mm(1)] by (simp add: payload_def)
  then have nin: "?c \<notin> set (ts @ as)" using stored_alloc [OF s] by blast
  have b: "buf_of m' a = buf_of m a" if "a \<in> set (ts @ as)" for a
    using nin that by (auto simp: buf_of_payload e(11))
  have bc: "buf_of m' ?c = [calls ?h]" by (simp add: buf_of_payload e(11))
  have mp: "map (buf_of m') (ts @ as) = map (buf_of m) (ts @ as)"
    using b by (intro map_cong refl)
  have "calls ?h \<notin> set (concat (map (buf_of m) (ts @ as)))"
  proof
    assume "calls ?h \<in> set (concat (map (buf_of m) (ts @ as)))"
    then obtain a where "a \<in> set (ts @ as)" "calls ?h \<in> set (buf_of m a)" by auto
    then show False using stored_alloc [OF s] heap_ok_fresh [OF mm(3)] by blast
  qed
  then have dis: "distinct (concat (map (buf_of m') ((ts @ as) @ [?c])))"
    using s unfolding map_append [of _ "ts @ as"] mp by (simp add: bc stored_def)
  have "list_all2 (item_at m') (ts @ as) zs"
    using s e(9) by (auto simp: stored_def item_at_def elim!: list_all2_mono)
  moreover have "item_at m' ?c x" using e(8) x by (simp add: item_at_def)
  ultimately have "list_all2 (item_at m') ((ts @ as) @ [?c]) (zs @ [x])" by (intro list_all2_appendI) simp_all
  then have "stored m' (ts @ as @ [?c]) (zs @ [x])" using dis nin s by (auto simp: stored_def)
  moreover have "set as \<inter> set ts = {}" using s by (auto simp: stored_def)
  ultimately show ?thesis using d e(2-7,10) by (auto simp: mem_ok_def)
qed

lemma deliver_all_stored:
  assumes "queue_rel m q as" and "mem_ok m" and "stored m (ts @ as) (ys @ xs)" and "queue_rel m r ts"
    and "\<forall>x \<in> set zs. wf_item x \<and> x \<noteq> Ping"
  shows "\<exists>q' m' cs. deliver_all m q (map item_wire zs) = Ok (q', m') \<and> queue_rel m' q' (as @ cs) \<and> mem_ok m'
    \<and> stored m' (ts @ as @ cs) (ys @ xs @ zs) \<and> queue_locks q' = queue_locks q \<and> queue_rel m' r ts"
  using assms
proof (induction zs arbitrary: m q as xs)
  case Nil
  then show ?case by (auto intro!: exI [of _ "[]"])
next
  case (Cons z zs)
  obtain q1 m1 c where d: "deliver m q (item_wire z) = Ok (q1, m1)" "queue_rel m1 q1 (as @ [c])" "mem_ok m1"
    "stored m1 (ts @ as @ [c]) ((ys @ xs) @ [z])" "queue_locks q1 = queue_locks q" "queue_rel m1 r ts"
    using deliver_stored [OF Cons.prems(1-3), of z] Cons.prems(4,5) by auto
  have s: "stored m1 (ts @ (as @ [c])) (ys @ (xs @ [z]))" using d(4) by simp
  obtain q' m' cs where "deliver_all m1 q1 (map item_wire zs) = Ok (q', m')" "queue_rel m' q' ((as @ [c]) @ cs)" "mem_ok m'"
    "stored m' (ts @ (as @ [c]) @ cs) (ys @ (xs @ [z]) @ zs)" "queue_locks q' = queue_locks q1" "queue_rel m' r ts"
    using Cons.IH [OF d(2,3) s d(6)] Cons.prems(5) by auto
  then show ?case using d(1,5) by (auto intro!: exI [of _ "c # cs"])
qed

definition stops :: "bytes \<Rightarrow> wire_item \<Rightarrow> bool" where
  "stops instr x \<longleftrightarrow> item_name x = instr \<or> item_name x = WIMP_INSTRUCTION_EXIT"

lemma stored_Cons: "stored m (ts @ a # as) (ys @ x # xs) \<Longrightarrow> length ts = length ys \<Longrightarrow> item_at m a x"
  by (auto simp: stored_def list_all2_append)

text \<open>An instruction that does not end the scan moves to the temporary queue.\<close>

lemma scan_step:
  assumes q: "queue_rel m q (a # as)" and t: "queue_rel m tmp ts" and s: "stored m (ts @ a # as) (ys @ x # xs)"
    and l: "length ts = length ys" and n: "\<not> stops instr x"
  shows "\<exists>q' tmp' m'. scan_loop (Suc fuel) instr m q tmp = scan_loop fuel instr m' q' tmp'
    \<and> queue_rel m' q' as \<and> queue_rel m' tmp' (ts @ [a]) \<and> same_payload m m'
    \<and> queue_locks q' = queue_locks q \<and> queue_locks tmp' = queue_locks tmp"
proof -
  obtain q1 where q1: "wimp_instr_queue_pop m q = Ok (Some a, q1)" "queue_rel m q1 as" "queue_locks q1 = queue_locks q"
    using wq.pop_cons [OF q] by blast
  have d: "a \<notin> set ts" "a \<notin> set as" "set ts \<inter> set as = {}" using s by (auto simp: stored_def)
  obtain tmp1 m1 where p: "wimp_instr_queue_add_existing m tmp a = Ok (0, tmp1, m1)" "queue_rel m1 tmp1 (ts @ [a])"
    "queue_locks tmp1 = queue_locks tmp" "same_payload m m1" "queue_rel m1 q1 as"
    using wq.push_snoc [OF t wq.rel_owns [OF q, of a] d(1)] q1(2) d by auto
  obtain meta where "wimp_instr_get_from_node m a = Ok meta" "node_string m a (m_instr meta) = Ok (Some (item_name x))"
    using item_name_at [OF stored_Cons [OF s l]] by blast
  then have "scan_loop (Suc fuel) instr m q tmp = scan_loop fuel instr m1 q1 tmp1"
    using q1(1) p(1) n by (simp add: stops_def wimp_instr_check_def strings_equal_def)
  then show ?thesis using q1 p by blast
qed

lemma scan_none:
  assumes "queue_rel m q as" and "queue_rel m tmp ts" and "stored m (ts @ as) (ys @ xs)"
    and "length ts = length ys" and "\<forall>x \<in> set xs. \<not> stops instr x" and "length as < fuel"
  shows "\<exists>q' tmp' m'. scan_loop fuel instr m q tmp = Ok (Exhausted, q', tmp', m')
    \<and> queue_rel m' q' [] \<and> queue_rel m' tmp' (ts @ as) \<and> same_payload m m'
    \<and> queue_locks q' = queue_locks q \<and> queue_locks tmp' = queue_locks tmp"
  using assms
proof (induction as arbitrary: m q tmp ts ys xs fuel)
  case Nil
  then obtain f where "fuel = Suc f" by (cases fuel) auto
  then show ?case using Nil wq.pop_nil [OF Nil.prems(1)] by (auto simp: same_payload_def)
next
  case (Cons a as)
  have "length (a # as) = length xs" using Cons.prems(3,4) by (auto simp: stored_def dest!: list_all2_lengthD)
  then obtain x xs' where xs: "xs = x # xs'" by (cases xs) auto
  obtain f where f: "fuel = Suc f" "length as < f" using Cons.prems(6) by (cases fuel) auto
  have n: "\<not> stops instr x" "\<forall>x \<in> set xs'. \<not> stops instr x" using Cons.prems(5) xs by auto
  obtain q1 tmp1 m1 where s1: "scan_loop fuel instr m q tmp = scan_loop f instr m1 q1 tmp1"
    "queue_rel m1 q1 as" "queue_rel m1 tmp1 (ts @ [a])" "same_payload m m1"
    "queue_locks q1 = queue_locks q" "queue_locks tmp1 = queue_locks tmp"
    using scan_step [OF Cons.prems(1,2) Cons.prems(3) [unfolded xs] Cons.prems(4) n(1), of f] f(1) by blast
  have "stored m1 ((ts @ [a]) @ as) ((ys @ [x]) @ xs')" "length (ts @ [a]) = length (ys @ [x])"
    using Cons.prems(3,4) stored_same [OF s1(4)] xs by simp_all
  note IH = Cons.IH [OF s1(2,3) this n(2) f(2)]
  then obtain q' tmp' m' where "scan_loop f instr m1 q1 tmp1 = Ok (Exhausted, q', tmp', m')"
    "queue_rel m' q' []" "queue_rel m' tmp' ((ts @ [a]) @ as)" "same_payload m1 m'"
    "queue_locks q' = queue_locks q1" "queue_locks tmp' = queue_locks tmp1"
    using IH by blast
  then show ?case using s1 wq.frame_trans [OF s1(4)] by auto
qed

definition scan_post ::
    "bytes \<Rightarrow> wire_item \<Rightarrow> wire_item list \<Rightarrow> wire_item list \<Rightarrow> addr option \<Rightarrow> addr list \<Rightarrow> addr list \<Rightarrow>
     WimpInstrQueue \<Rightarrow> WimpInstrQueue \<Rightarrow> mem \<Rightarrow> bool" where
  "scan_post instr x kept post node ts bs q tmp m \<longleftrightarrow>
     queue_rel m q bs \<and> queue_rel m tmp ts \<and> stored m (ts @ bs) (kept @ post) \<and> length ts = length kept \<and> mem_ok m
     \<and> (if item_name x = instr then \<exists>a. node = Some a \<and> holds m a (item_wire x) \<and> a \<notin> set (ts @ bs) else node = None)"

lemma stored_remove:
  assumes "stored m (ts @ a # as) (ys @ x # xs)" and "length ts = length ys"
  shows "stored m (ts @ as) (ys @ xs)" and "stored (freed m [a]) (ts @ as) (ys @ xs)"
proof -
  show s: "stored m (ts @ as) (ys @ xs)"
    using assms by (auto simp: stored_def list_all2_append intro!: list_all2_appendI)
  have d: "a \<notin> set (ts @ as)" "\<forall>c \<in> set (ts @ as). set (buf_of m c) \<inter> set (buf_of m a) = {}"
    using assms(1) by (auto simp: stored_def)
  have "item_at (freed m [a]) c y" if "c \<in> set (ts @ as)" "item_at m c y" for c y
  proof -
    have "c \<notin> set [a]" using d(1) that(1) by auto
    moreover have "set (buf_of m c) \<inter> set (concat (map (buf_of m) [a])) = {}"
      using bspec [OF d(2) that(1)] by simp
    ultimately show ?thesis using that(2) holds_freed [of m c _ "[a]"] by (simp add: item_at_def)
  qed
  moreover have "list_all2 (item_at m) (ts @ as) (ys @ xs)" using s by (simp add: stored_def)
  ultimately have "list_all2 (item_at (freed m [a])) (ts @ as) (ys @ xs)"
    by (rule list.rel_mono_strong [rotated])
  moreover have "map (buf_of (freed m [a])) (ts @ as) = map (buf_of m) (ts @ as)"
    using d(1) by (intro map_cong refl buf_of_freed) auto
  ultimately show "stored (freed m [a]) (ts @ as) (ys @ xs)" using s by (simp only: stored_def simp_thms)
qed

lemma mem_ok_freed: "mem_ok m \<Longrightarrow> mem_ok (freed m as)"
  by (auto simp: mem_ok_def freed_def heap_ok_def no_fail_def remove_keys_def)

lemma queue_rel_freed: "queue_rel m q bs \<Longrightarrow> a \<notin> set bs \<Longrightarrow> queue_rel (freed m [a]) q bs"
  by (subst queue_rel_frame [of _ _ m]) (auto simp: freed_def remove_keys_def)

lemma scan_found:
  assumes "queue_rel m q as" and "queue_rel m tmp ts" and "stored m (ts @ as) (ys @ pre @ x # post)"
    and "length ts = length ys" and "\<forall>x \<in> set pre. \<not> stops instr x" and "stops instr x"
    and "length as < fuel" and "mem_ok m"
  shows "\<exists>res q' tmp' m' node ts' bs. scan_loop fuel instr m q tmp = Ok (res, q', tmp', m')
    \<and> scan_post instr x (ys @ pre) post node ts' bs q' tmp' m'
    \<and> res = (case node of Some a \<Rightarrow> Found a | None \<Rightarrow> Exited)
    \<and> queue_locks q' = queue_locks q \<and> queue_locks tmp' = queue_locks tmp"
  using assms
proof (induction pre arbitrary: m q tmp ts ys as fuel)
  case Nil
  have "length as = Suc (length post)" using Nil.prems(3,4) by (auto simp: stored_def dest!: list_all2_lengthD)
  then obtain a bs where as: "as = a # bs" by (cases as) auto
  obtain f where f: "fuel = Suc f" using Nil.prems(7) by (cases fuel) auto
  obtain q1 where q1: "wimp_instr_queue_pop m q = Ok (Some a, q1)" "queue_rel m q1 bs" "queue_locks q1 = queue_locks q"
    using wq.pop_cons Nil.prems(1) as by blast
  have s: "stored m (ts @ a # bs) (ys @ x # post)" using Nil.prems(3) as by simp
  have at: "item_at m a x" using stored_Cons [OF s Nil.prems(4)] .
  obtain meta where nm: "wimp_instr_get_from_node m a = Ok meta" "node_string m a (m_instr meta) = Ok (Some (item_name x))"
    using item_name_at [OF at] by blast
  have h: "holds m a (item_wire x)" using at by (simp add: item_at_def)
  have d: "a \<notin> set (ts @ bs)" using s by (auto simp: stored_def)
  note r = stored_remove [OF s Nil.prems(4)]
  show ?case
  proof (cases "item_name x = instr")
    case True
    then have "scan_loop fuel instr m q tmp = Ok (Found a, q1, tmp, m)"
      using q1(1) nm f by (simp add: wimp_instr_check_def strings_equal_def)
    moreover have "scan_post instr x (ys @ []) post (Some a) ts bs q1 tmp m"
      using True h d q1(2) Nil.prems(2,4,8) r(1) by (simp add: scan_post_def)
    ultimately show ?thesis using q1(3) by (intro exI conjI) (assumption | simp)+
  next
    case False
    then have "item_name x = WIMP_INSTRUCTION_EXIT" using Nil.prems(6) by (simp add: stops_def)
    then have "scan_loop fuel instr m q tmp = Ok (Exited, q1, tmp, freed m [a])"
      using q1(1) nm f False node_free_freed [OF h] by (simp add: wimp_instr_check_def strings_equal_def)
    moreover have "scan_post instr x (ys @ []) post None ts bs q1 tmp (freed m [a])"
      using False d q1(2) Nil.prems(2,4,8) r(2) by (simp add: scan_post_def mem_ok_freed queue_rel_freed)
    ultimately show ?thesis using q1(3) by (intro exI conjI) (assumption | simp)+
  qed
next
  case (Cons y pre)
  have "length as = Suc (length (pre @ x # post))" using Cons.prems(3,4) by (auto simp: stored_def dest!: list_all2_lengthD)
  then obtain a bs where as: "as = a # bs" by (cases as) auto
  obtain f where f: "fuel = Suc f" "length bs < f" using Cons.prems(7) as by (cases fuel) auto
  have n: "\<not> stops instr y" "\<forall>x \<in> set pre. \<not> stops instr x" using Cons.prems(5) by auto
  have s: "stored m (ts @ a # bs) (ys @ y # pre @ x # post)" using Cons.prems(3) as by simp
  obtain q1 tmp1 m1 where s1: "scan_loop fuel instr m q tmp = scan_loop f instr m1 q1 tmp1"
    "queue_rel m1 q1 bs" "queue_rel m1 tmp1 (ts @ [a])" "same_payload m m1"
    "queue_locks q1 = queue_locks q" "queue_locks tmp1 = queue_locks tmp"
    using scan_step [OF Cons.prems(1) [unfolded as] Cons.prems(2) s Cons.prems(4) n(1), of f] f(1) by blast
  have "stored m1 ((ts @ [a]) @ bs) ((ys @ [y]) @ pre @ x # post)" "length (ts @ [a]) = length (ys @ [y])"
    using s Cons.prems(4) stored_same [OF s1(4)] by simp_all
  from Cons.IH [OF s1(2,3) this n(2) Cons.prems(6) f(2) mem_ok_same [OF s1(4) Cons.prems(8)]]
  have "\<exists>res q' tmp' m' node ts' bs. scan_loop f instr m1 q1 tmp1 = Ok (res, q', tmp', m')
    \<and> scan_post instr x ((ys @ [y]) @ pre) post node ts' bs q' tmp' m'
    \<and> res = (case node of Some a \<Rightarrow> Found a | None \<Rightarrow> Exited)
    \<and> queue_locks q' = queue_locks q1 \<and> queue_locks tmp' = queue_locks tmp1"
    .
  then show ?case using s1(1,5,6) by simp
qed

lemma split_first:
  assumes "us @ vs = pre @ x # post" and "\<forall>y \<in> set us. \<not> P y" and "P x"
  shows "\<exists>pre'. pre = us @ pre' \<and> vs = pre' @ x # post"
proof -
  obtain zs where "us = pre @ zs \<and> zs @ vs = x # post \<or> us @ zs = pre \<and> vs = zs @ x # post"
    using assms(1) by (auto simp: append_eq_append_conv2)
  then show ?thesis using assms(2,3) by (cases zs) auto
qed

definition lock_round :: "WimpInstrQueue \<Rightarrow> mutex_call list" where
  "lock_round q = wimp_instr_queue_high_prio_lock q @ wimp_instr_queue_high_prio_unlock q"

lemma lock_round_cong: "queue_locks q' = queue_locks q \<Longrightarrow>
    wimp_instr_queue_high_prio_lock q' = wimp_instr_queue_high_prio_lock q
  \<and> wimp_instr_queue_high_prio_unlock q' = wimp_instr_queue_high_prio_unlock q \<and> lock_round q' = lock_round q"
  by (simp add: queue_locks_def lock_round_def wimp_instr_queue_high_prio_lock_def wimp_instr_queue_high_prio_unlock_def)

lemma wait_loop_spec:
  assumes "queue_rel m q as" and "queue_rel m tmp ts" and "stored m (ts @ as) (ys @ xs)" and "length ts = length ys"
    and "mem_ok m"
    and "\<forall>j \<le> n. arrivals (i + j) = map item_wire (arr j) \<and> (\<forall>x \<in> set (arr j). wf_item x \<and> x \<noteq> Ping)"
    and "xs @ concat (map arr [0..<Suc n]) = pre @ x # post" and "\<forall>x \<in> set pre. \<not> stops instr x" "stops instr x"
    and "\<forall>x \<in> set (xs @ concat (map arr [0..<n])). \<not> stops instr x" and "n < fuel"
  shows "\<exists>node q' tmp' m' ts' bs.
      wait_loop fuel i arrivals instr m q tmp = Ok (node, concat (replicate (Suc n) (lock_round q)), q', tmp', m')
    \<and> scan_post instr x (ys @ pre) post node ts' bs q' tmp' m'
    \<and> queue_locks q' = queue_locks q \<and> queue_locks tmp' = queue_locks tmp"
  using assms
proof (induction n arbitrary: m q as tmp ts ys xs arr i pre fuel)
  case 0
  obtain f where f: "fuel = Suc f" using 0(11) by (cases fuel) auto
  have arr: "arrivals i = map item_wire (arr 0)" "\<forall>x \<in> set (arr 0). wf_item x \<and> x \<noteq> Ping"
    using 0(6) by auto
  obtain q1 m1 cs where d: "deliver_all m q (arrivals i) = Ok (q1, m1)" "queue_rel m1 q1 (as @ cs)" "mem_ok m1"
    "stored m1 (ts @ as @ cs) (ys @ xs @ arr 0)" "queue_locks q1 = queue_locks q" "queue_rel m1 tmp ts"
    using deliver_all_stored [OF 0(1,5,3,2) arr(2)] arr(1) by auto
  have eq: "xs @ arr 0 = pre @ x # post" using 0(7) by simp
  have s: "stored m1 (ts @ (as @ cs)) (ys @ pre @ x # post)" using d(4) eq by simp
  have fu: "length (as @ cs) < Suc (calls (nodes m1))"
    using d(3) by (intro queue_length [OF d(2)]) (simp add: mem_ok_def)
  obtain res q' tmp' m' node ts' bs where r:
    "scan_loop (Suc (calls (nodes m1))) instr m1 q1 tmp = Ok (res, q', tmp', m')"
    "scan_post instr x (ys @ pre) post node ts' bs q' tmp' m'"
    "res = (case node of Some a \<Rightarrow> Found a | None \<Rightarrow> Exited)"
    "queue_locks q' = queue_locks q1" "queue_locks tmp' = queue_locks tmp"
    using scan_found [OF d(2,6) s 0(4,8,9) fu d(3)] by blast
  have l: "queue_locks q' = queue_locks q" using r(4) d(5) by simp
  have "wait_loop fuel i arrivals instr m q tmp = Ok (node, concat (replicate (Suc 0) (lock_round q)), q', tmp', m')"
    using d(1) r(1,3) lock_round_cong [OF l] lock_round_cong [OF d(5)]
    by (cases node) (simp_all add: f Let_def lock_round_def)
  then show ?case using r(2,5) l by blast
next
  case (Suc n)
  obtain f where f: "fuel = Suc f" "n < f" using Suc.prems(11) by (cases fuel) auto
  have arr: "arrivals i = map item_wire (arr 0)" "\<forall>x \<in> set (arr 0). wf_item x \<and> x \<noteq> Ping"
    using spec [OF Suc.prems(6), of 0] by auto
  obtain q1 m1 cs where d: "deliver_all m q (arrivals i) = Ok (q1, m1)" "queue_rel m1 q1 (as @ cs)" "mem_ok m1"
    "stored m1 (ts @ as @ cs) (ys @ xs @ arr 0)" "queue_locks q1 = queue_locks q" "queue_rel m1 tmp ts"
    using deliver_all_stored [OF Suc.prems(1,5,3,2) arr(2)] arr(1) by auto
  have split: "map arr [0..<Suc k] = arr 0 # map (arr \<circ> Suc) [0..<k]" for k
    by (induction k) auto
  have ns: "\<forall>x \<in> set (xs @ arr 0). \<not> stops instr x" "\<forall>x \<in> set ([] @ concat (map (arr \<circ> Suc) [0..<n])). \<not> stops instr x"
    using Suc.prems(10) unfolding split by auto
  have "(xs @ arr 0) @ concat (map (arr \<circ> Suc) [0..<Suc n]) = pre @ x # post"
    using Suc.prems(7) unfolding split by simp
  then obtain pre' where pre: "pre = (xs @ arr 0) @ pre'" "[] @ concat (map (arr \<circ> Suc) [0..<Suc n]) = pre' @ x # post"
    using split_first [OF _ ns(1) Suc.prems(9)] by (metis append_Nil)
  have fu: "length (as @ cs) < Suc (calls (nodes m1))"
    using d(3) by (intro queue_length [OF d(2)]) (simp add: mem_ok_def)
  have s: "stored m1 (ts @ (as @ cs)) (ys @ (xs @ arr 0))" using d(4) by simp
  obtain q2 tmp2 m2 where r: "scan_loop (Suc (calls (nodes m1))) instr m1 q1 tmp = Ok (Exhausted, q2, tmp2, m2)"
    "queue_rel m2 q2 []" "queue_rel m2 tmp2 (ts @ as @ cs)" "same_payload m1 m2"
    "queue_locks q2 = queue_locks q1" "queue_locks tmp2 = queue_locks tmp"
    using scan_none [OF d(2,6) s Suc.prems(4) ns(1) fu] by blast
  have s2: "stored m2 ((ts @ as @ cs) @ []) ((ys @ xs @ arr 0) @ [])" using d(4) stored_same [OF r(4)] by simp
  have len: "length (ts @ as @ cs) = length (ys @ xs @ arr 0)"
    using s2 by (auto simp: stored_def dest!: list_all2_lengthD)
  have arr': "\<forall>j \<le> n. arrivals (Suc i + j) = map item_wire ((arr \<circ> Suc) j)
      \<and> (\<forall>x \<in> set ((arr \<circ> Suc) j). wf_item x \<and> x \<noteq> Ping)"
    using Suc.prems(6) by (auto dest: spec [of _ "Suc _"])
  have npre: "\<forall>x \<in> set pre'. \<not> stops instr x" using Suc.prems(8) pre(1) by auto
  obtain node q' tmp' m' ts' bs where w:
    "wait_loop f (Suc i) arrivals instr m2 q2 tmp2 = Ok (node, concat (replicate (Suc n) (lock_round q2)), q', tmp', m')"
    "scan_post instr x ((ys @ xs @ arr 0) @ pre') post node ts' bs q' tmp' m'"
    "queue_locks q' = queue_locks q2" "queue_locks tmp' = queue_locks tmp2"
    using Suc.IH [OF r(2,3) s2 len mem_ok_same [OF r(4) d(3)] arr' pre(2) npre Suc.prems(9) ns(2) f(2)] by blast
  have l: "queue_locks q2 = queue_locks q" using r(5) d(5) by simp
  have "wait_loop fuel i arrivals instr m q tmp = Ok (node, lock_round q @ concat (replicate (Suc n) (lock_round q2)), q', tmp', m')"
    using d(1) r(1) w(1) lock_round_cong [OF l] lock_round_cong [OF d(5)]
    by (simp add: f(1) Let_def lock_round_def)
  then show ?case using w(2-4) l r(6) lock_round_cong [OF l] pre(1) by auto
qed

lemma queue_free_empty:
  "queue_rel m q [] \<Longrightarrow> wimp_instr_queue_free m q = Ok ([MFree (datamutex q), MFree (nextmutex q), MFree (lowpriomutex q)], m)"
  using wq.pop_nil [of m q] by (simp add: wimp_instr_queue_free_def)

lemma wait_response_spec:
  assumes q: "queue_rel (smem st) (incomingmsg st) as" and s: "stored (smem st) as xs" and m: "mem_ok (smem st)"
    and arr: "\<forall>j \<le> n. arrivals j = map item_wire (arr j) \<and> (\<forall>x \<in> set (arr j). wf_item x \<and> x \<noteq> Ping)"
    and x: "xs @ concat (map arr [0..<Suc n]) = pre @ x # post" "\<forall>x \<in> set pre. \<not> stops instr x" "stops instr x"
    and first: "\<forall>x \<in> set (xs @ concat (map arr [0..<n])). \<not> stops instr x" and f: "n < fuel"
  shows "\<exists>node st' cs. wimp_server_wait_response fuel arrivals (d, nx, l) st instr timeout = Ok (node, st')
    \<and> queue_rel (smem st') (incomingmsg st') cs \<and> stored (smem st') cs (pre @ post) \<and> mem_ok (smem st')
    \<and> (if item_name x = instr then \<exists>a. node = Some a \<and> holds (smem st') a (item_wire x) \<and> a \<notin> set cs else node = None)
    \<and> queue_locks (incomingmsg st') = (d, nx, l)
    \<and> slocks st' = slocks st @ concat (replicate (Suc n) (lock_round (incomingmsg st)))
        @ wimp_instr_queue_high_prio_lock (incomingmsg st) @ [MUnlock d]
        @ [MFree (datamutex (incomingmsg st)), MFree (nextmutex (incomingmsg st)), MFree (lowpriomutex (incomingmsg st))]"
proof -
  let ?tmp = "wimp_create_instr_queue d nx l" and ?q = "incomingmsg st"
  have t: "queue_rel (smem st) ?tmp []" by (simp add: queue_rel_def wimp_create_instr_queue_def)
  have s0: "stored (smem st) ([] @ as) ([] @ xs)" using s by simp
  have l0: "length ([] :: addr list) = length ([] :: wire_item list)" by simp
  have arr0: "\<forall>j \<le> n. arrivals (0 + j) = map item_wire (arr j) \<and> (\<forall>x \<in> set (arr j). wf_item x \<and> x \<noteq> Ping)"
    using arr by simp
  obtain node q' tmp' m' ts bs where w:
    "wait_loop fuel 0 arrivals instr (smem st) ?q ?tmp = Ok (node, concat (replicate (Suc n) (lock_round ?q)), q', tmp', m')"
    "scan_post instr x ([] @ pre) post node ts bs q' tmp' m'"
    "queue_locks q' = queue_locks ?q" "queue_locks tmp' = queue_locks ?tmp"
    using wait_loop_spec [OF q t s0 l0 m arr0 x first f] by blast
  have p: "queue_rel m' q' bs" "queue_rel m' tmp' ts" "stored m' (ts @ bs) (pre @ post)" "mem_ok m'"
    "if item_name x = instr then \<exists>a. node = Some a \<and> holds m' a (item_wire x) \<and> a \<notin> set (ts @ bs) else node = None"
    using w(2) by (auto simp: scan_post_def)
  have dj: "set bs \<inter> set ts = {}" "heap_ok (nodes m')" using p(3,4) by (auto simp: stored_def mem_ok_def)
  obtain q2 tmp2 m2 where j: "wimp_instr_queue_prepend_queue m' (Some q') (Some tmp') = Ok (0, Some q2, Some tmp2, m2)"
    "queue_rel m2 q2 (ts @ bs)" "queue_rel m2 tmp2 []" "queue_locks q2 = queue_locks tmp'"
    "queue_locks tmp2 = queue_locks q'" "same_payload m' m2"
    using prepend_queue_rel [OF p(1,2) dj] by blast
  have lq: "queue_locks q2 = (d, nx, l)" "queue_locks tmp2 = queue_locks ?q"
    using j(4,5) w(3,4) by (simp_all add: queue_locks_def wimp_create_instr_queue_def)
  have fr: "wimp_instr_queue_free m2 tmp2 = Ok ([MFree (datamutex ?q), MFree (nextmutex ?q), MFree (lowpriomutex ?q)], m2)"
    using queue_free_empty [OF j(3)] lq(2) by (simp add: queue_locks_def)
  have un: "wimp_instr_queue_high_prio_unlock q2 = [MUnlock d]"
    using lq(1) by (simp add: queue_locks_def wimp_instr_queue_high_prio_unlock_def)
  have lk: "wimp_instr_queue_high_prio_lock q' = wimp_instr_queue_high_prio_lock ?q" using lock_round_cong [OF w(3)] by blast
  let ?st = "st\<lparr>incomingmsg := q2, smem := m2, slocks := slocks st @ concat (replicate (Suc n) (lock_round ?q))
        @ wimp_instr_queue_high_prio_lock ?q @ [MUnlock d]
        @ [MFree (datamutex ?q), MFree (nextmutex ?q), MFree (lowpriomutex ?q)]\<rparr>"
  have "wimp_server_wait_response fuel arrivals (d, nx, l) st instr timeout = Ok (node, ?st)"
    unfolding wimp_server_wait_response_def prod.case Let_def w(1) bnd.simps j(1) lk
    using fr un by (simp add: WIMP_INSTRUCTION_SUCCESS_def)
  moreover have "stored m2 (ts @ bs) (pre @ post)" "mem_ok m2"
    using p(3,4) j(6) by (simp_all add: stored_same mem_ok_same)
  moreover have "holds m2 a w \<longleftrightarrow> holds m' a w" for a w
    using j(6) by (simp add: holds_payload same_payload_def)
  ultimately show ?thesis using j(2) p(5) lq(1)
    by (intro exI [of _ node] exI [of _ ?st] exI [of _ "ts @ bs"]) (auto split: if_splits)
qed

section \<open>Accepting connections\<close>

text \<open>The first message of a receiver: what \<open>wimp_reciever_init\<close> sends.\<close>

definition handshake_message :: "bytes \<Rightarrow> bytes" where
  "handshake_message name =
     int32_bytes WIMP_RECIEVER_HANDSHAKE @ le_bytes 4 (length name + 1) @ name @ [NUL]"

lemma handshake_parse:
  assumes "cstring name"
  shows "read_int32 (handshake_message name @ rest) 0 = Ok WIMP_RECIEVER_HANDSHAKE"
    and "cstr_at (handshake_message name @ rest) 8 = Ok name"
  using read_int32_at [of "0x706d6977" "handshake_message name @ rest" "[]" _ 0]
    cstr_at_append [OF assms, of "int32_bytes WIMP_RECIEVER_HANDSHAKE @ le_bytes 4 (length name + 1)" rest]
  by (simp_all add: handshake_message_def WIMP_RECIEVER_HANDSHAKE_def int32_bytes_def)

lemma ptable_set:
  assumes ok: "ptable_ok procs t" and g: "wimp_process_table_get t (Some name) = Ok (WIMP_PROCESS_TABLE_SUCCESS, Some p)"
  shows "ptable_ok (procs\<lparr>cells := (cells procs)(p \<mapsto> d)\<rparr>) t"
    and "ptable_map (procs\<lparr>cells := (cells procs)(p \<mapsto> d)\<rparr>) t = (ptable_map procs t)(name \<mapsto> d)"
proof -
  obtain h where h: "hash_table t = Some h" "hash_ok h" "heap_ok procs" "table_length t = of_nat (entry_count h)"
    "\<forall>k a. hash_lookup h k = Some a \<longrightarrow> cells procs a \<noteq> None"
    "\<forall>k k' a. hash_lookup h k = Some a \<longrightarrow> hash_lookup h k' = Some a \<longrightarrow> k = k'"
    using ok by (elim ptable_okE)
  have p: "hash_lookup h name = Some p"
    using g by (auto simp: table_get_eq [OF h(1,2)] ptable_consts split: option.splits)
  have "cells procs p \<noteq> None" using h(5) p by blast
  then have ho: "heap_ok (procs\<lparr>cells := (cells procs)(p \<mapsto> d)\<rparr>)" using h(3) by (auto simp: heap_ok_def)
  then show "ptable_ok (procs\<lparr>cells := (cells procs)(p \<mapsto> d)\<rparr>) t"
    unfolding ptable_ok_def using h by (intro conjI exI [of _ h]) auto
  show "ptable_map (procs\<lparr>cells := (cells procs)(p \<mapsto> d)\<rparr>) t = (ptable_map procs t)(name \<mapsto> d)"
  proof
    fix k
    show "ptable_map (procs\<lparr>cells := (cells procs)(p \<mapsto> d)\<rparr>) t k = ((ptable_map procs t)(name \<mapsto> d)) k"
      using h(1,6) p by (auto simp: ptable_map_def split: option.splits)
  qed
qed

text \<open>A well-formed handshake from an expected process in the table.\<close>

lemma accept_handshake:
  assumes ok: "ptable_ok (a_procs a) (ptable (a_server a))" and d: "ptable_map (a_procs a) (ptable (a_server a)) name = Some d"
    and n: "name \<in> set pnames" "cstring name"
  shows "\<exists>a'. accept_connection pnames con (Some (handshake_message name)) a = Ok (False, a')
    \<and> ptable (a_server a') = ptable (a_server a) \<and> ptable_ok (a_procs a') (ptable (a_server a'))
    \<and> ptable_map (a_procs a') (ptable (a_server a)) = (ptable_map (a_procs a) (ptable (a_server a)))(name \<mapsto>
        d\<lparr>process_connection := Some con, process_active := WIMP_PROCESS_ACTIVE\<rparr>)
    \<and> accepted_count a' = accepted_count a + 1 \<and> failure_reason a' = failure_reason a
    \<and> a_sent a' = a_sent a @ [(con, handshake_reply)]
    \<and> parent (a_server a') = (if process_relation d = WIMP_Process_Parent \<and> parent (a_server a) = None
        then Some name else parent (a_server a))
    \<and> server_name (a_server a') = server_name (a_server a) \<and> incomingmsg (a_server a') = incomingmsg (a_server a)
    \<and> outgoingmsg (a_server a') = outgoingmsg (a_server a) \<and> sendbuffer (a_server a') = WIMP_ZERO_BUFFER"
proof -
  let ?m = "handshake_message name" and ?t = "ptable (a_server a)"
  let ?buf = "?m @ drop (length ?m) (s_recbuffer (a_server a))"
  obtain p where p: "wimp_process_table_get ?t (Some name) = Ok (WIMP_PROCESS_TABLE_SUCCESS, Some p)"
    "cells (a_procs a) p = Some d"
    using ptable_map_get [OF ok, of name] d by auto
  have ne: "?m \<noteq> []" by (simp add: handshake_message_def)
  note hd = handshake_parse [OF n(2), of "drop (length ?m) (s_recbuffer (a_server a))"]
  let ?d = "d\<lparr>process_connection := Some con, process_active := WIMP_PROCESS_ACTIVE\<rparr>"
  have st: "hstore (a_procs a) p ?d = Ok ((a_procs a)\<lparr>cells := (cells (a_procs a))(p \<mapsto> ?d)\<rparr>)"
    using p(2) by simp
  show ?thesis
    using ne n(1) p ptable_set [OF ok p(1), of ?d] st
    by (simp add: accept_connection_def Let_def hd)
qed

text \<open>Whatever connects, only processes that were named can become active.\<close>

lemma accept_connection_safe:
  assumes "accept_connection pnames con msg a = Ok (again, a')"
  shows "ptable (a_server a') = ptable (a_server a)
    \<and> (\<forall>p. cells (a_procs a') p \<noteq> cells (a_procs a) p \<longrightarrow> (\<exists>name \<in> set pnames.
          wimp_process_table_get (ptable (a_server a)) (Some name) = Ok (WIMP_PROCESS_TABLE_SUCCESS, Some p)))
    \<and> (parent (a_server a') \<noteq> parent (a_server a) \<longrightarrow> (\<exists>name \<in> set pnames. parent (a_server a') = Some name))
    \<and> accepted_count a' \<le> accepted_count a + (if again then 0 else 1)
    \<and> (failure_reason a' = failure_reason a \<or> failure_reason a' = WIMP_SERVER_UNEXPECTED_PROCESS)"
proof (cases "\<exists>bs. msg = Some bs \<and> bs \<noteq> []")
  case False
  then have "accept_connection pnames con msg a = Ok (False, a)"
    by (cases msg) (simp_all add: accept_connection_def)
  then show ?thesis using assms by simp
next
  case True
  then obtain bs where bs: "msg = Some bs" "bs \<noteq> []" by blast
  let ?buf = "bs @ drop (length bs) (s_recbuffer (a_server a))"
  let ?a = "a\<lparr>a_server := (a_server a)\<lparr>s_recbuffer := ?buf\<rparr>\<rparr>"
  obtain header where h: "read_int32 ?buf 0 = Ok header"
    using assms bs by (auto simp: accept_connection_def Let_def outcome_simps)
  show ?thesis
  proof (cases "header = WIMP_RECIEVER_HANDSHAKE")
    case False
    then show ?thesis using assms bs h by (auto simp: accept_connection_def Let_def)
  next
    case hs: True
    obtain name where n: "cstr_at ?buf 8 = Ok name"
      using assms bs h hs by (auto simp: accept_connection_def Let_def outcome_simps)
    show ?thesis
    proof (cases "name \<in> set pnames")
      case False
      then show ?thesis using assms bs h hs n by (auto simp: accept_connection_def Let_def)
    next
      case nm: True
      obtain r procdat where g: "wimp_process_table_get (ptable (a_server a)) (Some name) = Ok (r, procdat)"
        using assms bs h hs n nm by (auto simp: accept_connection_def Let_def outcome_simps)
      show ?thesis
      proof (cases "r = WIMP_PROCESS_TABLE_SUCCESS")
        case False
        then show ?thesis using assms bs h hs n nm g by (auto simp: accept_connection_def Let_def)
      next
        case r: True
        have e: "accept_connection pnames con msg a = bnd (deref procdat) (\<lambda>p. bnd (hload (a_procs a) p) (\<lambda>d.
            bnd (hstore (a_procs a) p (d\<lparr>process_connection := Some con, process_active := WIMP_PROCESS_ACTIVE\<rparr>)) (\<lambda>procs.
            Ok (False, ?a\<lparr>a_server := (if process_relation d = WIMP_Process_Parent \<and> parent (a_server a) = None
                then (a_server a)\<lparr>s_recbuffer := ?buf, parent := Some name\<rparr>
                else (a_server a)\<lparr>s_recbuffer := ?buf\<rparr>)
                  \<lparr>s_recbuffer := WIMP_ZERO_BUFFER, sendbuffer := WIMP_ZERO_BUFFER\<rparr>,
              a_procs := procs, a_sent := a_sent a @ [(con, handshake_reply)],
              accepted_count := accepted_count a + 1\<rparr>))))"
          using bs h hs n nm g r by (simp add: accept_connection_def Let_def)
        obtain p where p: "procdat = Some p" using assms e by (cases procdat) simp_all
        obtain d where d: "cells (a_procs a) p = Some d"
          using assms e p by (auto simp: outcome_simps heap_simps)
        show ?thesis using assms nm g r unfolding e p
          by (auto simp: d split: if_splits)
      qed
    qed
  qed
qed

lemma accept_loop_safe:
  assumes "accept_loop fuel accepts pnames left k a = Ok a'"
  shows "ptable (a_server a') = ptable (a_server a)
    \<and> (\<forall>p. cells (a_procs a') p \<noteq> cells (a_procs a) p \<longrightarrow> (\<exists>name \<in> set pnames.
          wimp_process_table_get (ptable (a_server a)) (Some name) = Ok (WIMP_PROCESS_TABLE_SUCCESS, Some p)))
    \<and> (parent (a_server a') \<noteq> parent (a_server a) \<longrightarrow> (\<exists>name \<in> set pnames. parent (a_server a') = Some name))
    \<and> accepted_count a' \<le> accepted_count a + left
    \<and> (failure_reason a' = failure_reason a \<or> failure_reason a' = WIMP_SERVER_UNEXPECTED_PROCESS)"
  using assms
proof (induction fuel accepts pnames left k a arbitrary: a' rule: accept_loop.induct)
  case (1 fuel accepts pnames k a)
  then show ?case by simp
next
  case (2 accepts pnames left k a)
  then show ?case by simp
next
  case (3 fuel accepts pnames left k a)
  show ?case
  proof (cases "accepts k")
    case None
    then show ?thesis using "3.IH"(1) [OF None] "3.prems" by auto
  next
    case (Some x)
    obtain con msg where x: "accepts k = Some (con, msg)" using Some by (cases x) auto
    obtain again a1 where a1: "accept_connection pnames con msg a = Ok (again, a1)"
      "accept_loop fuel accepts pnames (if again then Suc left else left) (Suc k) a1 = Ok a'"
      using "3.prems" x by (auto simp: outcome_simps)
    note c = accept_connection_safe [OF a1(1)]
    have "ptable (a_server a') = ptable (a_server a1)
    \<and> (\<forall>p. cells (a_procs a') p \<noteq> cells (a_procs a1) p \<longrightarrow> (\<exists>name \<in> set pnames.
          wimp_process_table_get (ptable (a_server a1)) (Some name) = Ok (WIMP_PROCESS_TABLE_SUCCESS, Some p)))
    \<and> (parent (a_server a') \<noteq> parent (a_server a1) \<longrightarrow> (\<exists>name \<in> set pnames. parent (a_server a') = Some name))
    \<and> accepted_count a' \<le> accepted_count a1 + (if again then Suc left else left)
    \<and> (failure_reason a' = failure_reason a1 \<or> failure_reason a' = WIMP_SERVER_UNEXPECTED_PROCESS)"
      using "3.IH"(2) [OF x refl a1(1) refl a1(2)] by simp
    then show ?thesis using c by (cases again) (auto; metis)+
  qed
qed

text \<open>A handshake from a process that is not expected is tried again and leaves only its message in the
  receive buffer.\<close>

lemma accept_unexpected:
  assumes "name \<notin> set pnames" and "cstring name"
  shows "accept_connection pnames con (Some (handshake_message name)) a = Ok (True, a\<lparr>
    a_server := (a_server a)\<lparr>s_recbuffer := handshake_message name @ drop (length (handshake_message name)) (s_recbuffer (a_server a))\<rparr>,
    failure_reason := WIMP_SERVER_UNEXPECTED_PROCESS\<rparr>)"
proof -
  let ?m = "handshake_message name"
  let ?buf = "?m @ drop (length ?m) (s_recbuffer (a_server a))"
  have ne: "?m \<noteq> []" by (simp add: handshake_message_def)
  note b = handshake_parse [OF assms(2), of "drop (length ?m) (s_recbuffer (a_server a))"]
  show ?thesis using ne assms(1) by (simp add: accept_connection_def Let_def b)
qed

end
