(* ===== verification/Wimp_Server_Spec.thy ===== *)
theory Wimp_Server_Spec
  imports Wimp_Server
begin

section \<open>What the server promises\<close>

text \<open>
  The behaviour of whole server calls: accepting the processes that were asked for, checking a
  connection, telling the children to exit, and the properties of the server.
\<close>

subsection \<open>Accepting everybody\<close>

definition activated :: "nat \<Rightarrow> WimpProcessData \<Rightarrow> WimpProcessData" where
  "activated con d = d\<lparr>process_connection := Some con, process_active := WIMP_PROCESS_ACTIVE\<rparr>"

text \<open>Every process of \<open>names\<close> connects once, in order: the loop accepts them all and activates them.\<close>

lemma accept_all:
  assumes "ptable_ok (a_procs a) (ptable (a_server a))" and "distinct names"
    and "\<forall>n \<in> set names. n \<in> set pnames \<and> cstring n \<and> ptable_map (a_procs a) (ptable (a_server a)) n \<noteq> None"
    and "\<forall>j < length names. accepts (k + j) = Some (con (k + j), Some (handshake_message (names ! j)))"
    and "length names \<le> fuel"
  shows "\<exists>a'. accept_loop fuel accepts pnames (length names) k a = Ok a'
    \<and> accepted_count a' = accepted_count a + length names \<and> failure_reason a' = failure_reason a
    \<and> ptable (a_server a') = ptable (a_server a) \<and> ptable_ok (a_procs a') (ptable (a_server a'))
    \<and> (\<forall>n. n \<notin> set names \<longrightarrow> ptable_map (a_procs a') (ptable (a_server a)) n = ptable_map (a_procs a) (ptable (a_server a)) n)
    \<and> (\<forall>j < length names. ptable_map (a_procs a') (ptable (a_server a)) (names ! j)
          = map_option (activated (con (k + j))) (ptable_map (a_procs a) (ptable (a_server a)) (names ! j)))
    \<and> a_sent a' = a_sent a @ map (\<lambda>j. (con (k + j), handshake_reply)) [0..<length names]"
  using assms
proof (induction names arbitrary: fuel k a)
  case Nil
  then show ?case by simp
next
  case (Cons n names)
  obtain f where f: "fuel = Suc f" "length names \<le> f" using Cons.prems(5) by (cases fuel) auto
  obtain d where d: "ptable_map (a_procs a) (ptable (a_server a)) n = Some d" using Cons.prems(3) by auto
  have n: "n \<in> set pnames" "cstring n" using Cons.prems(3) by auto
  obtain a1 where a1: "accept_connection pnames (con k) (Some (handshake_message n)) a = Ok (False, a1)"
    "ptable (a_server a1) = ptable (a_server a)" "ptable_ok (a_procs a1) (ptable (a_server a1))"
    "ptable_map (a_procs a1) (ptable (a_server a)) = (ptable_map (a_procs a) (ptable (a_server a)))(n \<mapsto> activated (con k) d)"
    "accepted_count a1 = accepted_count a + 1" "failure_reason a1 = failure_reason a"
    "a_sent a1 = a_sent a @ [(con k, handshake_reply)]"
    using accept_handshake [OF Cons.prems(1) d n, of "con k"] unfolding activated_def by blast
  have "\<forall>m \<in> set names. m \<in> set pnames \<and> cstring m \<and> ptable_map (a_procs a1) (ptable (a_server a1)) m \<noteq> None"
    using Cons.prems(3) by (auto simp: a1(2,4))
  moreover have "\<forall>j < length names. accepts (Suc k + j) = Some (con (Suc k + j), Some (handshake_message (names ! j)))"
    using Cons.prems(4) by (auto dest: spec [of _ "Suc _"])
  moreover have "distinct names" using Cons.prems(2) by simp
  ultimately obtain a' where a': "accept_loop f accepts pnames (length names) (Suc k) a1 = Ok a'"
    "accepted_count a' = accepted_count a1 + length names" "failure_reason a' = failure_reason a1"
    "ptable (a_server a') = ptable (a_server a1)" "ptable_ok (a_procs a') (ptable (a_server a'))"
    "\<forall>m. m \<notin> set names \<longrightarrow> ptable_map (a_procs a') (ptable (a_server a1)) m = ptable_map (a_procs a1) (ptable (a_server a1)) m"
    "\<forall>j < length names. ptable_map (a_procs a') (ptable (a_server a1)) (names ! j)
          = map_option (activated (con (Suc k + j))) (ptable_map (a_procs a1) (ptable (a_server a1)) (names ! j))"
    "a_sent a' = a_sent a1 @ map (\<lambda>j. (con (Suc k + j), handshake_reply)) [0..<length names]"
    using Cons.IH [OF a1(3) _ _ _ f(2)] by blast
  have "accepts k = Some (con k, Some (handshake_message n))" using spec [OF Cons.prems(4), of 0] by simp
  then have run: "accept_loop fuel accepts pnames (length (n # names)) k a = Ok a'"
    using a1(1) a'(1) f(1) by simp
  have nn: "n \<notin> set names" using Cons.prems(2) by simp
  have "\<forall>j < length (n # names). ptable_map (a_procs a') (ptable (a_server a)) ((n # names) ! j)
          = map_option (activated (con (k + j))) (ptable_map (a_procs a) (ptable (a_server a)) ((n # names) ! j))"
  proof (intro allI impI)
    fix j assume j: "j < length (n # names)"
    show "ptable_map (a_procs a') (ptable (a_server a)) ((n # names) ! j)
          = map_option (activated (con (k + j))) (ptable_map (a_procs a) (ptable (a_server a)) ((n # names) ! j))"
    proof (cases j)
      case 0
      then show ?thesis using a'(6) nn d by (simp add: a1(2,4))
    next
      case (Suc i)
      then have "names ! i \<noteq> n" "i < length names" using nn j by auto
      then show ?thesis using a'(7) Suc by (simp add: a1(2,4))
    qed
  qed
  moreover have "map (\<lambda>j. (con (k + j), handshake_reply)) [0..<length (n # names)]
      = (con k, handshake_reply) # map (\<lambda>j. (con (Suc k + j), handshake_reply)) [0..<length names]"
    by (simp add: upt_conv_Cons map_Suc_upt [symmetric] comp_def del: upt_Suc map_Suc_upt)
  moreover have "\<forall>m. m \<notin> set (n # names) \<longrightarrow>
      ptable_map (a_procs a') (ptable (a_server a)) m = ptable_map (a_procs a) (ptable (a_server a)) m"
    using a'(6) by (simp add: a1(2,4))
  ultimately show ?case using run a' a1 by (intro exI [of _ a']) simp
qed

subsection \<open>Checking a connection\<close>

lemma check_listening_eq:
  assumes ok: "ptable_ok (sprocs st) (ptable st)"
  shows "ptable_map (sprocs st) (ptable st) name = None \<Longrightarrow>
      wimp_server_check_process_listening res st name = Ok (False, st)"
    and "ptable_map (sprocs st) (ptable st) name = Some d \<Longrightarrow> process_active d = 0 \<Longrightarrow>
      wimp_server_check_process_listening res st name = Ok (False, st)"
    and "ptable_map (sprocs st) (ptable st) name = Some d \<Longrightarrow> process_active d \<noteq> 0 \<Longrightarrow> res (sends st) 4 \<noteq> - 1 \<Longrightarrow>
      wimp_server_check_process_listening res st name
        = Ok (True, snd (do_send res (process_connection d) ping_bytes st))"
    and "ptable_map (sprocs st) (ptable st) name = Some d \<Longrightarrow> process_active d \<noteq> 0 \<Longrightarrow> res (sends st) 4 = - 1 \<Longrightarrow>
      ptable_removable (ptable st) name \<Longrightarrow>
      \<exists>t procs. wimp_server_check_process_listening res st name
          = Ok (False, st\<lparr>sends := Suc (sends st), ptable := t, sprocs := procs\<rparr>)
        \<and> ptable_ok procs t \<and> ptable_map procs t = (ptable_map (sprocs st) (ptable st))(name := None)"
proof -
  have lp: "length ping_bytes = 4" by (simp add: ping_bytes_def)
  note g = ptable_map_get [OF ok, of name]
  show "wimp_server_check_process_listening res st name = Ok (False, st)"
    if "ptable_map (sprocs st) (ptable st) name = None"
    using g that by (auto simp: wimp_server_check_process_listening_def)
  show "wimp_server_check_process_listening res st name = Ok (False, st)"
    if "ptable_map (sprocs st) (ptable st) name = Some d" "process_active d = 0"
    using g that by (auto simp: wimp_server_check_process_listening_def ptable_consts)
  show "wimp_server_check_process_listening res st name
        = Ok (True, snd (do_send res (process_connection d) ping_bytes st))"
    if "ptable_map (sprocs st) (ptable st) name = Some d" "process_active d \<noteq> 0" "res (sends st) 4 \<noteq> - 1"
    using g that by (auto simp: wimp_server_check_process_listening_def ptable_consts do_send_def Let_def lp)
  show "\<exists>t procs. wimp_server_check_process_listening res st name
          = Ok (False, st\<lparr>sends := Suc (sends st), ptable := t, sprocs := procs\<rparr>)
        \<and> ptable_ok procs t \<and> ptable_map procs t = (ptable_map (sprocs st) (ptable st))(name := None)"
    if d: "ptable_map (sprocs st) (ptable st) name = Some d" "process_active d \<noteq> 0" "res (sends st) 4 = - 1"
      "ptable_removable (ptable st) name"
  proof -
    obtain p where p: "wimp_process_table_get (ptable st) (Some name) = Ok (WIMP_PROCESS_TABLE_SUCCESS, Some p)"
      "cells (sprocs st) p = Some d"
      using g d(1) by auto
    let ?procs = "(sprocs st)\<lparr>cells := (cells (sprocs st))(p \<mapsto> d\<lparr>process_active := 0\<rparr>)\<rparr>"
    note s = ptable_set [OF ok p(1), of "d\<lparr>process_active := 0\<rparr>"]
    have ne: "ptable_map ?procs (ptable st) name \<noteq> None" by (simp add: s(2))
    obtain t procs where r: "wimp_process_table_remove ?procs (Some (ptable st)) name
        = Ok (WIMP_PROCESS_TABLE_SUCCESS, Some t, procs)"
      "ptable_ok procs t" "ptable_map procs t = (ptable_map ?procs (ptable st))(name := None)"
      using table_remove_old [OF s(1) ne d(4)] by blast
    have "wimp_server_check_process_listening res st name
          = Ok (False, st\<lparr>sends := Suc (sends st), ptable := t, sprocs := procs\<rparr>)"
      using p d(2,3) r(1) by (simp add: wimp_server_check_process_listening_def ptable_consts do_send_def Let_def lp)
    then show ?thesis using r(2,3) s(2) by auto
  qed
qed

subsection \<open>Adding as a delivery\<close>

text \<open>With memory available, adding is what a receiver does to a queue.\<close>

lemma server_add_deliver:
  assumes "mem_ok (smem st)" and "instr_size (server_name st) dest name a < 2 ^ 64"
    and "a = [] \<or> (\<exists>rest. args = Some (a @ rest))"
  shows "wimp_server_add st dest name args (length a) =
    bnd (deliver (smem st) (outgoingmsg st) (instr_wire (server_name st) dest name a))
      (\<lambda>(q, m). Ok (st\<lparr>outgoingmsg := q, smem := m\<rparr>))"
proof -
  have nf: "no_fail (bufs (smem st))" using assms(1) by (simp add: mem_ok_def)
  then show ?thesis
    by (simp add: wimp_server_add_def bundle_instr_eq [OF assms(2,3) nf] deliver_def halloc_def no_fail_def
        bnd_assoc case_prod_unfold)
qed

lemma stored_owned: "stored m as xs \<Longrightarrow> bufs_owned m as"
  using stored_alloc [of m as xs] by (auto simp: bufs_owned_def stored_def)

subsection \<open>Adding and sending\<close>

text \<open>Adding several instructions, one call each.\<close>

fun server_add_all :: "server_state \<Rightarrow> wire_item list \<Rightarrow> server_state outcome" where
  "server_add_all st [] = Ok st"
| "server_add_all st (Ping # xs) = server_add_all st xs"
| "server_add_all st (Instr source dest name a # xs) =
     bnd (wimp_server_add st dest name (Some a) (length a)) (\<lambda>st. server_add_all st xs)"

text \<open>Instructions that the server itself can send.\<close>

definition from_server :: "bytes \<Rightarrow> wire_item \<Rightarrow> bool" where
  "from_server me x \<longleftrightarrow> wf_item x \<and> (\<exists>dest name a. x = Instr me dest name a)"

lemma add_one_stored:
  assumes "queue_rel (smem st) (outgoingmsg st) as" and "mem_ok (smem st)" and "stored (smem st) as zs"
    and "wf_item (Instr (server_name st) dest name a)" and "a = [] \<or> (\<exists>rest. args = Some (a @ rest))"
  shows "\<exists>q m c. wimp_server_add st dest name args (length a) = Ok (st\<lparr>outgoingmsg := q, smem := m\<rparr>)
    \<and> queue_rel m q (as @ [c]) \<and> mem_ok m \<and> queue_locks q = queue_locks (outgoingmsg st)
    \<and> stored m (as @ [c]) (zs @ [Instr (server_name st) dest name a])"
proof -
  have z: "instr_size (server_name st) dest name a < 2 ^ 64" using assms(4) by simp
  obtain q m c where d: "deliver (smem st) (outgoingmsg st) (instr_wire (server_name st) dest name a) = Ok (q, m)"
    "queue_rel m q (as @ [c])" "mem_ok m" "stored m ([] @ as @ [c]) (zs @ [Instr (server_name st) dest name a])"
    "queue_locks q = queue_locks (outgoingmsg st)"
    using deliver_stored [of "smem st" "outgoingmsg st" as "[]" zs "Instr (server_name st) dest name a"] assms(1-4)
    by auto
  then show ?thesis using server_add_deliver [OF assms(2) z assms(5)]
    by (intro exI [of _ q] exI [of _ m] exI [of _ c]) simp
qed

lemma add_all_stored:
  assumes "queue_rel (smem st) (outgoingmsg st) as" and "mem_ok (smem st)" and "stored (smem st) as zs"
    and "\<forall>x \<in> set xs. from_server (server_name st) x"
  shows "\<exists>q m cs. server_add_all st xs = Ok (st\<lparr>outgoingmsg := q, smem := m\<rparr>)
    \<and> queue_rel m q (as @ cs) \<and> mem_ok m \<and> queue_locks q = queue_locks (outgoingmsg st)
    \<and> stored m (as @ cs) (zs @ xs)"
  using assms
proof (induction xs arbitrary: st as zs)
  case Nil
  then show ?case
    by (intro exI [of _ "outgoingmsg st"] exI [of _ "smem st"] exI [of _ "[]"]) simp
next
  case (Cons x xs)
  obtain dest name a where x: "x = Instr (server_name st) dest name a" "wf_item x"
    using Cons.prems(4) by (auto simp: from_server_def)
  obtain q m c where d: "wimp_server_add st dest name (Some a) (length a) = Ok (st\<lparr>outgoingmsg := q, smem := m\<rparr>)"
    "queue_rel m q (as @ [c])" "mem_ok m" "queue_locks q = queue_locks (outgoingmsg st)"
    "stored m (as @ [c]) (zs @ [Instr (server_name st) dest name a])"
    using add_one_stored [OF Cons.prems(1-3), of dest name a "Some a"] x by auto
  let ?st = "st\<lparr>outgoingmsg := q, smem := m\<rparr>"
  have st': "queue_rel (smem ?st) (outgoingmsg ?st) (as @ [c])" "mem_ok (smem ?st)"
    "stored (smem ?st) (as @ [c]) (zs @ [x])" "\<forall>x \<in> set xs. from_server (server_name ?st) x"
    using d x(1) Cons.prems(4) by simp_all
  obtain q' m' cs where "server_add_all ?st xs = Ok (?st\<lparr>outgoingmsg := q', smem := m'\<rparr>)"
    "queue_rel m' q' ((as @ [c]) @ cs)" "mem_ok m'" "queue_locks q' = queue_locks (outgoingmsg ?st)"
    "stored m' ((as @ [c]) @ cs) ((zs @ [x]) @ xs)"
    using Cons.IH [OF st'] by blast
  then show ?case using d x(1) by (intro exI [of _ q'] exI [of _ m'] exI [of _ "c # cs"]) simp
qed

text \<open>What sending leaves as it was, with the send buffer's size.\<close>

definition same_routes :: "server_state \<Rightarrow> server_state \<Rightarrow> bool" where
  "same_routes st st' \<longleftrightarrow> server_name st' = server_name st \<and> ptable st' = ptable st \<and> parent st' = parent st
     \<and> sprocs st' = sprocs st \<and> incomingmsg st' = incomingmsg st \<and> length (sendbuffer st') = 512"

lemma routed_to_same: "same_routes st st' \<Longrightarrow> routed_to st' dest con = routed_to st dest con"
  by (rule routed_to_cong) (simp_all add: same_routes_def)

text \<open>Sending what is stored, all of it on one connection.\<close>

lemma send_stored:
  assumes "queue_rel (smem st) (outgoingmsg st) as" and "mem_ok (smem st)" and "stored (smem st) as xs"
    and "\<forall>x \<in> set xs. routed_to st (item_dest x) con"
    and "sends_ok res (sends st)" and "length (sendbuffer st) = 512"
    and "length xs + (\<Sum>x \<leftarrow> xs. length (item_wire x)) < fuel"
  shows "\<exists>st' log. wimp_server_send_instructions fuel res st = Ok (WIMP_SERVER_SUCCESS, st')
    \<and> sent st' = sent st @ log \<and> con_bytes con log = stream_wire xs \<and> (\<forall>x \<in> set log. is_packet (snd x))
    \<and> queue_rel (smem st') (outgoingmsg st') [] \<and> mem_ok (smem st') \<and> same_routes st st'"
proof -
  let ?msgs = "map (\<lambda>x. (x, con)) xs"
  have "list_all2 (item_at (smem st)) as xs" using assms(3) by (simp add: stored_def)
  then have sd: "list_all2 (sendable st) as ?msgs"
    using assms(4) by (auto simp: list_all2_map2 item_at_def sendable_def elim!: list.rel_mono_strong)
  have "length as + (\<Sum>x \<leftarrow> ?msgs. length (item_wire (fst x))) < fuel"
    using assms(7) list_all2_lengthD [OF sd] by (simp add: comp_def)
  then obtain st1 where s: "send_loop fuel res st = Ok st1" "sent_all st as ?msgs st1"
    using send_loop_all [OF assms(1) sd stored_owned [OF assms(3)] assms(5,6)] by blast
  then have r: "wimp_server_send_instructions fuel res st = Ok (WIMP_SERVER_SUCCESS,
    st1\<lparr>slocks := slocks st @ [MLock (nextmutex (outgoingmsg st)), MLock (datamutex (outgoingmsg st)),
      MUnlock (nextmutex (outgoingmsg st)), MUnlock (datamutex (outgoingmsg st))]\<rparr>)"
    by (intro send_instructions_eq) (simp_all add: sent_all_def)
  have m: "mem_ok (smem st1)" using mem_ok_freed [OF assms(2)] s(2) by (simp add: sent_all_def)
  have "msg_bytes con ?msgs = stream_wire xs" by (simp add: msg_bytes_def filter_map comp_def)
  then show ?thesis using r m s(2) by (auto simp: sent_all_def same_routes_def)
qed

section \<open>Properties\<close>

subsection \<open>A concrete server\<close>

text \<open>The server \<open>s\<close> with the parent \<open>b\<close> on connection 8 and the child \<open>a\<close> on connection 7.\<close>

definition ex_procs :: "WimpProcessData heap" where
  "ex_procs = \<lparr>cells = [0 \<mapsto> \<lparr>process_domain = None, process_connection = Some 7, process_port = 1,
                             process_active = 1, process_relation = WIMP_Process_Child\<rparr>,
                        1 \<mapsto> \<lparr>process_domain = None, process_connection = Some 8, process_port = 2,
                             process_active = 1, process_relation = WIMP_Process_Parent\<rparr>],
               calls = 2, fails = (\<lambda>_. False)\<rparr>"

text \<open>An instruction for the child, and one for a process it does not know, which goes to the parent.\<close>

definition ex_msgs :: "(wire_item \<times> nat option) list" where
  "ex_msgs = [(Instr ''s'' ''a'' ''go'' ''xy'', Some 7), (Instr ''s'' ''z'' ''go'' [], Some 8)]"

definition ex_mem :: mem where
  "ex_mem = \<lparr>nodes = \<lparr>cells = [0 \<mapsto> \<lparr>instruction = Some 0, instruction_bytes = 17, nextnode = Some 1\<rparr>,
                               1 \<mapsto> \<lparr>instruction = Some 1, instruction_bytes = 15, nextnode = None\<rparr>],
                      calls = 2, fails = (\<lambda>_. False)\<rparr>,
             bufs = \<lparr>cells = [0 \<mapsto> item_wire (Instr ''s'' ''a'' ''go'' ''xy''), 1 \<mapsto> item_wire (Instr ''s'' ''z'' ''go'' [])],
                     calls = 2, fails = (\<lambda>_. False)\<rparr>\<rparr>"

definition ex_server :: server_state where
  "ex_server = \<lparr>server_name = ''s'', s_addr = 0, s_server = 0, ptable = two_table, parent = Some ''b'',
     incomingmsg = wimp_create_instr_queue 0 1 2,
     outgoingmsg = (wimp_create_instr_queue 3 4 5)\<lparr>qnext := Some 0, qback := Some 1\<rparr>,
     sendbuffer = WIMP_ZERO_BUFFER, s_recbuffer = WIMP_ZERO_BUFFER, s_active = 1,
     smem = ex_mem, sprocs = ex_procs, sent = [], sends = 0, slocks = []\<rparr>"

lemma ex_fields [simp]:
  "server_name ex_server = ''s''" "ptable ex_server = two_table" "parent ex_server = Some ''b''"
  "smem ex_server = ex_mem" "sprocs ex_server = ex_procs" "sent ex_server = []" "sends ex_server = 0"
  "slocks ex_server = []" "incomingmsg ex_server = wimp_create_instr_queue 0 1 2"
  "sendbuffer ex_server = WIMP_ZERO_BUFFER"
  "outgoingmsg ex_server = (wimp_create_instr_queue 3 4 5)\<lparr>qnext := Some 0, qback := Some 1\<rparr>"
  by (simp_all add: ex_server_def)

lemma ex_ptable: "ptable_ok ex_procs two_table"
proof -
  have "entry_count two_hash = 2" by (simp add: entry_count_def two_hash_def)
  then show ?thesis using two_ok(2)
    by (auto simp: ptable_ok_def two_table_def two_lookup ex_procs_def heap_ok_def split: if_splits)
qed

lemma ex_map: "ptable_map ex_procs two_table name =
  (if name = ''b'' then cells ex_procs 1 else if name = ''a'' then cells ex_procs 0 else None)"
  by (simp add: ptable_map_def two_table_def two_lookup)

lemma ex_get: "wimp_process_table_get two_table (Some name) =
  Ok (if name = ''b'' then (0, Some 1) else if name = ''a'' then (0, Some 0) else (- 1, None))"
  using table_get_eq [of two_table two_hash name] two_ok(2)
  by (simp add: two_table_def two_lookup ptable_consts)

lemma length_wire: "length (item_wire (Instr source dest name a)) = instr_size source dest name a"
  by (simp add: instr_size_def instr_wire_def)

lemma ex_sendable: "sendable ex_server 0 (hd ex_msgs)" "sendable ex_server 1 (ex_msgs ! 1)"
  by (simp_all add: sendable_def holds_payload payload_def ex_msgs_def ex_mem_def instr_size_def rec_consts
      routed_to_def send_target_def ex_get ptable_consts ex_procs_def del: item_wire.simps(2))
    (simp_all add: length_wire instr_size_def)

lemma ex_queue: "queue_rel ex_mem (outgoingmsg ex_server) [0, 1]" "bufs_owned ex_mem [0, 1]" "mem_ok ex_mem"
  by (simp_all add: queue_rel_def bufs_owned_def buf_of_def mem_ok_def heap_ok_def no_fail_def ex_mem_def)

subsection \<open>Sending\<close>

text \<open>C4: When every send call makes progress, sending empties the outgoing queue: each connection receives
  exactly the wire forms of the instructions routed to it, in queue order and in non-empty pieces of at most
  512 bytes, every node and its instruction is freed, and the call returns success after one high-priority
  lock and unlock.\<close>

theorem send_instructions_streams:
  assumes "queue_rel (smem st) (outgoingmsg st) as" and "list_all2 (sendable st) as msgs"
    and "bufs_owned (smem st) as" and "sends_ok res (sends st)" and "length (sendbuffer st) = 512"
    and "length as + (\<Sum>x \<leftarrow> msgs. length (item_wire (fst x))) < fuel"
  shows "\<exists>st' log. wimp_server_send_instructions fuel res st = Ok (WIMP_SERVER_SUCCESS, st')
    \<and> sent st' = sent st @ log \<and> (\<forall>con. con_bytes con log = msg_bytes con msgs)
    \<and> (\<forall>x \<in> set log. is_packet (snd x))
    \<and> queue_rel (smem st') (outgoingmsg st') [] \<and> smem st' = freed (smem st) as
    \<and> incomingmsg st' = incomingmsg st \<and> sprocs st' = sprocs st
    \<and> slocks st' = slocks st @ wimp_instr_queue_high_prio_lock (outgoingmsg st)
        @ wimp_instr_queue_high_prio_unlock (outgoingmsg st)"
proof -
  obtain st1 where "send_loop fuel res st = Ok st1" and s: "sent_all st as msgs st1"
    using send_loop_all [OF assms] by blast
  then have "wimp_server_send_instructions fuel res st = Ok (WIMP_SERVER_SUCCESS,
    st1\<lparr>slocks := slocks st @ [MLock (nextmutex (outgoingmsg st)), MLock (datamutex (outgoingmsg st)),
      MUnlock (nextmutex (outgoingmsg st)), MUnlock (datamutex (outgoingmsg st))]\<rparr>)"
    by (intro send_instructions_eq) (simp_all add: sent_all_def)
  then show ?thesis using s
    by (auto simp: sent_all_def wimp_instr_queue_high_prio_lock_def wimp_instr_queue_high_prio_unlock_def)
qed

theorem send_instructions_streams_witness:
  "\<exists>st' log. wimp_server_send_instructions 100 (\<lambda>_ n. if n < 5 then int n else 5) ex_server = Ok (WIMP_SERVER_SUCCESS, st')
    \<and> sent st' = sent ex_server @ log \<and> (\<forall>con. con_bytes con log = msg_bytes con ex_msgs)
    \<and> (\<forall>x \<in> set log. is_packet (snd x))
    \<and> queue_rel (smem st') (outgoingmsg st') [] \<and> smem st' = freed (smem ex_server) [0, 1]
    \<and> incomingmsg st' = incomingmsg ex_server \<and> sprocs st' = sprocs ex_server
    \<and> slocks st' = slocks ex_server @ wimp_instr_queue_high_prio_lock (outgoingmsg ex_server)
        @ wimp_instr_queue_high_prio_unlock (outgoingmsg ex_server)"
proof (rule send_instructions_streams)
  show "queue_rel (smem ex_server) (outgoingmsg ex_server) [0, 1]" "bufs_owned (smem ex_server) [0, 1]"
    using ex_queue by simp_all
  show "list_all2 (sendable ex_server) [0, 1] ex_msgs" using ex_sendable by (simp add: ex_msgs_def)
  show "sends_ok (\<lambda>_ n. if n < 5 then int n else 5) (sends ex_server)" by (simp add: sends_ok_def)
  show "length (sendbuffer ex_server) = 512" by (simp add: WIMP_ZERO_BUFFER_def rec_consts)
  show "length [0, 1::addr] + (\<Sum>x \<leftarrow> ex_msgs. length (item_wire (fst x))) < 100"
    by (simp add: ex_msgs_def length_wire instr_size_def del: item_wire.simps)
qed

text \<open>The same server with only its first instruction queued, and a child with a longer instruction.\<close>

definition ex_one :: server_state where
  "ex_one = ex_server\<lparr>outgoingmsg := (wimp_create_instr_queue 3 4 5)\<lparr>qnext := Some 0, qback := Some 0\<rparr>,
     smem := ex_mem\<lparr>nodes := (nodes ex_mem)\<lparr>cells := [0 \<mapsto> \<lparr>instruction = Some 0, instruction_bytes = 17, nextnode = None\<rparr>]\<rparr>\<rparr>\<rparr>"

lemma ex_one:
  "queue_rel (smem ex_one) (outgoingmsg ex_one) [0]" "sendable ex_one 0 (hd ex_msgs)"
  "length (sendbuffer ex_one) = 512" "sends ex_one = 0"
proof -
  have "routed_to ex_one ''a'' (Some 7)"
    using ex_sendable(1) routed_to_cong [of ex_one ex_server]
    by (simp add: sendable_def ex_msgs_def ex_one_def)
  then show "sendable ex_one 0 (hd ex_msgs)"
    by (simp add: sendable_def holds_payload payload_def ex_msgs_def ex_one_def ex_mem_def instr_size_def rec_consts
        length_wire del: item_wire.simps(2))
qed (simp_all add: queue_rel_def ex_one_def ex_mem_def WIMP_ZERO_BUFFER_def rec_consts)

text \<open>C36: When the first send call for an instruction fails, nothing of it is sent, it is freed all the
  same and the call reports success: the failure makes the count of sent bytes wrap around to the largest
  number.\<close>

theorem send_failure_loses_message:
  assumes "queue_rel (smem st) (outgoingmsg st) [a]" and "sendable st a (x, con)"
    and "length (sendbuffer st) = 512" and "\<forall>n. res (sends st) n = - 1" and "2 < fuel"
  shows "\<exists>st'. wimp_server_send_instructions fuel res st = Ok (WIMP_SERVER_SUCCESS, st')
    \<and> sent st' = sent st \<and> smem st' = freed (smem st) [a] \<and> queue_rel (smem st') (outgoingmsg st') []"
proof -
  obtain f where f: "fuel = Suc (Suc (Suc f))"
    using assms(5) by (metis One_nat_def Suc_1 less_imp_Suc_add add_Suc_right add_Suc_shift)
  have x: "item_wire x \<noteq> []" "length (item_wire x) < 2 ^ 31"
    using assms(2) by (cases x; simp add: sendable_def; simp add: instr_wire_def)+
  show ?thesis unfolding f
    using send_one [OF assms(1,2), of "Suc f" res "\<lambda>log. log = sent st"] send_chunks_lost [OF x] assms(3,4)
    by simp blast
qed

theorem send_failure_loses_message_witness:
  "\<exists>st'. wimp_server_send_instructions 3 (\<lambda>_ _. - 1) ex_one = Ok (WIMP_SERVER_SUCCESS, st')
    \<and> sent st' = sent ex_one \<and> smem st' = freed (smem ex_one) [0] \<and> queue_rel (smem st') (outgoingmsg st') []"
proof (rule send_failure_loses_message)
  show "sendable ex_one 0 (Instr ''s'' ''a'' ''go'' ''xy'', Some 7)" using ex_one(2) by (simp add: ex_msgs_def)
qed (use ex_one in simp_all)

text \<open>When a send call fails after the first 512 bytes of a longer instruction, the count of sent bytes
  goes back by one: the byte before the failure is sent twice, so the receiver's stream is no longer the
  instruction, and the call still reports success.\<close>

lemma send_failure_repeats_byte:
  assumes "queue_rel (smem st) (outgoingmsg st) [a]" and "sendable st a (x, con)"
    and "512 < length (item_wire x)" and "length (sendbuffer st) = 512"
    and "res (sends st) 512 = 512" "\<forall>n. res (Suc (sends st)) n = - 1" "sends_ok res (Suc (Suc (sends st)))"
    and "length (item_wire x) + 3 < fuel"
  shows "\<exists>st' log. wimp_server_send_instructions fuel res st = Ok (WIMP_SERVER_SUCCESS, st')
    \<and> sent st' = sent st @ log \<and> con_bytes con log = take 512 (item_wire x) @ drop 511 (item_wire x)
    \<and> smem st' = freed (smem st) [a] \<and> queue_rel (smem st') (outgoingmsg st') []"
proof -
  obtain f where f: "fuel = Suc (Suc f)" "length (item_wire x) + 2 < Suc f"
    using assms(8) by (intro that [of "fuel - 2"]) auto
  have l: "length (item_wire x) < 2 ^ 31" using assms(2) by (cases x) (auto simp: sendable_def)
  have "\<exists>i log b. send_chunks (Suc f) res con (item_wire x) (length (item_wire x)) 0 (st\<lparr>outgoingmsg := q\<rparr>)
      = Ok (st\<lparr>outgoingmsg := q, sends := i, sent := log, sendbuffer := b\<rparr>)
      \<and> (\<exists>l. log = sent st @ l \<and> con_bytes con l = take 512 (item_wire x) @ drop 511 (item_wire x))" for q
  proof -
    let ?st = "st\<lparr>outgoingmsg := q\<rparr>"
    obtain cs i b where c: "send_chunks (Suc f) res con (item_wire x) (length (item_wire x)) 0 ?st
      = Ok (?st\<lparr>sends := i, sent := sent ?st @ map (Pair con) cs, sendbuffer := b\<rparr>)"
      "concat cs = take 512 (item_wire x) @ drop 511 (item_wire x)"
      using send_chunks_retry [of "item_wire x" ?st res "Suc f" con, OF assms(3) l] assms(4-7) f(2) by auto
    show ?thesis using c by (intro exI [of _ i] exI [of _ "sent st @ map (Pair con) cs"] exI [of _ b]) simp
  qed
  from send_one [OF assms(1,2) this] show ?thesis unfolding f(1) by blast
qed

text \<open>An instruction of 615 bytes.\<close>

definition ex_long :: server_state where
  "ex_long = ex_server\<lparr>outgoingmsg := (wimp_create_instr_queue 3 4 5)\<lparr>qnext := Some 0, qback := Some 0\<rparr>,
     smem := \<lparr>nodes = (nodes ex_mem)\<lparr>cells := [0 \<mapsto> \<lparr>instruction = Some 0, instruction_bytes = 615, nextnode = None\<rparr>]\<rparr>,
       bufs = (bufs ex_mem)\<lparr>cells := [0 \<mapsto> item_wire (Instr ''s'' ''a'' ''go'' (replicate 600 CHR ''x''))]\<rparr>\<rparr>\<rparr>"

lemma send_failure_repeats_byte_witness:
  "\<exists>st' log. wimp_server_send_instructions 1000 (\<lambda>k n. if k = 1 then - 1 else int n) ex_long = Ok (WIMP_SERVER_SUCCESS, st')
    \<and> sent st' = sent ex_long @ log
    \<and> con_bytes (Some 7) log = take 512 (item_wire (Instr ''s'' ''a'' ''go'' (replicate 600 CHR ''x'')))
        @ drop 511 (item_wire (Instr ''s'' ''a'' ''go'' (replicate 600 CHR ''x'')))
    \<and> smem st' = freed (smem ex_long) [0] \<and> queue_rel (smem st') (outgoingmsg st') []"
proof (rule send_failure_repeats_byte)
  have "routed_to ex_long ''a'' (Some 7)"
    using ex_sendable(1) routed_to_cong [of ex_long ex_server]
    by (simp add: sendable_def ex_msgs_def ex_long_def)
  then show "sendable ex_long 0 (Instr ''s'' ''a'' ''go'' (replicate 600 CHR ''x''), Some 7)"
    by (simp add: sendable_def holds_payload payload_def ex_long_def ex_mem_def instr_size_def rec_consts
        length_wire del: item_wire.simps(2))
qed (simp_all add: queue_rel_def ex_long_def ex_mem_def WIMP_ZERO_BUFFER_def rec_consts sends_ok_def length_wire instr_size_def
    del: item_wire.simps)

text \<open>C35: An instruction addressed to the server itself is queued as incoming with the very buffer that the
  outgoing node owns, and that node is then freed with its buffer: the incoming queue ends with a node whose
  instruction cannot be read any more.\<close>

theorem loopback_use_after_free:
  assumes "queue_rel (smem st) (incomingmsg st) ins" and "queue_rel (smem st) (outgoingmsg st) [a]"
    and "mem_ok (smem st)" and "a \<notin> set ins"
    and "holds (smem st) a (item_wire x)" and "wf_item x" "x \<noteq> Ping" and "item_dest x = server_name st"
    and "1 < fuel"
  shows "\<exists>st' c. wimp_server_send_instructions fuel res st = Ok (WIMP_SERVER_SUCCESS, st')
    \<and> queue_rel (smem st') (incomingmsg st') (ins @ [c])
    \<and> wimp_instr_get_from_node (smem st') c = Fault UseAfterFree \<and> sent st' = sent st"
proof -
  obtain f where f: "fuel = Suc (Suc f)" using assms(9) by (intro that [of "fuel - 2"]) auto
  obtain q1 where q1: "wimp_instr_queue_pop (smem st) (outgoingmsg st) = Ok (Some a, q1)"
    "queue_rel (smem st) q1 []" "queue_locks q1 = queue_locks (outgoingmsg st)"
    using wq.pop_cons [OF assms(2)] by blast
  let ?st = "st\<lparr>outgoingmsg := q1\<rparr>"
  have m: "heap_ok (nodes (smem st))" "no_fail (nodes (smem st))" using assms(3) by (simp_all add: mem_ok_def)
  obtain st1 c where n: "send_node (Suc f) res a ?st = Ok st1" "queue_rel (smem st1) (incomingmsg st1) (ins @ [c])"
    "wimp_instr_get_from_node (smem st1) c = Fault UseAfterFree" "sent st1 = sent st"
    "outgoingmsg st1 = q1" "slocks st1 = slocks st"
    using send_node_loopback [of ?st ins a x "Suc f" res] assms(1,4-8) m by auto
  have e: "queue_rel (smem st1) (outgoingmsg st1) []" using q1(2) n(5) by (simp add: queue_rel_def)
  have "send_loop (Suc (Suc f)) res st = Ok st1"
    using q1(1) n(1) wq.pop_nil [OF e] by (simp add: send_loop.simps(2) [of "Suc f"] send_loop.simps(2) [of f])
  from send_instructions_eq [OF this] q1(3) n show ?thesis unfolding f by auto
qed

definition ex_self :: server_state where
  "ex_self = ex_one\<lparr>server_name := ''a''\<rparr>"

theorem loopback_use_after_free_witness:
  "\<exists>st' c. wimp_server_send_instructions 2 (\<lambda>_ n. int n) ex_self = Ok (WIMP_SERVER_SUCCESS, st')
    \<and> queue_rel (smem st') (incomingmsg st') ([] @ [c])
    \<and> wimp_instr_get_from_node (smem st') c = Fault UseAfterFree \<and> sent st' = sent ex_self"
proof (rule loopback_use_after_free)
  show "holds (smem ex_self) 0 (item_wire (fst (hd ex_msgs)))" "wf_item (fst (hd ex_msgs))" "fst (hd ex_msgs) \<noteq> Ping"
    using ex_one(2) by (simp_all add: sendable_def ex_self_def)
  show "queue_rel (smem ex_self) (outgoingmsg ex_self) [0]" using ex_one(1) by (simp add: ex_self_def)
  show "queue_rel (smem ex_self) (incomingmsg ex_self) []"
    by (simp add: ex_self_def ex_one_def queue_rel_def wimp_create_instr_queue_def)
  show "mem_ok (smem ex_self)" by (simp add: ex_self_def ex_one_def mem_ok_def heap_ok_def no_fail_def ex_mem_def)
qed (simp_all add: ex_msgs_def ex_self_def)

subsection \<open>Waiting for a response\<close>

text \<open>C6: Waiting returns the first incoming instruction with the awaited name, or nothing when an exit
  instruction comes first (which is freed); whatever arrived before it and after it stays queued in the
  order of arrival, each instruction intact, however many rounds of polling it takes.\<close>

theorem wait_response_keeps_order:
  assumes "queue_rel (smem st) (incomingmsg st) as" and "stored (smem st) as xs" and "mem_ok (smem st)"
    and "\<forall>j \<le> n. arrivals j = map item_wire (arr j) \<and> (\<forall>x \<in> set (arr j). wf_item x \<and> x \<noteq> Ping)"
    and "xs @ concat (map arr [0..<Suc n]) = pre @ x # post" "\<forall>x \<in> set pre. \<not> stops instr x" "stops instr x"
    and "\<forall>x \<in> set (xs @ concat (map arr [0..<n])). \<not> stops instr x" and "n < fuel"
  shows "\<exists>node st' cs. wimp_server_wait_response fuel arrivals mutexes st instr timeout = Ok (node, st')
    \<and> queue_rel (smem st') (incomingmsg st') cs \<and> stored (smem st') cs (pre @ post)
    \<and> (if item_name x = instr then \<exists>a. node = Some a \<and> holds (smem st') a (item_wire x) \<and> a \<notin> set cs
       else node = None)"
  using wait_response_spec [OF assms] by (cases mutexes) metis

text \<open>A reply that comes in the second round, between two other instructions.\<close>

definition ex_wait :: server_state where
  "ex_wait = ex_server\<lparr>smem := empty_mem, outgoingmsg := wimp_create_instr_queue 3 4 5\<rparr>"

definition ex_arr :: "nat \<Rightarrow> wire_item list" where
  "ex_arr j = (if j = 0 then [Instr ''b'' ''s'' ''news'' ''1'']
     else if j = 1 then [Instr ''b'' ''s'' ''reply'' ''ok'', Instr ''b'' ''s'' ''late'' ''2''] else [])"

lemma ex_wait:
  "queue_rel (smem ex_wait) (incomingmsg ex_wait) []" "stored (smem ex_wait) [] []" "mem_ok (smem ex_wait)"
  "\<forall>j \<le> 1. map item_wire (ex_arr j) = map item_wire (ex_arr j) \<and> (\<forall>x \<in> set (ex_arr j). wf_item x \<and> x \<noteq> Ping)"
  "[] @ concat (map ex_arr [0..<Suc 1])
    = [Instr ''b'' ''s'' ''news'' ''1''] @ Instr ''b'' ''s'' ''reply'' ''ok'' # [Instr ''b'' ''s'' ''late'' ''2'']"
  "\<forall>x \<in> set [Instr ''b'' ''s'' ''news'' ''1'']. \<not> stops ''reply'' x"
  "stops ''reply'' (Instr ''b'' ''s'' ''reply'' ''ok'')"
  "\<forall>x \<in> set ([] @ concat (map ex_arr [0..<1])). \<not> stops ''reply'' x" "1 < (2::nat)"
  using empty_mem_ok
  by (simp_all add: ex_wait_def stored_def mem_ok_def ex_arr_def instr_size_def rec_consts stops_def
      WIMP_INSTRUCTION_EXIT_def)

theorem wait_response_keeps_order_witness:
  "\<exists>node st' cs. wimp_server_wait_response 2 (\<lambda>j. map item_wire (ex_arr j)) (20, 21, 22) ex_wait ''reply'' 50 = Ok (node, st')
    \<and> queue_rel (smem st') (incomingmsg st') cs
    \<and> stored (smem st') cs ([Instr ''b'' ''s'' ''news'' ''1''] @ [Instr ''b'' ''s'' ''late'' ''2''])
    \<and> (if item_name (Instr ''b'' ''s'' ''reply'' ''ok'') = ''reply''
       then \<exists>a. node = Some a \<and> holds (smem st') a (item_wire (Instr ''b'' ''s'' ''reply'' ''ok'')) \<and> a \<notin> set cs
       else node = None)"
  by (rule wait_response_keeps_order [OF ex_wait])

text \<open>Afterwards the incoming queue has the mutexes of the temporary queue. The queue is locked and
  unlocked once a round, but the lock that protects the recombination is taken on the old mutexes and
  released on the new ones: the last calls lock the old data mutex, unlock one that was never locked, and
  free the old one while it is locked.\<close>

lemma wait_response_mutexes:
  assumes "queue_rel (smem st) (incomingmsg st) as" and "stored (smem st) as xs" and "mem_ok (smem st)"
    and "\<forall>j \<le> n. arrivals j = map item_wire (arr j) \<and> (\<forall>x \<in> set (arr j). wf_item x \<and> x \<noteq> Ping)"
    and "xs @ concat (map arr [0..<Suc n]) = pre @ x # post" "\<forall>x \<in> set pre. \<not> stops instr x" "stops instr x"
    and "\<forall>x \<in> set (xs @ concat (map arr [0..<n])). \<not> stops instr x" and "n < fuel"
    and "queue_locks (incomingmsg st) = (dm, nm, lm)"
  shows "\<exists>node st'. wimp_server_wait_response fuel arrivals (d, nx, l) st instr timeout = Ok (node, st')
    \<and> queue_locks (incomingmsg st') = (d, nx, l)
    \<and> slocks st' = slocks st @ concat (replicate (Suc n) [MLock nm, MLock dm, MUnlock nm, MUnlock dm])
        @ [MLock nm, MLock dm, MUnlock nm, MUnlock d, MFree dm, MFree nm, MFree lm]"
proof -
  have "lock_round (incomingmsg st) = [MLock nm, MLock dm, MUnlock nm, MUnlock dm]"
    "wimp_instr_queue_high_prio_lock (incomingmsg st) = [MLock nm, MLock dm, MUnlock nm]"
    using assms(10) by (simp_all add: lock_round_def queue_locks_def wimp_instr_queue_high_prio_lock_def
        wimp_instr_queue_high_prio_unlock_def)
  then show ?thesis using wait_response_spec [OF assms(1-9), of d nx l timeout] assms(10)
    by (auto simp: queue_locks_def)
qed

lemma wait_response_mutexes_witness:
  "\<exists>node st'. wimp_server_wait_response 2 (\<lambda>j. map item_wire (ex_arr j)) (20, 21, 22) ex_wait ''reply'' 50 = Ok (node, st')
    \<and> queue_locks (incomingmsg st') = (20, 21, 22)
    \<and> slocks st' = slocks ex_wait @ concat (replicate (Suc 1) [MLock 1, MLock 0, MUnlock 1, MUnlock 0])
        @ [MLock 1, MLock 0, MUnlock 1, MUnlock 20, MFree 0, MFree 1, MFree 2]"
  by (rule wait_response_mutexes [OF ex_wait])
    (simp add: ex_wait_def queue_locks_def wimp_create_instr_queue_def)

subsection \<open>Accepting\<close>

text \<open>What \<open>accept_loop\<close> starts from.\<close>

lemma start_accept_fields [simp]:
  "a_server (start_accept server procs) = server" "a_procs (start_accept server procs) = procs"
  "accepted_count (start_accept server procs) = 0" "a_sent (start_accept server procs) = []"
  "failure_reason (start_accept server procs) = WIMP_SERVER_TOO_FEW_PROCESSES"
  by (simp_all add: start_accept_def)

text \<open>C7: When the expected processes, all in the table, connect once each and in any order, accepting
  returns success: every one of them is active on its own connection and gets the reply, and the data of no
  other process change.\<close>

theorem accept_all_expected:
  assumes "ptable_ok procs (ptable server)" and "distinct pnames" "distinct names" "set names = set pnames"
    and "\<forall>n \<in> set pnames. cstring n \<and> ptable_map procs (ptable server) n \<noteq> None"
    and "\<forall>j < length names. accepts j = Some (con j, Some (handshake_message (names ! j)))"
    and "length names \<le> fuel"
  shows "\<exists>a. wimp_server_process_accept True True fuel accepts server procs pnames = Ok (WIMP_SERVER_SUCCESS, a)
    \<and> ptable (a_server a) = ptable server
    \<and> (\<forall>j < length names. ptable_map (a_procs a) (ptable server) (names ! j)
          = map_option (activated (con j)) (ptable_map procs (ptable server) (names ! j)))
    \<and> (\<forall>n. n \<notin> set pnames \<longrightarrow> ptable_map (a_procs a) (ptable server) n = ptable_map procs (ptable server) n)
    \<and> a_sent a = map (\<lambda>j. (con j, handshake_reply)) [0..<length names]"
proof -
  have l: "length pnames = length names"
    using assms(2-4) by (metis distinct_card)
  obtain a where a: "accept_loop fuel accepts pnames (length names) 0 (start_accept server procs) = Ok a"
    "accepted_count a = length names" "ptable (a_server a) = ptable server"
    "\<forall>n. n \<notin> set names \<longrightarrow> ptable_map (a_procs a) (ptable server) n = ptable_map procs (ptable server) n"
    "\<forall>j < length names. ptable_map (a_procs a) (ptable server) (names ! j)
          = map_option (activated (con j)) (ptable_map procs (ptable server) (names ! j))"
    "a_sent a = map (\<lambda>j. (con j, handshake_reply)) [0..<length names]"
    using accept_all [of "start_accept server procs" names pnames accepts 0 con fuel] assms by auto
  then have "wimp_server_process_accept True True fuel accepts server procs pnames = Ok (WIMP_SERVER_SUCCESS, a)"
    by (simp add: wimp_server_process_accept_def l)
  then show ?thesis using a assms(4) by auto
qed

theorem accept_all_expected_witness:
  "\<exists>a. wimp_server_process_accept True True 2 (\<lambda>j. Some (j + 5, Some (handshake_message ([''b'', ''a''] ! j))))
        (WimpServer.truncate ex_server) two_procs [''a'', ''b''] = Ok (WIMP_SERVER_SUCCESS, a)
    \<and> ptable (a_server a) = ptable (WimpServer.truncate ex_server)
    \<and> (\<forall>j < length [''b'', ''a'']. ptable_map (a_procs a) (ptable (WimpServer.truncate ex_server)) ([''b'', ''a''] ! j)
          = map_option (activated (j + 5)) (ptable_map two_procs (ptable (WimpServer.truncate ex_server)) ([''b'', ''a''] ! j)))
    \<and> (\<forall>n. n \<notin> set [''a'', ''b''] \<longrightarrow> ptable_map (a_procs a) (ptable (WimpServer.truncate ex_server)) n
          = ptable_map two_procs (ptable (WimpServer.truncate ex_server)) n)
    \<and> a_sent a = map (\<lambda>j. (j + 5, handshake_reply)) [0..<length [''b'', ''a'']]"
proof (rule accept_all_expected)
  show "ptable_ok two_procs (ptable (WimpServer.truncate ex_server))" using two_ok by simp
  show "\<forall>n \<in> set [''a'', ''b'']. cstring n \<and> ptable_map two_procs (ptable (WimpServer.truncate ex_server)) n \<noteq> None"
    by (simp add: ptable_map_def two_table_def two_lookup two_procs_def)
qed auto


text \<open>An intruder connects, then nobody.\<close>

definition ex_intruder :: "nat \<Rightarrow> accept_result" where
  "ex_intruder j = (if j = 0 then Some (9, Some (handshake_message ''evil'')) else None)"

definition ex_refused :: accept_state where
  "ex_refused = (start_accept (WimpServer.truncate ex_server) two_procs)\<lparr>
    a_server := (WimpServer.truncate ex_server)\<lparr>s_recbuffer := handshake_message ''evil''
      @ drop (length (handshake_message ''evil'')) (s_recbuffer (WimpServer.truncate ex_server))\<rparr>,
    failure_reason := WIMP_SERVER_UNEXPECTED_PROCESS\<rparr>"


text \<open>Connections of an unexpected process are tried again without using up a turn: as long as they keep
  coming, the call does not return, however long it runs.\<close>

lemma unexpected_connections_block:
  assumes "name \<notin> set pnames" and "cstring name" and "pnames \<noteq> []"
    and "\<forall>k. accepts k = Some (con k, Some (handshake_message name))"
  shows "wimp_server_process_accept True True fuel accepts server procs pnames = Fault OutOfFuel"
proof -
  have "accept_loop fuel accepts pnames (Suc left) k a = Fault OutOfFuel" for left k a
    using assms(4) by (induction fuel arbitrary: k a) (simp_all add: accept_unexpected [OF assms(1,2)])
  moreover obtain left where "length pnames = Suc left" using assms(3) by (cases pnames) auto
  ultimately show ?thesis by (simp add: wimp_server_process_accept_def)
qed

lemma unexpected_connections_block_witness:
  "wimp_server_process_accept True True 1000 (\<lambda>k. Some (k, Some (handshake_message ''evil'')))
     (WimpServer.truncate ex_server) two_procs [''a''] = Fault OutOfFuel"
  by (rule unexpected_connections_block [where con = "\<lambda>k. k" and name = "''evil''"]) simp_all

text \<open>Connections are counted, not processes: when two processes are expected and the first of them
  connects twice, the call returns success although the second never connected and its data are unchanged.\<close>

lemma duplicate_process_counts:
  assumes "ptable_ok procs (ptable server)" and "ptable_map procs (ptable server) x \<noteq> None" and "cstring x" and "x \<noteq> y"
    and "accepts 0 = Some (con, Some (handshake_message x))" "accepts 1 = Some (con', Some (handshake_message x))"
    and "1 < fuel"
  shows "\<exists>a. wimp_server_process_accept True True fuel accepts server procs [x, y] = Ok (WIMP_SERVER_SUCCESS, a)
    \<and> ptable_map (a_procs a) (ptable (a_server a)) y = ptable_map procs (ptable server) y"
proof -
  obtain f where f: "fuel = Suc (Suc f)" using assms(7) by (intro that [of "fuel - 2"]) auto
  have x: "x \<in> set [x, y]" by simp
  let ?a = "start_accept server procs"
  have ok0: "ptable_ok (a_procs ?a) (ptable (a_server ?a))" using assms(1) by simp
  obtain d where d: "ptable_map (a_procs ?a) (ptable (a_server ?a)) x = Some d" using assms(2) by auto
  obtain a1 where a1: "accept_connection [x, y] con (Some (handshake_message x)) ?a = Ok (False, a1)"
    "ptable (a_server a1) = ptable server" "ptable_ok (a_procs a1) (ptable (a_server a1))"
    "ptable_map (a_procs a1) (ptable server) = (ptable_map procs (ptable server))(x \<mapsto> activated con d)"
    "accepted_count a1 = 1"
    using accept_handshake [OF ok0 d x assms(3), of con] unfolding activated_def start_accept_fields by auto
  then have d1: "ptable_map (a_procs a1) (ptable (a_server a1)) x = Some (activated con d)" by simp
  obtain a2 where a2: "accept_connection [x, y] con' (Some (handshake_message x)) a1 = Ok (False, a2)"
    "ptable (a_server a2) = ptable (a_server a1)"
    "ptable_map (a_procs a2) (ptable (a_server a1)) = (ptable_map (a_procs a1) (ptable (a_server a1)))(x \<mapsto> activated con' (activated con d))"
    "accepted_count a2 = accepted_count a1 + 1"
    using accept_handshake [OF a1(3) d1 x assms(3), of con'] unfolding activated_def by blast
  have "accept_loop (Suc (Suc f)) accepts [x, y] (length [x, y]) 0 ?a = Ok a2"
    using assms(5,6) a1(1) a2(1) by simp
  then show ?thesis using a1 a2 assms(4) unfolding f
    by (intro exI [of _ a2]) (simp add: wimp_server_process_accept_def)
qed

lemma duplicate_process_counts_witness:
  "\<exists>a. wimp_server_process_accept True True 2 (\<lambda>k. Some (k, Some (handshake_message ''a'')))
        (WimpServer.truncate ex_server) two_procs [''a'', ''b''] = Ok (WIMP_SERVER_SUCCESS, a)
    \<and> ptable_map (a_procs a) (ptable (a_server a)) ''b'' = ptable_map two_procs (ptable (WimpServer.truncate ex_server)) ''b''"
  by (rule duplicate_process_counts [where con = 0 and con' = 1])
    (use two_ok in \<open>simp_all add: ptable_map_def two_table_def two_lookup two_procs_def\<close>)

subsection \<open>Checking, adding and freeing\<close>

text \<open>A process is reported as listening exactly when it is in the table, is marked active and a ping
  can be sent to it; one that the ping cannot reach is taken out of the table, and nothing else is.\<close>

lemma check_listening_result:
  assumes "ptable_ok (sprocs st) (ptable st)"
    and "\<forall>d. ptable_map (sprocs st) (ptable st) name = Some d \<and> process_active d \<noteq> 0 \<and> res (sends st) 4 = - 1
      \<longrightarrow> ptable_removable (ptable st) name"
  shows "\<exists>b st'. wimp_server_check_process_listening res st name = Ok (b, st')
    \<and> (b \<longleftrightarrow> (\<exists>d. ptable_map (sprocs st) (ptable st) name = Some d \<and> process_active d \<noteq> 0 \<and> res (sends st) 4 \<noteq> - 1))
    \<and> ptable_ok (sprocs st') (ptable st')
    \<and> ptable_map (sprocs st') (ptable st') =
        (if \<exists>d. ptable_map (sprocs st) (ptable st) name = Some d \<and> process_active d \<noteq> 0 \<and> res (sends st) 4 = - 1
         then (ptable_map (sprocs st) (ptable st))(name := None) else ptable_map (sprocs st) (ptable st))"
proof (cases "ptable_map (sprocs st) (ptable st) name")
  case None
  then show ?thesis using check_listening_eq(1) [OF assms(1)] assms(1) by auto
next
  case (Some d)
  note e = check_listening_eq [OF assms(1)]
  have s: "sprocs (snd (do_send res c bs st)) = sprocs st" "ptable (snd (do_send res c bs st)) = ptable st" for c bs
    by (simp_all add: do_send_def Let_def)
  consider "process_active d = 0" | "process_active d \<noteq> 0" "res (sends st) 4 \<noteq> - 1"
    | "process_active d \<noteq> 0" "res (sends st) 4 = - 1" by blast
  then show ?thesis
  proof cases
    case 1
    then show ?thesis using e(2) [OF Some] Some assms(1) by auto
  next
    case 2
    then show ?thesis using e(3) [OF Some] Some assms(1) s by auto
  next
    case 3
    obtain t procs where "wimp_server_check_process_listening res st name
          = Ok (False, st\<lparr>sends := Suc (sends st), ptable := t, sprocs := procs\<rparr>)"
      "ptable_ok procs t" "ptable_map procs t = (ptable_map (sprocs st) (ptable st))(name := None)"
      using e(4) [of name d res] Some 3 assms(2) by blast
    then show ?thesis using Some 3 by auto
  qed
qed

lemma check_listening_result_witness:
  "\<exists>b st'. wimp_server_check_process_listening (\<lambda>_ _. - 1) ex_server ''b'' = Ok (b, st')
    \<and> (b \<longleftrightarrow> (\<exists>d. ptable_map (sprocs ex_server) (ptable ex_server) ''b'' = Some d \<and> process_active d \<noteq> 0
          \<and> (\<lambda>_ _. - 1 :: int) (sends ex_server) (4 :: nat) \<noteq> - 1))
    \<and> ptable_ok (sprocs st') (ptable st')
    \<and> ptable_map (sprocs st') (ptable st') =
        (if \<exists>d. ptable_map (sprocs ex_server) (ptable ex_server) ''b'' = Some d \<and> process_active d \<noteq> 0
            \<and> (\<lambda>_ _. - 1 :: int) (sends ex_server) (4 :: nat) = - 1
         then (ptable_map (sprocs ex_server) (ptable ex_server))(''b'' := None)
         else ptable_map (sprocs ex_server) (ptable ex_server))"
  by (rule check_listening_result)
    (use ex_ptable in \<open>simp_all add: ptable_removable_def two_table_def two_hash_def removable_def slot_def\<close>)

text \<open>Adding an instruction queues its wire form behind those already in the outgoing queue, in a node of
  its own; every instruction in memory stays readable.\<close>

lemma server_add_queues:
  assumes "queue_rel (smem st) (outgoingmsg st) outs" and "mem_ok (smem st)"
    and "instr_size (server_name st) dest name a < 2 ^ 64" "a = [] \<or> (\<exists>rest. args = Some (a @ rest))"
  shows "\<exists>q m c. wimp_server_add st dest name args (length a) = Ok (st\<lparr>outgoingmsg := q, smem := m\<rparr>)
    \<and> queue_rel m q (outs @ [c]) \<and> mem_ok m \<and> holds m c (instr_wire (server_name st) dest name a)
    \<and> (\<forall>a b. holds (smem st) a b \<longrightarrow> holds m a b)"
  using server_add_eq [OF assms] by blast

lemma server_add_queues_witness:
  "\<exists>q m c. wimp_server_add ex_server ''a'' ''go'' (Some ''xyz'') (length ''xy'') = Ok (ex_server\<lparr>outgoingmsg := q, smem := m\<rparr>)
    \<and> queue_rel m q ([0, 1] @ [c]) \<and> mem_ok m \<and> holds m c (instr_wire (server_name ex_server) ''a'' ''go'' ''xy'')
    \<and> (\<forall>a b. holds (smem ex_server) a b \<longrightarrow> holds m a b)"
  by (rule server_add_queues) (use ex_queue in \<open>simp_all add: instr_size_def\<close>)

subsection \<open>Freeing the server\<close>

definition exit_item :: "bytes \<Rightarrow> addr HashStringEntry \<Rightarrow> wire_item" where
  "exit_item me e = Instr me (hkey e) WIMP_INSTRUCTION_EXIT []"

definition is_child :: "WimpProcessData heap \<Rightarrow> addr HashStringEntry \<Rightarrow> bool" where
  "is_child procs e \<longleftrightarrow> (\<exists>d. cells procs (hvalue e) = Some d \<and> process_relation d = WIMP_Process_Child)"

lemma exit_children_stored:
  assumes "queue_rel (smem st) (outgoingmsg st) as" and "mem_ok (smem st)" and "stored (smem st) (ts @ as) zs"
    and "\<forall>e \<in> set es. cells (sprocs st) (hvalue e) \<noteq> None"
    and "\<forall>e \<in> set es. is_child (sprocs st) e \<longrightarrow> wf_item (exit_item (server_name st) e)"
  shows "\<exists>q m cs. exit_children es st = Ok (st\<lparr>outgoingmsg := q, smem := m\<rparr>)
    \<and> queue_rel m q (as @ cs) \<and> mem_ok m \<and> queue_locks q = queue_locks (outgoingmsg st)
    \<and> stored m (ts @ as @ cs) (zs @ map (exit_item (server_name st)) (filter (is_child (sprocs st)) es))
    \<and> (\<forall>r. queue_rel (smem st) r ts \<longrightarrow> queue_rel m r ts)"
  using assms
proof (induction es arbitrary: st as zs)
  case Nil
  have "st\<lparr>outgoingmsg := outgoingmsg st, smem := smem st\<rparr> = st" by simp
  then show ?case using Nil
    by (intro exI [of _ "outgoingmsg st"] exI [of _ "smem st"] exI [of _ "[]"]) simp
next
  case (Cons e es)
  obtain d where d: "cells (sprocs st) (hvalue e) = Some d" using Cons.prems(4) by auto
  show ?case
  proof (cases "process_relation d = WIMP_Process_Child")
    case False
    then have n: "\<not> is_child (sprocs st) e" and s: "exit_children (e # es) st = exit_children es st"
      using d by (simp_all add: is_child_def)
    show ?thesis unfolding s using Cons.IH [OF Cons.prems(1-3)] Cons.prems(4,5) n by simp
  next
    case True
    then have c: "is_child (sprocs st) e" using d by (simp add: is_child_def)
    then have wf: "wf_item (exit_item (server_name st) e)" using Cons.prems(5) by simp
    let ?x = "exit_item (server_name st) e"
    have np: "?x \<noteq> Ping" by (simp add: exit_item_def)
    obtain q m b where dl: "deliver (smem st) (outgoingmsg st) (item_wire ?x) = Ok (q, m)"
      "queue_rel m q (as @ [b])" "mem_ok m" "stored m (ts @ as @ [b]) (zs @ [?x])"
      "queue_locks q = queue_locks (outgoingmsg st)" "\<forall>r. queue_rel (smem st) r ts \<longrightarrow> queue_rel m r ts"
      using deliver_stored [OF Cons.prems(1,2,3) wf np] by blast
    let ?st = "st\<lparr>outgoingmsg := q, smem := m\<rparr>"
    have "instr_size (server_name st) (hkey e) WIMP_INSTRUCTION_EXIT [] < 2 ^ 64"
      using wf by (simp add: exit_item_def)
    then have "wimp_server_add st (hkey e) WIMP_INSTRUCTION_EXIT None 0 = Ok ?st"
      using server_add_deliver [OF Cons.prems(2), of "hkey e" WIMP_INSTRUCTION_EXIT "[]" None] dl(1)
      by (simp add: exit_item_def)
    then have s: "exit_children (e # es) st = exit_children es ?st" using d True by simp
    have st': "queue_rel (smem ?st) (outgoingmsg ?st) (as @ [b])" "mem_ok (smem ?st)"
      "stored (smem ?st) (ts @ (as @ [b])) (zs @ [?x])"
      "\<forall>e \<in> set es. cells (sprocs ?st) (hvalue e) \<noteq> None"
      "\<forall>e \<in> set es. is_child (sprocs ?st) e \<longrightarrow> wf_item (exit_item (server_name ?st) e)"
      using dl Cons.prems(4,5) by simp_all
    obtain q' m' cs where IH: "exit_children es ?st = Ok (?st\<lparr>outgoingmsg := q', smem := m'\<rparr>)"
      "queue_rel m' q' ((as @ [b]) @ cs)" "mem_ok m'" "queue_locks q' = queue_locks (outgoingmsg ?st)"
      "stored m' (ts @ (as @ [b]) @ cs) ((zs @ [?x]) @ map (exit_item (server_name ?st)) (filter (is_child (sprocs ?st)) es))"
      "\<forall>r. queue_rel (smem ?st) r ts \<longrightarrow> queue_rel m' r ts"
      using Cons.IH [OF st'] by blast
    show ?thesis unfolding s using IH dl(5,6) c
      by (intro exI [of _ q'] exI [of _ m'] exI [of _ "b # cs"]) simp
  qed
qed

lemma stored_freed:
  assumes "stored m (ts @ as) (ys @ xs)" and "length ts = length ys"
  shows "stored (freed m as) ts ys"
  using assms
proof (induction as arbitrary: m xs)
  case Nil
  then have "xs = []" by (auto simp: stored_def dest!: list_all2_lengthD)
  then show ?case using Nil by (simp add: freed_def remove_keys_def)
next
  case (Cons a as)
  have "length (a # as) = length xs" using Cons.prems by (auto simp: stored_def dest!: list_all2_lengthD)
  then obtain x xs' where xs: "xs = x # xs'" by (cases xs) auto
  have "a \<notin> set as" using Cons.prems(1) by (auto simp: stored_def)
  then show ?case
    using Cons.IH [of "freed m [a]" xs'] stored_remove(2) [of m ts a as ys x xs'] Cons.prems xs freed_freed [of a as m]
    by simp
qed

text \<open>The traversal queues the exit instructions, sending empties the outgoing queue, and the rest is freed.\<close>

lemma server_free_exits:
  assumes ok: "ptable_ok (sprocs st) (ptable st)" and h: "hash_table (ptable st) = Some h" "entry_count h < 2 ^ 64"
    and q: "queue_rel (smem st) (incomingmsg st) ins" "queue_rel (smem st) (outgoingmsg st) []"
      "stored (smem st) ins xs" "mem_ok (smem st)"
    and es: "es = filter (is_child (sprocs st)) (concat (butlast (htable h)))"
    and wf: "\<forall>e \<in> set es. wf_item (exit_item (server_name st) e) \<and> routed_to st (hkey e) (con e)"
    and "sends_ok res (sends st)" "length (sendbuffer st) = 512"
    and "length es + (\<Sum>e \<leftarrow> es. length (item_wire (exit_item (server_name st) e))) < fuel"
  shows "\<exists>st' log. wimp_server_free fuel res st = Ok st' \<and> sent st' = sent st @ log
    \<and> (\<forall>c. con_bytes c log = stream_wire (map (exit_item (server_name st)) (filter (\<lambda>e. con e = c) es)))
    \<and> (\<forall>a \<in> set ins. cells (nodes (smem st')) a = None)"
proof -
  let ?st0 = "st\<lparr>s_active := 0\<rparr>" and ?es = "concat (butlast (htable h))"
  let ?items = "map (exit_item (server_name st)) es" and ?msgs = "map (\<lambda>e. (exit_item (server_name st) e, con e)) es"
  have hok: "hash_ok h" and alloc: "\<forall>k a. hash_lookup h k = Some a \<longrightarrow> cells (sprocs st) a \<noteq> None"
    using ok h(1) by (auto simp: ptable_ok_def)
  have vis: "\<forall>e \<in> set ?es. cells (sprocs st) (hvalue e) \<noteq> None"
  proof
    fix e assume "e \<in> set ?es"
    then have "e \<in> set (concat (htable h))" by (auto dest: in_set_butlastD)
    then have "hash_lookup h (hkey e) = Some (hvalue e)"
      by (subst lookup_iff_entry [OF hok]) (auto simp del: set_concat)
    then show "cells (sprocs st) (hvalue e) \<noteq> None" using alloc by blast
  qed
  have s0: "queue_rel (smem ?st0) (outgoingmsg ?st0) []" "mem_ok (smem ?st0)" "stored (smem ?st0) (ins @ []) xs"
    "\<forall>e \<in> set ?es. cells (sprocs ?st0) (hvalue e) \<noteq> None"
    "\<forall>e \<in> set ?es. is_child (sprocs ?st0) e \<longrightarrow> wf_item (exit_item (server_name ?st0) e)"
    using q vis wf es by simp_all
  obtain q1 m cs where x: "exit_children ?es ?st0 = Ok (?st0\<lparr>outgoingmsg := q1, smem := m\<rparr>)" "queue_rel m q1 cs"
    "mem_ok m" "queue_locks q1 = queue_locks (outgoingmsg st)" "stored m (ins @ cs) (xs @ ?items)"
    "\<forall>r. queue_rel (smem st) r ins \<longrightarrow> queue_rel m r ins"
    using exit_children_stored [OF s0] by (auto simp: es)
  let ?st1 = "?st0\<lparr>outgoingmsg := q1, smem := m\<rparr>"
  have l: "length ins = length xs" using q(3) by (auto simp: stored_def dest: list_all2_lengthD)
  have r: "routed_to ?st1 d c \<longleftrightarrow> routed_to st d c" for d c by (rule routed_to_cong) simp_all
  have sc: "stored m cs ?items" using x(5) l by (auto simp: stored_def list_all2_append)
  have "sendable ?st1 a (exit_item (server_name st) e, con e)"
    if "item_at m a (exit_item (server_name st) e)" "e \<in> set es" for a e
    using that wf r by (simp add: sendable_def item_at_def) (simp add: exit_item_def)
  then have sd: "list_all2 (sendable ?st1) cs ?msgs"
    using sc by (auto simp: stored_def list_all2_map2 elim!: list.rel_mono_strong)
  have fu: "length cs + (\<Sum>x \<leftarrow> ?msgs. length (item_wire (fst x))) < fuel"
    using assms(12) list_all2_lengthD [OF sd] by (simp add: comp_def)
  have s1: "queue_rel (smem ?st1) (outgoingmsg ?st1) cs" "bufs_owned (smem ?st1) cs" "sends_ok res (sends ?st1)"
    "length (sendbuffer ?st1) = 512"
    using x(2) stored_owned [OF sc] assms(10,11) by simp_all
  obtain st2 where s2: "send_loop fuel res ?st1 = Ok st2" "sent_all ?st1 cs ?msgs st2"
    using send_loop_all [OF s1(1) sd s1(2-4) fu] by blast
  obtain st3 where s3: "wimp_server_send_instructions fuel res ?st1 = Ok (WIMP_SERVER_SUCCESS, st3)"
    "st3 = st2\<lparr>slocks := slocks st3\<rparr>"
    using send_instructions_eq [OF s2(1)] s2(2) by (auto simp: sent_all_def)
  have f2: "smem st2 = freed m cs" "incomingmsg st2 = incomingmsg st"
    "sprocs st2 = sprocs st" "ptable st2 = ptable st"
    using s2(2) by (simp_all add: sent_all_def)
  have e2: "queue_rel m' (outgoingmsg st2) []" for m'
    using s2(2) unfolding sent_all_def queue_rel_def by simp
  obtain log where log: "sent st2 = sent st @ log" "\<forall>c. con_bytes c log = msg_bytes c ?msgs"
    using s2(2) by (auto simp: sent_all_def)
  obtain procs where t: "wimp_process_table_free (sprocs st) (ptable st) = Ok (procs, concat (htable h))"
    using table_free_eq [OF ok h] by blast
  have "queue_rel m (incomingmsg st) ins" "set ins \<inter> set cs = {}"
    using x(5,6) q(1) by (auto simp: stored_def)
  then have qi: "queue_rel (freed m cs) (incomingmsg st) ins"
    by (subst queue_rel_frame [of _ _ m]) (auto simp: freed_def remove_keys_def)
  have ho: "heap_ok (nodes (freed m cs))" using mem_ok_freed [OF x(3)] by (simp add: mem_ok_def)
  obtain m1 where fi: "wimp_instr_queue_free (freed m cs) (incomingmsg st) = Ok ([MFree (datamutex (incomingmsg st)),
      MFree (nextmutex (incomingmsg st)), MFree (lowpriomutex (incomingmsg st))], m1)"
    "cells (nodes m1) = remove_keys (cells (nodes (freed m cs))) (set ins)"
    using queue_free_rel [OF qi stored_owned [OF stored_freed [OF x(5) l]] ho] by blast
  note fo = queue_free_empty [OF e2 [of m1]]
  let ?r = "st2\<lparr>sprocs := procs, smem := m1,
      slocks := slocks st3 @ [MFree (datamutex (incomingmsg st)), MFree (nextmutex (incomingmsg st)), MFree (lowpriomutex (incomingmsg st))]
        @ [MFree (datamutex (outgoingmsg st2)), MFree (nextmutex (outgoingmsg st2)), MFree (lowpriomutex (outgoingmsg st2))],
      parent := None, s_recbuffer := WIMP_ZERO_BUFFER, sendbuffer := WIMP_ZERO_BUFFER\<rparr>"
  have f3: "sprocs st3 = sprocs st" "ptable st3 = ptable st" "smem st3 = freed m cs" "incomingmsg st3 = incomingmsg st"
    "outgoingmsg st3 = outgoingmsg st2" "sent st3 = sent st2"
    by (subst s3(2), simp add: f2)+
  have "\<exists>st'. wimp_server_free fuel res st = Ok st' \<and> sent st' = sent st2 \<and> smem st' = m1"
    unfolding wimp_server_free_def Let_def using h(1) fo
    by (simp add: HASH_STRING_ITER_eq [OF hok] x(1) s3(1) f3 t fi(1))
  moreover have "msg_bytes c ?msgs = stream_wire (map (exit_item (server_name st)) (filter (\<lambda>e. con e = c) es))" for c
    by (simp add: msg_bytes_def filter_map comp_def)
  ultimately show ?thesis using log fi(2) by (fastforce simp: remove_keys_def)
qed

text \<open>C22: Freeing a server whose children are active and can be reached sends each child the traversal
  visits the exit instruction, and nothing else; the children in the last bucket of the process table, which
  the traversal leaves out, are sent nothing. The incoming queue is freed with its nodes and instructions, and
  no fault occurs.\<close>

theorem free_sends_exit:
  assumes ok: "ptable_ok (sprocs st) (ptable st)" and h: "hash_table (ptable st) = Some h" "entry_count h < 2 ^ 64"
    and q: "queue_rel (smem st) (incomingmsg st) ins" "queue_rel (smem st) (outgoingmsg st) []"
      "stored (smem st) ins xs" "mem_ok (smem st)"
    and es: "es = filter (is_child (sprocs st)) (concat (butlast (htable h)))"
    and wf: "\<forall>e \<in> set es. wf_item (exit_item (server_name st) e) \<and> routed_to st (hkey e) (con e)"
    and "sends_ok res (sends st)" "length (sendbuffer st) = 512"
    and "length es + (\<Sum>e \<leftarrow> es. length (item_wire (exit_item (server_name st) e))) < fuel"
  shows "\<exists>st' log. wimp_server_free fuel res st = Ok st' \<and> sent st' = sent st @ log
    \<and> (\<forall>c. con_bytes c log = stream_wire (map (exit_item (server_name st)) (filter (\<lambda>e. con e = c) es)))
    \<and> (\<forall>a \<in> set ins. cells (nodes (smem st')) a = None)"
  using server_free_exits [OF assms] .

text \<open>Two children, one in each of two buckets: only the first is sent the exit instruction.\<close>

definition ex_hash :: "addr HashString" where
  "ex_hash = \<lparr>hsize = 2, htable = [[\<lparr>hkey = ''a'', hvalue = 0\<rparr>], [\<lparr>hkey = ''b'', hvalue = 1\<rparr>]]\<rparr>"

definition ex_family :: server_state where
  "ex_family = ex_wait\<lparr>ptable := \<lparr>hash_table = Some ex_hash, table_length = 2\<rparr>,
     sprocs := ex_procs\<lparr>cells := (cells ex_procs)(1 \<mapsto> the (cells ex_procs 0))\<rparr>\<rparr>"

lemma ex_hash: "hash_ok ex_hash" "entry_count ex_hash = 2"
  "hash_lookup ex_hash k = (if k = ''a'' then Some 0 else if k = ''b'' then Some 1 else None)"
proof -
  have s: "slot ex_hash ''a'' = 0" "slot ex_hash ''b'' = 1"
    by (simp_all add: ex_hash_def slot_def FNV_PRIME_def FNV_OFFSET_BASIS_def)
  show h: "hash_ok ex_hash" using s by (auto simp: ex_hash_def hash_ok_def chain_ok_def less_Suc_eq)
  show "entry_count ex_hash = 2" by (simp add: entry_count_def ex_hash_def)
  have "hash_lookup ex_hash k = Some v \<longleftrightarrow> k = ''a'' \<and> v = 0 \<or> k = ''b'' \<and> v = 1" for v
    unfolding lookup_iff_entry [OF h] by (auto simp: ex_hash_def)
  then show "hash_lookup ex_hash k = (if k = ''a'' then Some 0 else if k = ''b'' then Some 1 else None)"
    by (cases "hash_lookup ex_hash k") (auto split: if_splits)
qed

theorem free_sends_exit_witness:
  "\<exists>st' log. wimp_server_free 100 (\<lambda>_ n. int n) ex_family = Ok st' \<and> sent st' = sent ex_family @ log
    \<and> (\<forall>c. con_bytes c log = stream_wire (map (exit_item (server_name ex_family))
          (filter (\<lambda>e. Some 7 = c) [\<lparr>hkey = ''a'', hvalue = 0\<rparr>])))
    \<and> (\<forall>a \<in> set []. cells (nodes (smem st')) a = None)"
proof (rule free_sends_exit [where xs = "[]"])
  show "ptable_ok (sprocs ex_family) (ptable ex_family)"
    using ex_hash by (auto simp: ptable_ok_def ex_family_def ex_procs_def heap_ok_def split: if_splits)
  show "[\<lparr>hkey = ''a'', hvalue = 0\<rparr>] = filter (is_child (sprocs ex_family)) (concat (butlast (htable ex_hash)))"
    by (simp add: ex_hash_def is_child_def ex_family_def ex_procs_def)
  have "wimp_process_table_get (ptable ex_family) (Some ''a'') = Ok (0, Some 0)"
    using table_get_eq [of "ptable ex_family" ex_hash "''a''"] ex_hash by (simp add: ex_family_def ptable_consts)
  then have "routed_to ex_family ''a'' (Some 7)"
    by (simp add: routed_to_def send_target_def ptable_consts) (simp add: ex_family_def ex_wait_def ex_procs_def)
  then show "\<forall>e \<in> set [\<lparr>hkey = ''a'', hvalue = 0\<rparr>]. wf_item (exit_item (server_name ex_family) e) \<and> routed_to ex_family (hkey e) (Some 7)"
    by (simp add: exit_item_def ex_family_def ex_wait_def WIMP_INSTRUCTION_EXIT_def instr_size_def rec_consts)
  show "queue_rel (smem ex_family) (outgoingmsg ex_family) []" "queue_rel (smem ex_family) (incomingmsg ex_family) []"
    "stored (smem ex_family) [] []" "mem_ok (smem ex_family)"
    using empty_mem_ok by (simp_all add: ex_family_def ex_wait_def stored_def mem_ok_def)
qed (simp_all add: ex_hash ex_family_def ex_wait_def sends_ok_def WIMP_ZERO_BUFFER_def rec_consts exit_item_def length_wire
    instr_size_def WIMP_INSTRUCTION_EXIT_def del: item_wire.simps)

end
