(* ===== verification/Simple_Arena.thy ===== *)
theory Simple_Arena
  imports Wimp_Prelude
begin

section \<open>The arena allocator (\<open>utility/simple_arena.c\<close>)\<close>

text \<open>
  An arena is a block with a bump pointer. Sizes are \<open>size_t\<close>, so that the sum of the pointer
  and a requested size wraps around as in the code. The block is an address of a heap, or NULL
  when the arena lives in shared memory.
\<close>

record SArena =
  arena_size :: size_t
  arena_capacity :: size_t
  arena_pointer :: size_t
  arena_data :: "addr option"

definition sarena :: SArena where
  "sarena = \<lparr>arena_size = 0, arena_capacity = 0, arena_pointer = 0, arena_data = None\<rparr>"

definition sarena_init :: "SArena \<Rightarrow> addr option \<Rightarrow> size_t \<Rightarrow> bool \<times> SArena" where
  "sarena_init arena ptr capacity =
     (if arena_capacity arena \<noteq> 0 \<or> arena_data arena \<noteq> None then (False, arena)
      else (True, arena\<lparr>arena_capacity := capacity, arena_size := 0, arena_data := ptr\<rparr>))"

definition sarena_init_new :: "bytes heap \<Rightarrow> SArena \<Rightarrow> size_t \<Rightarrow> (bool \<times> SArena \<times> bytes heap) outcome" where
  "sarena_init_new h arena capacity =
     (let (data, h) = halloc h (replicate (unat capacity) NUL) in
      if data = None then Ok (False, arena, h)
      else
        let (res, arena) = sarena_init arena data capacity in
        if \<not> res then bnd (hfree h data) (\<lambda>h. Ok (res, arena, h))
        else Ok (res, arena, h))"

definition sarena_free :: "bytes heap \<Rightarrow> SArena \<Rightarrow> (SArena \<times> bytes heap) outcome" where
  "sarena_free h arena =
     (let arena = arena\<lparr>arena_capacity := 0, arena_size := 0\<rparr> in
      bnd (if arena_data arena \<noteq> None then hfree h (arena_data arena) else Ok h) (\<lambda>h.
      Ok (arena\<lparr>arena_data := None\<rparr>, h)))"

text \<open>The assertion allows the last byte to be used, the test after it does not. NULL is the pointer 0.\<close>

definition sarena_alloc :: "SArena \<Rightarrow> size_t \<Rightarrow> (size_t \<times> SArena) outcome" where
  "sarena_alloc arena nbytes =
     (let new_arena_ptr = arena_pointer arena + nbytes in
      bnd (guard_or AssertFailed (new_arena_ptr \<le> arena_capacity arena)) (\<lambda>_.
      if new_arena_ptr \<ge> arena_capacity arena then Ok (0, arena)
      else
        let old_arena_ptr = arena_pointer arena in
        Ok (old_arena_ptr,
            arena\<lparr>arena_pointer := new_arena_ptr, arena_size := arena_size arena + nbytes\<rparr>)))"

section \<open>Sequences of allocations\<close>

fun alloc_all :: "SArena \<Rightarrow> size_t list \<Rightarrow> (size_t list \<times> SArena) outcome" where
  "alloc_all arena [] = Ok ([], arena)"
| "alloc_all arena (n # ns) =
     bnd (sarena_alloc arena n) (\<lambda>(p, arena). bnd (alloc_all arena ns) (\<lambda>(ps, arena). Ok (p # ps, arena)))"

text \<open>The bytes of the block that starts at \<open>p\<close>.\<close>

definition block :: "size_t \<Rightarrow> size_t \<Rightarrow> nat set" where
  "block p n = {unat p ..< unat p + unat n}"

text \<open>The bump pointer stays below the capacity, once anything has been allocated.\<close>

definition arena_ok :: "SArena \<Rightarrow> bool" where
  "arena_ok a \<longleftrightarrow> arena_pointer a = 0 \<or> arena_pointer a < arena_capacity a"

lemma sarena_ok: "arena_ok sarena"
  by (simp add: arena_ok_def sarena_def)

lemma size_bound: "unat (n :: size_t) < 2 ^ 64"
  using unsigned_less [of n] by simp

lemma sarena_alloc_cases:
  assumes "unat (arena_pointer a) + unat n < 2 ^ 64"
  shows "sarena_alloc a n =
    (if unat (arena_pointer a) + unat n < unat (arena_capacity a)
     then Ok (arena_pointer a, a\<lparr>arena_pointer := arena_pointer a + n, arena_size := arena_size a + n\<rparr>)
     else if unat (arena_pointer a) + unat n = unat (arena_capacity a) then Ok (0, a)
     else Fault AssertFailed)"
proof -
  have u: "unat (arena_pointer a + n) = unat (arena_pointer a) + unat n"
    using assms by (simp add: unat_word_ariths)
  show ?thesis
    by (simp add: sarena_alloc_def Let_def word_le_nat_alt u)
qed

lemma sarena_alloc_pointer:
  assumes "sarena_alloc a n = Ok (p, a')" and "arena_ok a"
  shows "arena_capacity a' = arena_capacity a" and "arena_ok a'"
proof -
  show "arena_capacity a' = arena_capacity a"
    using assms(1) by (auto simp: sarena_alloc_def Let_def outcome_simps split: if_splits)
  show "arena_ok a'"
    using assms by (auto simp: sarena_alloc_def Let_def outcome_simps arena_ok_def not_le split: if_splits)
qed

text \<open>A sequence of allocations whose total stays below the capacity yields blocks one after the other.\<close>

lemma alloc_all_run:
  assumes "unat (arena_pointer a) + (\<Sum>n \<leftarrow> ns. unat n) < unat (arena_capacity a)"
  shows "\<exists>ps a'. alloc_all a ns = Ok (ps, a') \<and> length ps = length ns
    \<and> unat (arena_pointer a') = unat (arena_pointer a) + (\<Sum>n \<leftarrow> ns. unat n)
    \<and> arena_capacity a' = arena_capacity a
    \<and> (\<forall>i < length ns. unat (ps ! i) = unat (arena_pointer a) + (\<Sum>n \<leftarrow> take i ns. unat n))"
  using assms
proof (induction ns arbitrary: a)
  case Nil
  then show ?case by simp
next
  case (Cons n ns)
  have cap: "unat (arena_capacity a) < 2 ^ 64" by (rule size_bound)
  have b: "unat (arena_pointer a) + unat n < 2 ^ 64" "unat (arena_pointer a) + unat n < unat (arena_capacity a)"
    using Cons.prems cap by simp_all
  let ?a = "a\<lparr>arena_pointer := arena_pointer a + n, arena_size := arena_size a + n\<rparr>"
  have al: "sarena_alloc a n = Ok (arena_pointer a, ?a)" using sarena_alloc_cases [OF b(1)] b(2) by simp
  have u: "unat (arena_pointer ?a) = unat (arena_pointer a) + unat n"
    using b(1) by (simp add: unat_word_ariths)
  have "unat (arena_pointer ?a) + (\<Sum>n \<leftarrow> ns. unat n) < unat (arena_capacity ?a)"
    using Cons.prems u by simp
  from Cons.IH [OF this] obtain ps a' where IH: "alloc_all ?a ns = Ok (ps, a')" "length ps = length ns"
    "unat (arena_pointer a') = unat (arena_pointer ?a) + (\<Sum>n \<leftarrow> ns. unat n)"
    "arena_capacity a' = arena_capacity ?a"
    "\<forall>i < length ns. unat (ps ! i) = unat (arena_pointer ?a) + (\<Sum>n \<leftarrow> take i ns. unat n)"
    by blast
  have "\<forall>i < length (n # ns). unat ((arena_pointer a # ps) ! i)
      = unat (arena_pointer a) + (\<Sum>n \<leftarrow> take i (n # ns). unat n)"
  proof (intro allI impI)
    fix i assume "i < length (n # ns)"
    then show "unat ((arena_pointer a # ps) ! i) = unat (arena_pointer a) + (\<Sum>n \<leftarrow> take i (n # ns). unat n)"
      using IH(5) u by (cases i) simp_all
  qed
  then show ?case using IH(1-4) al u
    by (intro exI [of _ "arena_pointer a # ps"] exI [of _ a']) simp
qed

lemma sum_list_take_mono:
  fixes xs :: "nat list"
  assumes "i < j" and "j \<le> length xs"
  shows "sum_list (take i xs) + xs ! i \<le> sum_list (take j xs)"
proof -
  have s: "take (Suc i) xs = take i xs @ [xs ! i]" using assms by (simp add: take_Suc_conv_app_nth)
  have "take j xs = take (Suc i) xs @ drop (Suc i) (take j xs)"
    using assms by (metis Suc_leI append_take_drop_id min.absorb1 take_take)
  then have "sum_list (take j xs) = sum_list (take (Suc i) xs) + sum_list (drop (Suc i) (take j xs))"
    by (metis sum_list_append)
  then show ?thesis by (simp add: s)
qed

section \<open>Properties\<close>

text \<open>C30: Allocations whose total stays below the room left succeed one after the other: the blocks they yield
  lie within the arena and do not overlap.\<close>

theorem arena_blocks_disjoint:
  assumes "unat (arena_pointer a) + (\<Sum>n \<leftarrow> ns. unat n) < unat (arena_capacity a)"
  shows "\<exists>ps a'. alloc_all a ns = Ok (ps, a') \<and> length ps = length ns
    \<and> (\<forall>i < length ns. block (ps ! i) (ns ! i) \<subseteq> {unat (arena_pointer a) ..< unat (arena_capacity a)})
    \<and> (\<forall>i < length ns. \<forall>j < length ns. i \<noteq> j \<longrightarrow> block (ps ! i) (ns ! i) \<inter> block (ps ! j) (ns ! j) = {})"
proof -
  obtain ps a' where r: "alloc_all a ns = Ok (ps, a')" "length ps = length ns"
    "\<forall>i < length ns. unat (ps ! i) = unat (arena_pointer a) + (\<Sum>n \<leftarrow> take i ns. unat n)"
    using alloc_all_run [OF assms] by blast
  let ?us = "map unat ns"
  have p: "unat (ps ! i) = unat (arena_pointer a) + sum_list (take i ?us)" if "i < length ns" for i
    using r(3) that by (simp add: take_map)
  have m: "unat (ps ! i) + unat (ns ! i) \<le> unat (ps ! j)" if "i < j" "j < length ns" for i j
    using sum_list_take_mono [of i j ?us] that p [of i] p [of j] by simp
  have e: "unat (ps ! i) + unat (ns ! i) < unat (arena_capacity a)" if "i < length ns" for i
    using sum_list_take_mono [of i "length ns" ?us] that p [of i] assms by simp
  have "block (ps ! i) (ns ! i) \<inter> block (ps ! j) (ns ! j) = {}" if "i < length ns" "j < length ns" "i \<noteq> j" for i j
    using m [of i j] m [of j i] that by (cases "i < j") (auto simp: block_def)
  moreover have "block (ps ! i) (ns ! i) \<subseteq> {unat (arena_pointer a) ..< unat (arena_capacity a)}" if "i < length ns" for i
    using e [OF that] p [OF that] by (auto simp: block_def)
  ultimately show ?thesis using r(1,2) by blast
qed

theorem arena_blocks_disjoint_witness:
  "\<exists>ps a'. alloc_all (sarena\<lparr>arena_capacity := 100\<rparr>) [10, 20, 30] = Ok (ps, a') \<and> length ps = length [10, 20, 30 :: size_t]
    \<and> (\<forall>i < length [10, 20, 30 :: size_t]. block (ps ! i) ([10, 20, 30] ! i)
        \<subseteq> {unat (arena_pointer (sarena\<lparr>arena_capacity := 100\<rparr>)) ..< unat (arena_capacity (sarena\<lparr>arena_capacity := 100\<rparr>))})
    \<and> (\<forall>i < length [10, 20, 30 :: size_t]. \<forall>j < length [10, 20, 30 :: size_t]. i \<noteq> j \<longrightarrow>
        block (ps ! i) ([10, 20, 30] ! i) \<inter> block (ps ! j) ([10, 20, 30] ! j) = {})"
  by (rule arena_blocks_disjoint) (simp add: sarena_def)

text \<open>A request that fits the arena exactly is answered with NULL, which is also the pointer of the very
  first block; and a size that makes the sum of pointer and size wrap around is granted although the block
  reaches beyond the arena, and the pointer moves backwards over blocks already given out.\<close>

lemma arena_alloc_limits:
  assumes "arena_pointer a = p" and "0 < n" and "n \<le> p" and "p \<le> arena_capacity a"
  shows "sarena_alloc a (arena_capacity a - p) = Ok (0, a)
    \<and> sarena_alloc a (- n) = Ok (p, a\<lparr>arena_pointer := p - n, arena_size := arena_size a - n\<rparr>)"
proof -
  have "p - n < p" using assms(2,3) by (simp add: word_less_nat_alt word_le_nat_alt unat_sub)
  then have "p - n < arena_capacity a" using assms(4) by (rule less_le_trans)
  then have "p - n \<le> arena_capacity a" "\<not> arena_capacity a \<le> p - n" by simp_all
  then show ?thesis using assms(1) by (simp add: sarena_alloc_def Let_def)
qed

lemma arena_alloc_limits_witness:
  "sarena_alloc (sarena\<lparr>arena_capacity := 100, arena_pointer := 60\<rparr>) (arena_capacity (sarena\<lparr>arena_capacity := 100, arena_pointer := 60\<rparr>) - 60)
      = Ok (0, sarena\<lparr>arena_capacity := 100, arena_pointer := 60\<rparr>)
    \<and> sarena_alloc (sarena\<lparr>arena_capacity := 100, arena_pointer := 60\<rparr>) (- 20)
      = Ok (60, sarena\<lparr>arena_capacity := 100, arena_pointer := 60,
          arena_pointer := 60 - 20, arena_size := arena_size (sarena\<lparr>arena_capacity := 100, arena_pointer := 60\<rparr>) - 20\<rparr>)"
  by (rule arena_alloc_limits) simp_all

end
