(* ===== verification/Wimp_Data.thy ===== *)
theory Wimp_Data
  imports HashString Simple_Arena
begin

section \<open>Shared data (\<open>wimp_data.c\<close>)\<close>

text \<open>
  Processes share named memory segments through a table of 64 slots that lives in a segment of
  its own. Each process has the handle of the table, a cache of segment handles by slot, and a
  hash table from names to slots. The state below is one process together with the slots of the
  table; \<open>shm_log\<close> lists the calls of the shared-memory library in order.

  What the library returns is a parameter: \<open>shm k\<close> is the result of the \<open>k\<close>th creation call (a handle
  or NULL, whether an error was set, the size of the segment). The address of a segment is
  represented by its handle. Numbers that reach beyond a slot's name or a cache are faults.

  The first part holds the operations, the second the invariant of the table and the properties.
\<close>

subsection \<open>State\<close>

definition WIMP_MAX_SHARED_SLOTS :: nat where "WIMP_MAX_SHARED_SLOTS = 64"
definition WIMP_SHARED_SLOT_MAX_NAME_BYTES :: nat where "WIMP_SHARED_SLOT_MAX_NAME_BYTES = 64"
definition WIMP_DATA_SUCCESS :: int where "WIMP_DATA_SUCCESS = 0"
definition WIMP_DATA_FAIL :: int where "WIMP_DATA_FAIL = - 1"

text \<open>A slot takes 112 bytes: the counter with its padding, the size, the arena and the name.\<close>

definition TABLE_LENGTH :: nat where "TABLE_LENGTH = 112 * WIMP_MAX_SHARED_SLOTS"

lemmas data_consts = WIMP_MAX_SHARED_SLOTS_def WIMP_SHARED_SLOT_MAX_NAME_BYTES_def WIMP_DATA_SUCCESS_def
  WIMP_DATA_FAIL_def TABLE_LENGTH_def

record WimpDataSlot =
  share_counter :: int
  slot_size :: size_t
  data_arena :: SArena
  slot_name :: bytes

record WimpDataArena =
  wa_arena :: SArena
  wa_shm :: "nat option"

record shm_result =
  shm_handle :: "nat option"
  shm_error :: bool
  shm_bytes :: nat

datatype shm_call =
    ShmNew bytes nat
  | ShmTakeOwnership "nat option"
  | ShmFree "nat option"
  | ShmLock "nat option"
  | ShmUnlock "nat option"
  | MapDestroyed "nat HashStringEntry list"

record data_state =
  s_DataTable :: "nat option"
  s_DataTableCacheMap :: "nat HashString option"
  s_DataTableCache :: "nat option list"
  s_MemoryName :: "bytes option"
  s_IsTableLinked :: bool
  slots :: "WimpDataSlot list"
  shm_log :: "shm_call list"
  shm_news :: nat

definition log_call :: "shm_call \<Rightarrow> data_state \<Rightarrow> data_state" where
  "log_call c st = st\<lparr>shm_log := shm_log st @ [c]\<rparr>"

definition p_shm_new :: "(nat \<Rightarrow> shm_result) \<Rightarrow> bytes \<Rightarrow> nat \<Rightarrow> data_state \<Rightarrow> shm_result \<times> data_state" where
  "p_shm_new shm name n st =
     (shm (shm_news st), log_call (ShmNew name n) (st\<lparr>shm_news := Suc (shm_news st)\<rparr>))"

definition no_name :: bytes where
  "no_name = replicate WIMP_SHARED_SLOT_MAX_NAME_BYTES NUL"

text \<open>The table behind the process's handle.\<close>

definition table_slots :: "data_state \<Rightarrow> WimpDataSlot list outcome" where
  "table_slots st = (if s_DataTable st = None then Fault NullDeref else Ok (slots st))"

text \<open>Element \<open>i\<close> of an array.\<close>

definition elem :: "'a list \<Rightarrow> nat \<Rightarrow> 'a outcome" where
  "elem xs i = (if i < length xs then Ok (xs ! i) else Fault OutOfBounds)"

text \<open>\<open>++\<close> on an \<open>int32_t\<close>.\<close>

definition incr32 :: "int \<Rightarrow> int outcome" where
  "incr32 i = (if i < 2 ^ 31 - 1 then Ok (i + 1) else Fault Overflow)"

subsection \<open>Creating and linking the table\<close>

text \<open>The handle, whether either creation set the error, and the size.\<close>

definition wimp_create_fresh_shm ::
    "(nat \<Rightarrow> shm_result) \<Rightarrow> bytes \<Rightarrow> nat \<Rightarrow> data_state \<Rightarrow> nat option \<times> bool \<times> nat \<times> data_state" where
  "wimp_create_fresh_shm shm memory_name n st =
     (let (old, st) = p_shm_new shm memory_name n st;
          st = log_call (ShmTakeOwnership (shm_handle old)) st;
          st = log_call (ShmFree (shm_handle old)) st;
          (new, st) = p_shm_new shm memory_name n st
      in (shm_handle new, shm_error old \<or> shm_error new, shm_bytes new, st))"

definition init_slot :: "WimpDataSlot \<Rightarrow> WimpDataSlot" where
  "init_slot s = s\<lparr>share_counter := 0, slot_name := no_name\<rparr>"

text \<open>\<open>initial\<close> is what the new segment holds.\<close>

definition wimp_data_init ::
    "(nat \<Rightarrow> shm_result) \<Rightarrow> bool \<Rightarrow> bool \<Rightarrow> WimpDataSlot list \<Rightarrow> data_state \<Rightarrow> bytes \<Rightarrow> (int \<times> data_state) outcome" where
  "wimp_data_init shm container_ok table_ok initial st memory_name =
     (let (handle, err, n, st) = wimp_create_fresh_shm shm memory_name TABLE_LENGTH st in
      if err \<or> n < TABLE_LENGTH
      then Ok (WIMP_DATA_FAIL, log_call (ShmFree handle) (log_call (ShmTakeOwnership handle) st))
      else
        bnd (deref handle) (\<lambda>_.
        Ok (WIMP_DATA_SUCCESS,
            st\<lparr>slots := map init_slot initial, s_DataTable := handle, s_IsTableLinked := True,
               s_DataTableCacheMap := HashString_create container_ok table_ok (int WIMP_MAX_SHARED_SLOTS)\<rparr>)))"

text \<open>\<open>present\<close> is the table that the master process keeps in the segment.\<close>

definition wimp_data_link_to_process ::
    "(nat \<Rightarrow> shm_result) \<Rightarrow> bool \<Rightarrow> bool \<Rightarrow> bool \<Rightarrow> WimpDataSlot list \<Rightarrow> data_state \<Rightarrow> bytes \<Rightarrow> int \<times> data_state" where
  "wimp_data_link_to_process shm container_ok table_ok malloc_ok present st memory_name =
     (if s_IsTableLinked st then (WIMP_DATA_FAIL, st)
      else
        let (r, st) = p_shm_new shm memory_name TABLE_LENGTH st in
        if shm_error r then (WIMP_DATA_FAIL, log_call (ShmFree (shm_handle r)) st)
        else
          let st = st\<lparr>s_DataTableCache := replicate WIMP_MAX_SHARED_SLOTS None,
                      s_DataTableCacheMap := HashString_create container_ok table_ok (int WIMP_MAX_SHARED_SLOTS),
                      s_DataTable := shm_handle r, slots := present\<rparr>
          in if \<not> malloc_ok then (WIMP_DATA_FAIL, st\<lparr>s_MemoryName := None\<rparr>)
             else (WIMP_DATA_SUCCESS, st\<lparr>s_MemoryName := Some memory_name, s_IsTableLinked := True\<rparr>))"

fun free_cache :: "nat option list \<Rightarrow> shm_call list" where
  "free_cache [] = []"
| "free_cache (c # cs) = (if c \<noteq> None then ShmFree c # free_cache cs else free_cache cs)"

text \<open>Destroying the map frees its entries; the pointer to it stays.\<close>

definition destroy_map :: "data_state \<Rightarrow> data_state outcome" where
  "destroy_map st =
     bnd (deref (s_DataTableCacheMap st)) (\<lambda>h. Ok (log_call (MapDestroyed (HashString_destroy h)) st))"

definition wimp_data_unlink_from_process :: "data_state \<Rightarrow> data_state outcome" where
  "wimp_data_unlink_from_process st =
     (if s_IsTableLinked st then
        let st = log_call (ShmFree (s_DataTable st)) st;
            st = st\<lparr>shm_log := shm_log st @ free_cache (s_DataTableCache st),
                    s_DataTableCache := map (\<lambda>_. None) (s_DataTableCache st)\<rparr>
        in bnd (destroy_map st) (\<lambda>st. Ok (st\<lparr>s_IsTableLinked := False, s_DataTable := None\<rparr>))
      else Ok st)"

subsection \<open>Linking data\<close>

text \<open>The first slot in use with the given name.\<close>

fun find_name :: "WimpDataSlot list \<Rightarrow> bytes \<Rightarrow> nat \<Rightarrow> nat option outcome" where
  "find_name [] name i = Ok None"
| "find_name (s # ss) name i =
     (if share_counter s \<noteq> 0 then
        bnd (cstr_at (slot_name s) 0) (\<lambda>n.
        if n = name then Ok (Some i) else find_name ss name (Suc i))
      else find_name ss name (Suc i))"

text \<open>The result of adding the name to the map is ignored.\<close>

definition map_add :: "bool \<Rightarrow> bool \<Rightarrow> data_state \<Rightarrow> bytes \<Rightarrow> nat \<Rightarrow> data_state outcome" where
  "map_add entry_ok key_ok st name i =
     bnd (HashString_add entry_ok key_ok (s_DataTableCacheMap st) (Some name) i) (\<lambda>(_, m).
     Ok (st\<lparr>s_DataTableCacheMap := m\<rparr>))"

definition wimp_data_link_to_data ::
    "(nat \<Rightarrow> shm_result) \<Rightarrow> bool \<Rightarrow> bool \<Rightarrow> data_state \<Rightarrow> bytes \<Rightarrow> (int \<times> data_state) outcome" where
  "wimp_data_link_to_data shm entry_ok key_ok st name =
     (let st = log_call (ShmLock (s_DataTable st)) st in
      bnd (table_slots st) (\<lambda>data_table.
      bnd (find_name data_table name 0) (\<lambda>found.
      case found of
        None \<Rightarrow> Ok (WIMP_DATA_FAIL, log_call (ShmUnlock (s_DataTable st)) st)
      | Some i \<Rightarrow>
          bnd (elem (s_DataTableCache st) i) (\<lambda>c.
          if c \<noteq> None then Ok (WIMP_DATA_FAIL, log_call (ShmUnlock (s_DataTable st)) st)
          else
            let s = data_table ! i;
                (r, st) = p_shm_new shm name (unat (slot_size s)) st;
                st = st\<lparr>s_DataTableCache := (s_DataTableCache st)[i := shm_handle r]\<rparr>
            in bnd (incr32 (share_counter s)) (\<lambda>k.
               let st = log_call (ShmUnlock (s_DataTable st))
                     (st\<lparr>slots := (slots st)[i := s\<lparr>share_counter := k\<rparr>]\<rparr>)
               in bnd (map_add entry_ok key_ok st name i) (\<lambda>st. Ok (WIMP_DATA_SUCCESS, st)))))))"

definition clear_slot :: "WimpDataSlot \<Rightarrow> WimpDataSlot" where
  "clear_slot s = s\<lparr>share_counter := 0, slot_size := 0,
     data_arena := snd (sarena_init (data_arena s) None 0), slot_name := no_name\<rparr>"

definition wimp_data_unlink_from_data :: "data_state \<Rightarrow> bytes \<Rightarrow> data_state outcome" where
  "wimp_data_unlink_from_data st name =
     (let st = log_call (ShmLock (s_DataTable st)) st in
      bnd (table_slots st) (\<lambda>data_table.
      bnd (find_name data_table name 0) (\<lambda>found.
      case found of
        None \<Rightarrow> Ok (log_call (ShmUnlock (s_DataTable st)) st)
      | Some i \<Rightarrow>
          bnd (elem (s_DataTableCache st) i) (\<lambda>c.
          let s = data_table ! i;
              s = s\<lparr>share_counter := share_counter s - 1\<rparr>;
              st = log_call (ShmFree c) st;
              st = st\<lparr>s_DataTableCache := (s_DataTableCache st)[i := None]\<rparr>
          in bnd (deref (s_DataTableCacheMap st)) (\<lambda>h.
             bnd (HashString_remove h name) (\<lambda>(_, h).
             let s = (if share_counter s \<le> 0 then clear_slot s else s);
                 st = st\<lparr>s_DataTableCacheMap := Some h, slots := (slots st)[i := s]\<rparr>
             in Ok (log_call (ShmUnlock (s_DataTable st)) st)))))))"

subsection \<open>Freeing the table\<close>

text \<open>One slot: it is linked first when the process does not have it cached, then owned and freed.\<close>

definition link_uncached ::
    "(nat \<Rightarrow> shm_result) \<Rightarrow> bool \<Rightarrow> bool \<Rightarrow> WimpDataSlot \<Rightarrow> nat option \<Rightarrow> data_state \<Rightarrow> data_state outcome" where
  "link_uncached shm entry_ok key_ok s c st =
     (if c = None then
        bnd (cstr_at (slot_name s) 0) (\<lambda>n.
        if n \<noteq> [] then
          bnd (wimp_data_link_to_data shm entry_ok key_ok st n) (\<lambda>(_, st). Ok st)
        else Ok st)
      else Ok st)"

definition free_slot ::
    "(nat \<Rightarrow> shm_result) \<Rightarrow> bool \<Rightarrow> bool \<Rightarrow> nat \<Rightarrow> data_state \<Rightarrow> data_state outcome" where
  "free_slot shm entry_ok key_ok i st =
     bnd (elem (slots st) i) (\<lambda>s.
     if share_counter s \<ge> 0 then
       bnd (elem (s_DataTableCache st) i) (\<lambda>c.
       bnd (link_uncached shm entry_ok key_ok s c st) (\<lambda>st.
       bnd (elem (s_DataTableCache st) i) (\<lambda>c.
       let st = log_call (ShmFree c) (log_call (ShmTakeOwnership c) st)
       in Ok (st\<lparr>s_DataTableCache := (s_DataTableCache st)[i := None]\<rparr>))))
     else Ok st)"

fun free_slots ::
    "(nat \<Rightarrow> shm_result) \<Rightarrow> bool \<Rightarrow> bool \<Rightarrow> nat list \<Rightarrow> data_state \<Rightarrow> data_state outcome" where
  "free_slots shm entry_ok key_ok [] st = Ok st"
| "free_slots shm entry_ok key_ok (i # is) st =
     bnd (free_slot shm entry_ok key_ok i st) (\<lambda>st. free_slots shm entry_ok key_ok is st)"

definition empty_slot :: "WimpDataSlot \<Rightarrow> WimpDataSlot" where
  "empty_slot s = s\<lparr>share_counter := 0, slot_size := 0, data_arena := sarena, slot_name := no_name\<rparr>"

definition wimp_data_free ::
    "(nat \<Rightarrow> shm_result) \<Rightarrow> bool \<Rightarrow> bool \<Rightarrow> data_state \<Rightarrow> data_state outcome" where
  "wimp_data_free shm entry_ok key_ok st =
     (if s_IsTableLinked st then
        bnd (table_slots st) (\<lambda>_.
        bnd (free_slots shm entry_ok key_ok [0..<WIMP_MAX_SHARED_SLOTS] st) (\<lambda>st.
        bnd (destroy_map st) (\<lambda>st.
        Ok (st\<lparr>slots := map empty_slot (slots st), s_IsTableLinked := False, s_DataTable := None\<rparr>))))
      else Ok st)"

subsection \<open>Reserving\<close>

text \<open>The first slot whose counter is zero.\<close>

fun find_free :: "WimpDataSlot list \<Rightarrow> nat \<Rightarrow> nat option" where
  "find_free [] i = None"
| "find_free (s # ss) i = (if share_counter s = 0 then Some i else find_free ss (Suc i))"

text \<open>The name is copied with its terminator whatever its length.\<close>

definition wimp_data_reserve ::
    "(nat \<Rightarrow> shm_result) \<Rightarrow> bool \<Rightarrow> bool \<Rightarrow> data_state \<Rightarrow> bytes \<Rightarrow> size_t \<Rightarrow> (int \<times> data_state) outcome" where
  "wimp_data_reserve shm entry_ok key_ok st reserved_name nbytes =
     (let st = log_call (ShmLock (s_DataTable st)) st in
      bnd (table_slots st) (\<lambda>data_table.
      case find_free data_table 0 of
        None \<Rightarrow> Ok (WIMP_DATA_FAIL, log_call (ShmUnlock (s_DataTable st)) st)
      | Some i \<Rightarrow>
          let s = data_table ! i in
          bnd (write_at (slot_name s) 0 (reserved_name @ [NUL])) (\<lambda>nm.
          let s = s\<lparr>slot_name := nm\<rparr>;
              (handle, err, n, st) = wimp_create_fresh_shm shm reserved_name (unat nbytes)
                (st\<lparr>slots := (slots st)[i := s]\<rparr>)
          in if err \<or> n < unat nbytes
             then Ok (WIMP_DATA_FAIL, log_call (ShmUnlock (s_DataTable st)) (log_call (ShmFree handle) st))
             else
               let s = s\<lparr>data_arena := snd (sarena_init (data_arena s) None nbytes)\<rparr> in
               bnd (elem (s_DataTableCache st) i) (\<lambda>_.
               let st = st\<lparr>s_DataTableCache := (s_DataTableCache st)[i := handle]\<rparr> in
               bnd (map_add entry_ok key_ok st reserved_name i) (\<lambda>st.
               bnd (incr32 (share_counter s)) (\<lambda>k.
               let s = s\<lparr>share_counter := k, slot_size := nbytes\<rparr>;
                   st = st\<lparr>slots := (slots st)[i := s]\<rparr>
               in Ok (WIMP_DATA_SUCCESS, log_call (ShmUnlock (s_DataTable st)) st)))))))"

subsection \<open>Access\<close>

definition wimp_data_access ::
    "data_state \<Rightarrow> WimpDataArena \<Rightarrow> bytes \<Rightarrow> (int \<times> WimpDataArena \<times> data_state) outcome" where
  "wimp_data_access st arena name =
     bnd (deref (s_DataTableCacheMap st)) (\<lambda>h.
     bnd (HashString_find h name) (\<lambda>entry.
     case entry of
       None \<Rightarrow> Ok (WIMP_DATA_FAIL, arena, st)
     | Some e \<Rightarrow>
         bnd (elem (s_DataTableCache st) (hvalue e)) (\<lambda>shm.
         let st = log_call (ShmLock shm) st in
         bnd (table_slots st) (\<lambda>data_table.
         bnd (elem data_table (hvalue e)) (\<lambda>s.
         Ok (WIMP_DATA_SUCCESS,
             arena\<lparr>wa_arena := (data_arena s)\<lparr>arena_data := shm\<rparr>, wa_shm := shm\<rparr>, st))))))"

definition wimp_data_stop_access ::
    "data_state \<Rightarrow> WimpDataArena \<Rightarrow> bytes \<Rightarrow> (WimpDataArena \<times> data_state) outcome" where
  "wimp_data_stop_access st arena name =
     bnd (deref (s_DataTableCacheMap st)) (\<lambda>h.
     bnd (HashString_find h name) (\<lambda>entry.
     case entry of
       None \<Rightarrow> Ok (arena, st)
     | Some e \<Rightarrow>
         let i = hvalue e;
             arena = arena\<lparr>wa_arena := (wa_arena arena)\<lparr>arena_data := None\<rparr>\<rparr>
         in bnd (table_slots st) (\<lambda>data_table.
            bnd (elem data_table i) (\<lambda>s.
            let st = log_call (ShmUnlock (wa_shm arena))
                  (st\<lparr>slots := (slots st)[i := s\<lparr>data_arena := wa_arena arena\<rparr>]\<rparr>)
            in Ok (arena\<lparr>wa_arena := sarena\<rparr>, st)))))"

section \<open>The invariant of the table\<close>

text \<open>A name fits its slot with a terminator, and a counter is a non-negative \<open>int32_t\<close>.\<close>

definition slot_ok :: "WimpDataSlot \<Rightarrow> bool" where
  "slot_ok s \<longleftrightarrow> length (slot_name s) = 64 \<and> NUL \<in> set (slot_name s)
     \<and> 0 \<le> share_counter s \<and> share_counter s < 2 ^ 31"

definition map_ok :: "nat HashString option \<Rightarrow> bool" where
  "map_ok m \<longleftrightarrow> (\<forall>h. m = Some h \<longrightarrow> hash_ok h \<and> (\<forall>k i. hash_lookup h k = Some i \<longrightarrow> i < 64))"

definition data_ok :: "data_state \<Rightarrow> bool" where
  "data_ok st \<longleftrightarrow> length (slots st) = 64 \<and> (\<forall>s \<in> set (slots st). slot_ok s)
     \<and> length (s_DataTableCache st) = 64 \<and> map_ok (s_DataTableCacheMap st)"

lemma log_call_fields [simp]:
  "slots (log_call c st) = slots st" "s_DataTableCache (log_call c st) = s_DataTableCache st"
  "s_DataTableCacheMap (log_call c st) = s_DataTableCacheMap st" "s_DataTable (log_call c st) = s_DataTable st"
  "s_IsTableLinked (log_call c st) = s_IsTableLinked st" "shm_news (log_call c st) = shm_news st"
  "shm_log (log_call c st) = shm_log st @ [c]"
  by (simp_all add: log_call_def)

lemma data_ok_log [simp]: "data_ok (log_call c st) = data_ok st"
  by (simp add: data_ok_def)

lemma table_slots_Ok: "table_slots st = Ok t \<longleftrightarrow> s_DataTable st \<noteq> None \<and> t = slots st"
  by (auto simp: table_slots_def)

lemma elem_Ok: "elem xs i = Ok x \<longleftrightarrow> i < length xs \<and> x = xs ! i"
  by (auto simp: elem_def)

lemma incr32_Ok: "incr32 i = Ok k \<longleftrightarrow> i < 2 ^ 31 - 1 \<and> k = i + 1"
  by (auto simp: incr32_def)

lemmas data_outcomes = table_slots_Ok elem_Ok incr32_Ok

lemma map_ok_add:
  assumes "map_ok m" and "i < 64" and "HashString_add a b m (Some name) i = Ok (r, m')"
  shows "map_ok m'"
proof (cases m)
  case None
  then show ?thesis using assms(3) by (simp add: HashString_add_def map_ok_def)
next
  case (Some h)
  have h: "hash_ok h" using assms(1) Some by (simp add: map_ok_def)
  show ?thesis
  proof (cases "hash_lookup h name = None \<and> a \<and> b")
    case True
    let ?es = "\<lparr>hkey = name, hvalue = i\<rparr> # htable h ! slot h name"
    have "m' = Some (h\<lparr>htable := (htable h)[slot h name := ?es]\<rparr>)"
      using assms(3) HashString_add_new [OF h, of name i] True Some by simp
    moreover have "hash_lookup (h\<lparr>htable := (htable h)[slot h name := ?es]\<rparr>) = (hash_lookup h)(name \<mapsto> i)"
      using hash_lookup_update [OF h hash_ok_add [OF h, of name i]] True by simp
    moreover have "hash_ok (h\<lparr>htable := (htable h)[slot h name := ?es]\<rparr>)"
      using hash_ok_update [OF h hash_ok_add [OF h, of name i]] True by simp
    ultimately show ?thesis using assms(1,2) Some by (auto simp: map_ok_def)
  next
    case False
    then have "m' = m"
      using assms(3) HashString_add_old [OF h, of name a b i] Some
      by (auto simp: HashString_add_def HashString_find_eq [OF h] hash_lookup_def split: if_splits)
    then show ?thesis using assms(1) by simp
  qed
qed

lemma HashString_remove_absent_Ok:
  "hash_ok h \<Longrightarrow> hash_lookup h key = None \<Longrightarrow> HashString_remove h key = Ok (r, h') \<Longrightarrow> h' = h"
  by (auto simp: HashString_remove_absent split: if_splits)

lemma map_ok_remove:
  assumes "map_ok (Some h)" and "HashString_remove h name = Ok (r, h')"
  shows "map_ok (Some h')"
proof -
  have h: "hash_ok h" using assms(1) by (simp add: map_ok_def)
  consider "hash_lookup h name = None" | "hash_lookup h name \<noteq> None" "removable h name" | "\<not> removable h name" by blast
  then show ?thesis
  proof cases
    case 1
    then show ?thesis using HashString_remove_absent_Ok [OF h 1 assms(2)] assms(1) by simp
  next
    case 2
    obtain h1 where "HashString_remove h name = Ok (0, h1)" "hash_ok h1" "hash_lookup h1 = (hash_lookup h)(name := None)"
      using HashString_remove_map [OF h 2(2,1)] .
    then show ?thesis using assms by (auto simp: map_ok_def split: if_splits)
  next
    case 3
    then obtain e e' es where "htable h ! slot h name = e # e' # es" "hkey e' = name"
      by (auto simp: removable_def elim!: second_has.elims)
    from HashString_remove_second [OF h this] show ?thesis using assms(2) by simp
  qed
qed

lemma data_ok_slots:
  assumes "data_ok st" and "slot_ok s"
  shows "data_ok (st\<lparr>slots := (slots st)[i := s]\<rparr>)"
  using assms by (auto simp: data_ok_def dest: set_update_subset_insert [THEN subsetD])

lemma data_ok_cache: "data_ok st \<Longrightarrow> data_ok (st\<lparr>s_DataTableCache := (s_DataTableCache st)[i := c]\<rparr>)"
  by (simp add: data_ok_def)

lemma find_name_found:
  "find_name ss name k = Ok (Some i) \<Longrightarrow> k \<le> i \<and> i < k + length ss \<and> share_counter (ss ! (i - k)) \<noteq> 0
    \<and> cstr_at (slot_name (ss ! (i - k))) 0 = Ok name"
proof (induction ss arbitrary: k)
  case (Cons s ss)
  show ?case
  proof (cases "share_counter s \<noteq> 0 \<and> cstr_at (slot_name s) 0 = Ok name")
    case True
    then show ?thesis using Cons.prems by auto
  next
    case False
    then have "find_name ss name (Suc k) = Ok (Some i)" using Cons.prems by (auto simp: outcome_simps split: if_splits)
    from Cons.IH [OF this] show ?thesis by (auto simp: nth_Cons split: nat.splits) (metis Suc_diff_Suc Suc_le_lessD diff_Suc_Suc diff_Suc_1 less_imp_Suc_add)+
  qed
qed simp

lemma find_free_found:
  "find_free ss k = Some i \<Longrightarrow> k \<le> i \<and> i < k + length ss \<and> share_counter (ss ! (i - k)) = 0"
proof (induction ss arbitrary: k)
  case (Cons s ss)
  then show ?case by (auto simp: nth_Cons split: if_splits nat.splits dest!: Cons.IH) (metis Suc_diff_le diff_Suc_Suc nat.inject)+
qed simp

subsection \<open>Every operation keeps the invariant\<close>

lemma data_ok_fields:
  "slots st' = slots st \<Longrightarrow> s_DataTableCache st' = s_DataTableCache st \<Longrightarrow>
   s_DataTableCacheMap st' = s_DataTableCacheMap st \<Longrightarrow> data_ok st' = data_ok st"
  by (simp add: data_ok_def)

lemma p_shm_new_fields:
  assumes "p_shm_new shm name n st = (r, st')"
  shows "slots st' = slots st" "s_DataTableCache st' = s_DataTableCache st" "s_DataTable st' = s_DataTable st"
    and "s_DataTableCacheMap st' = s_DataTableCacheMap st" "s_IsTableLinked st' = s_IsTableLinked st"
    and "shm_news st' = Suc (shm_news st)" "r = shm (shm_news st)" "shm_log st' = shm_log st @ [ShmNew name n]"
  using assms by (auto simp: p_shm_new_def)

lemma fresh_shm_fields:
  assumes "wimp_create_fresh_shm shm name n st = (h, e, b, st')"
  shows "slots st' = slots st" "s_DataTableCache st' = s_DataTableCache st" "s_DataTable st' = s_DataTable st"
    and "s_DataTableCacheMap st' = s_DataTableCacheMap st" "s_IsTableLinked st' = s_IsTableLinked st"
  using assms by (auto simp: wimp_create_fresh_shm_def p_shm_new_def Let_def)

lemma slot_okI: "data_ok st \<Longrightarrow> i < 64 \<Longrightarrow> slot_ok (slots st ! i)"
  by (simp add: data_ok_def)

lemma data_ok_map_add:
  assumes "data_ok st" and "i < 64" and "map_add a b st name i = Ok st'"
  shows "data_ok st'" and "slots st' = slots st" "s_DataTableCache st' = s_DataTableCache st" "s_DataTable st' = s_DataTable st"
  using assms map_ok_add [of "s_DataTableCacheMap st" i a b name]
  by (auto simp: map_add_def outcome_simps data_ok_def)

lemma find_name_less:
  assumes "data_ok st" and "find_name (slots st) name 0 = Ok (Some i)"
  shows "i < 64" and "share_counter (slots st ! i) \<noteq> 0"
  using find_name_found [OF assms(2)] assms(1) by (auto simp: data_ok_def)

lemma link_to_data_ok:
  assumes "data_ok st" and "wimp_data_link_to_data shm a b st name = Ok (r, st')"
  shows "data_ok st'"
proof -
  let ?st = "log_call (ShmLock (s_DataTable st)) st"
  have ok: "data_ok ?st" using assms(1) by simp
  obtain found where f: "find_name (slots st) name 0 = Ok found"
    using assms(2) by (auto simp: wimp_data_link_to_data_def Let_def outcome_simps table_slots_Ok)
  show ?thesis
  proof (cases found)
    case None
    then show ?thesis using assms f
      by (auto simp: wimp_data_link_to_data_def Let_def outcome_simps table_slots_Ok)
  next
    case (Some i)
    note i = find_name_less [OF assms(1) f [unfolded Some]]
    obtain res st1 where n: "p_shm_new shm name (unat (slot_size (slots st ! i))) ?st = (res, st1)"
      by (cases "p_shm_new shm name (unat (slot_size (slots st ! i))) ?st")
    note nf = p_shm_new_fields [OF n]
    let ?st2 = "st1\<lparr>s_DataTableCache := (s_DataTableCache st1)[i := shm_handle res]\<rparr>"
    have ok2: "data_ok ?st2" using ok nf by (auto simp: data_ok_def)
    have sl: "slots ?st2 = slots st" using nf by simp
    show ?thesis
    proof (cases "s_DataTableCache st ! i")
      case None
      obtain k where k: "incr32 (share_counter (slots st ! i)) = Ok k"
        using assms(2) f Some n None
        by (auto simp: wimp_data_link_to_data_def Let_def outcome_simps data_outcomes)
      let ?st3 = "?st2\<lparr>slots := (slots ?st2)[i := (slots st ! i)\<lparr>share_counter := k\<rparr>]\<rparr>"
      have "slot_ok ((slots st ! i)\<lparr>share_counter := k\<rparr>)"
        using slot_okI [OF assms(1) i(1)] k by (auto simp: slot_ok_def incr32_Ok)
      then have ok3: "data_ok (log_call (ShmUnlock (s_DataTable st1)) ?st3)"
        using data_ok_slots [OF ok2] by simp
      have "map_add a b (log_call (ShmUnlock (s_DataTable st1)) ?st3) name i = Ok st'"
        using assms(2) f Some n None k
        by (auto simp: wimp_data_link_to_data_def Let_def outcome_simps data_outcomes)
      then show ?thesis using data_ok_map_add(1) [OF ok3 i(1)] by blast
    next
      case c: (Some h)
      then show ?thesis using assms f Some
        by (auto simp: wimp_data_link_to_data_def Let_def outcome_simps data_outcomes)
    qed
  qed
qed

lemma clear_slot_ok: "slot_ok (clear_slot s)" "slot_ok (empty_slot s)" "slot_ok (init_slot s)"
  by (simp_all add: slot_ok_def clear_slot_def empty_slot_def init_slot_def no_name_def data_consts)

lemma unlink_from_data_ok:
  assumes "data_ok st" and "wimp_data_unlink_from_data st name = Ok st'"
  shows "data_ok st'"
proof -
  obtain found where f: "find_name (slots st) name 0 = Ok found"
    using assms(2) by (auto simp: wimp_data_unlink_from_data_def Let_def outcome_simps table_slots_Ok)
  show ?thesis
  proof (cases found)
    case None
    then show ?thesis using assms f
      by (auto simp: wimp_data_unlink_from_data_def Let_def outcome_simps table_slots_Ok)
  next
    case (Some i)
    note i = find_name_less [OF assms(1) f [unfolded Some]]
    let ?s = "(slots st ! i)\<lparr>share_counter := share_counter (slots st ! i) - 1\<rparr>"
    let ?s' = "if share_counter ?s \<le> 0 then clear_slot ?s else ?s"
    obtain h h' r where h: "s_DataTableCacheMap st = Some h" "HashString_remove h name = Ok (r, h')"
      "st' = log_call (ShmUnlock (s_DataTable st)) (log_call (ShmFree (s_DataTableCache st ! i)) (log_call (ShmLock (s_DataTable st)) st)
        \<lparr>s_DataTableCache := (s_DataTableCache st)[i := None], s_DataTableCacheMap := Some h', slots := (slots st)[i := ?s']\<rparr>)"
      using assms(2) f Some
      by (cases "s_DataTableCacheMap st") (auto simp: wimp_data_unlink_from_data_def Let_def outcome_simps data_outcomes)
    have m: "map_ok (Some h')" using map_ok_remove [OF _ h(2)] assms(1) h(1) by (simp add: data_ok_def)
    have "slot_ok ?s'" using slot_okI [OF assms(1) i(1)] clear_slot_ok by (auto simp: slot_ok_def)
    then have "data_ok (st\<lparr>slots := (slots st)[i := ?s']\<rparr>)" by (rule data_ok_slots [OF assms(1)])
    then show ?thesis unfolding h(3) using m by (simp add: data_ok_def)
  qed
qed

lemma reserve_ok:
  assumes "data_ok st" and "wimp_data_reserve shm a b st name n = Ok (r, st')"
  shows "data_ok st'"
proof (cases "find_free (slots st) 0")
  case None
  then show ?thesis using assms by (auto simp: wimp_data_reserve_def Let_def outcome_simps table_slots_Ok)
next
  case (Some i)
  have i: "i < 64" "share_counter (slots st ! i) = 0" using find_free_found [OF Some] assms(1) by (auto simp: data_ok_def)
  let ?st = "log_call (ShmLock (s_DataTable st)) st"
  obtain nm where nm: "write_at (slot_name (slots st ! i)) 0 (name @ [NUL]) = Ok nm"
    using assms(2) Some by (auto simp: wimp_data_reserve_def Let_def outcome_simps table_slots_Ok)
  let ?s = "(slots st ! i)\<lparr>slot_name := nm\<rparr>"
  have s: "slot_ok (?s\<lparr>share_counter := k, slot_size := m, data_arena := c\<rparr>)" if "0 \<le> k" "k < 2 ^ 31" for k m c
    using slot_okI [OF assms(1) i(1)] nm that by (auto simp: slot_ok_def write_at_def split: if_splits)
  obtain h e bs st1 where fr: "wimp_create_fresh_shm shm name (unat n) (?st\<lparr>slots := (slots st)[i := ?s]\<rparr>) = (h, e, bs, st1)"
    by (cases "wimp_create_fresh_shm shm name (unat n) (?st\<lparr>slots := (slots st)[i := ?s]\<rparr>)")
  note f1 = fresh_shm_fields [OF fr]
  have "slot_ok ?s" using i(2) slot_okI [OF assms(1) i(1)] nm
    by (auto simp: slot_ok_def write_at_def split: if_splits)
  then have ok1: "data_ok st1" using data_ok_slots [OF assms(1), of ?s i] f1 by (simp add: data_ok_def)
  show ?thesis
  proof (cases "e \<or> bs < unat n")
    case True
    then show ?thesis using assms(2) Some nm fr ok1
      by (auto simp: wimp_data_reserve_def Let_def outcome_simps table_slots_Ok)
  next
    case False
    let ?st2 = "st1\<lparr>s_DataTableCache := (s_DataTableCache st1)[i := h]\<rparr>"
    let ?s2 = "?s\<lparr>data_arena := snd (sarena_init (data_arena (slots st ! i)) None n)\<rparr>"
    obtain st3 where st3: "map_add a b ?st2 name i = Ok st3"
      "st' = log_call (ShmUnlock (s_DataTable st3)) (st3\<lparr>slots := (slots st3)[i := ?s2\<lparr>share_counter := 1, slot_size := n\<rparr>]\<rparr>)"
      using assms(2) Some nm fr False i(2)
      by (auto simp: wimp_data_reserve_def Let_def outcome_simps data_outcomes)
    have "data_ok st3" using data_ok_map_add(1) [OF data_ok_cache [OF ok1] i(1) st3(1)] .
    moreover have "slot_ok (?s2\<lparr>share_counter := 1, slot_size := n\<rparr>)"
      using s [where k = 1 and m = n] by (simp add: slot_ok_def)
    ultimately show ?thesis unfolding st3(2) by (simp add: data_ok_slots)
  qed
qed

lemma free_slots_ok:
  "data_ok st \<Longrightarrow> free_slots shm a b is st = Ok st' \<Longrightarrow> data_ok st'"
proof (induction "is" arbitrary: st)
  case (Cons i "is")
  obtain st1 where st1: "free_slot shm a b i st = Ok st1" "free_slots shm a b is st1 = Ok st'"
    using Cons.prems(2) by (auto simp: outcome_simps)
  have "data_ok st1"
  proof (cases "share_counter (slots st ! i) \<ge> 0")
    case False
    then show ?thesis using st1(1) Cons.prems(1) by (auto simp: free_slot_def outcome_simps data_outcomes)
  next
    case True
    obtain st2 c where l: "link_uncached shm a b (slots st ! i) c st = Ok st2"
      and st2: "st1 = (log_call (ShmFree (s_DataTableCache st2 ! i)) (log_call (ShmTakeOwnership (s_DataTableCache st2 ! i)) st2))
        \<lparr>s_DataTableCache := (s_DataTableCache st2)[i := None]\<rparr>"
      using st1(1) True by (auto simp: free_slot_def outcome_simps data_outcomes Let_def)
    have "data_ok st2"
      using l Cons.prems(1) link_to_data_ok [OF Cons.prems(1)]
      by (auto simp: link_uncached_def outcome_simps split: if_splits)
    then show ?thesis unfolding st2 by (simp add: data_ok_def)
  qed
  then show ?case using Cons.IH st1(2) by blast
qed simp

lemma destroy_map_ok: "destroy_map st = Ok st' \<Longrightarrow> data_ok st \<Longrightarrow> data_ok st'"
  by (auto simp: destroy_map_def outcome_simps)

lemma free_ok:
  assumes "data_ok st" and "wimp_data_free shm a b st = Ok st'"
  shows "data_ok st'"
proof (cases "s_IsTableLinked st")
  case True
  then obtain st1 st2 where s: "free_slots shm a b [0..<WIMP_MAX_SHARED_SLOTS] st = Ok st1" "destroy_map st1 = Ok st2"
    "st' = st2\<lparr>slots := map empty_slot (slots st2), s_IsTableLinked := False, s_DataTable := None\<rparr>"
    using assms(2) by (auto simp: wimp_data_free_def outcome_simps)
  have "data_ok st2" by (rule destroy_map_ok [OF s(2) free_slots_ok [OF assms(1) s(1)]])
  then show ?thesis unfolding s(3) using clear_slot_ok by (auto simp: data_ok_def)
qed (use assms in \<open>simp add: wimp_data_free_def\<close>)

lemma unlink_from_process_ok:
  assumes "data_ok st" and "wimp_data_unlink_from_process st = Ok st'"
  shows "data_ok st'"
proof (cases "s_IsTableLinked st")
  case True
  let ?st = "(log_call (ShmFree (s_DataTable st)) st)\<lparr>shm_log := (shm_log st @ [ShmFree (s_DataTable st)]) @ free_cache (s_DataTableCache st),
      s_DataTableCache := map (\<lambda>_. None) (s_DataTableCache st)\<rparr>"
  obtain st1 where s: "destroy_map ?st = Ok st1" "st' = st1\<lparr>s_IsTableLinked := False, s_DataTable := None\<rparr>"
    using assms(2) True by (auto simp: wimp_data_unlink_from_process_def Let_def outcome_simps)
  have "data_ok ?st" using assms(1) by (simp add: data_ok_def)
  then have "data_ok st1" by (rule destroy_map_ok [OF s(1)])
  then show ?thesis unfolding s(2) by (simp add: data_ok_def)
qed (use assms in \<open>simp add: wimp_data_unlink_from_process_def\<close>)

lemma stop_access_ok:
  assumes "data_ok st" and "wimp_data_stop_access st arena name = Ok (arena', st')"
  shows "data_ok st'"
proof (cases "st' = st")
  case False
  obtain i where i: "i < 64" "st' = log_call (ShmUnlock (wa_shm arena))
      (st\<lparr>slots := (slots st)[i := (slots st ! i)\<lparr>data_arena := (wa_arena arena)\<lparr>arena_data := None\<rparr>\<rparr>]\<rparr>)"
    using assms False by (auto simp: wimp_data_stop_access_def Let_def outcome_simps data_outcomes data_ok_def split: option.splits)
  have "slot_ok ((slots st ! i)\<lparr>data_arena := c\<rparr>)" for c using slot_okI [OF assms(1) i(1)] by (simp add: slot_ok_def)
  then show ?thesis unfolding i(2) using data_ok_slots [OF assms(1)] by simp
qed (use assms in simp)

lemma access_ok:
  "data_ok st \<Longrightarrow> wimp_data_access st arena name = Ok (r, arena', st') \<Longrightarrow> data_ok st'"
  by (auto simp: wimp_data_access_def Let_def outcome_simps split: option.splits)

lemma init_ok:
  assumes "length initial = 64" and "length (s_DataTableCache st) = 64"
    and "wimp_data_init shm True True initial st name = Ok (WIMP_DATA_SUCCESS, st')"
  shows "data_ok st'"
proof -
  obtain h e n st1 where f: "wimp_create_fresh_shm shm name TABLE_LENGTH st = (h, e, n, st1)"
    by (cases "wimp_create_fresh_shm shm name TABLE_LENGTH st")
  have "st' = st1\<lparr>slots := map init_slot initial, s_DataTable := h, s_IsTableLinked := True,
       s_DataTableCacheMap := HashString_create True True (int WIMP_MAX_SHARED_SLOTS)\<rparr>"
    using assms(3) f by (auto simp: wimp_data_init_def data_consts outcome_simps split: if_splits)
  moreover have "map_ok (HashString_create True True (int WIMP_MAX_SHARED_SLOTS))"
    using HashString_create_ok [of "int WIMP_MAX_SHARED_SLOTS"] by (auto simp: map_ok_def data_consts)
  ultimately show ?thesis using assms(1,2) fresh_shm_fields [OF f] clear_slot_ok by (auto simp: data_ok_def)
qed

section \<open>What the operations do\<close>

lemma find_name_cong:
  "list_all2 (\<lambda>s s'. (share_counter s = 0) = (share_counter s' = 0) \<and> slot_name s = slot_name s') ss ss' \<Longrightarrow>
   find_name ss name k = find_name ss' name k"
proof (induction ss ss' arbitrary: k rule: list_all2_induct)
  case (Cons s ss s' ss')
  then show ?case by (auto intro!: bnd_cong)
qed simp

lemma find_name_recount:
  assumes "i < length ss" and "share_counter (ss ! i) \<noteq> 0" and "k \<noteq> 0"
  shows "find_name (ss[i := (ss ! i)\<lparr>share_counter := k\<rparr>]) name j = find_name ss name j"
  using assms by (intro find_name_cong) (auto simp: list_all2_conv_all_nth nth_list_update)

lemma find_free_first:
  "k < length ss \<Longrightarrow> share_counter (ss ! k) = 0 \<Longrightarrow> \<forall>j < k. share_counter (ss ! j) \<noteq> 0 \<Longrightarrow>
   find_free ss i = Some (i + k)"
proof (induction ss arbitrary: k i)
  case (Cons s ss)
  show ?case
  proof (cases k)
    case 0
    then show ?thesis using Cons.prems by simp
  next
    case (Suc k')
    have "share_counter s \<noteq> 0" using Cons.prems(3) Suc by (metis nth_Cons_0 zero_less_Suc)
    moreover have "\<forall>j < k'. share_counter (ss ! j) \<noteq> 0" using Cons.prems(3) Suc by (metis nth_Cons_Suc Suc_mono)
    ultimately show ?thesis using Cons.IH [of k' "Suc i"] Cons.prems(1,2) Suc by simp
  qed
qed simp

text \<open>Both creation calls succeed.\<close>

definition fresh_ok :: "(nat \<Rightarrow> shm_result) \<Rightarrow> nat \<Rightarrow> nat \<Rightarrow> bool" where
  "fresh_ok shm k n \<longleftrightarrow> \<not> shm_error (shm k) \<and> \<not> shm_error (shm (Suc k)) \<and> n \<le> shm_bytes (shm (Suc k))"

text \<open>The slot after a successful reservation.\<close>

definition reserved_slot :: "bytes \<Rightarrow> size_t \<Rightarrow> WimpDataSlot \<Rightarrow> WimpDataSlot" where
  "reserved_slot name n s = s\<lparr>slot_name := name @ [NUL] @ drop (length name + 1) (slot_name s),
     data_arena := snd (sarena_init (data_arena s) None n), share_counter := 1, slot_size := n\<rparr>"

lemma reserve_eq:
  assumes ok: "data_ok st" and t: "s_DataTable st \<noteq> None" and i: "find_free (slots st) 0 = Some i"
    and nm: "length name < 64" and fr: "fresh_ok shm (shm_news st) (unat n)"
    and h: "s_DataTableCacheMap st = Some h" "hash_lookup h name = None"
  shows "\<exists>st' h'. wimp_data_reserve shm True True st name n = Ok (WIMP_DATA_SUCCESS, st')
    \<and> slots st' = (slots st)[i := reserved_slot name n (slots st ! i)]
    \<and> s_DataTableCache st' = (s_DataTableCache st)[i := shm_handle (shm (Suc (shm_news st)))]
    \<and> s_DataTableCacheMap st' = Some h' \<and> hash_ok h' \<and> hash_lookup h' = (hash_lookup h)(name \<mapsto> i)
    \<and> s_DataTable st' = s_DataTable st \<and> s_IsTableLinked st' = s_IsTableLinked st"
proof -
  have i64: "i < 64" "share_counter (slots st ! i) = 0" using find_free_found [OF i] ok by (auto simp: data_ok_def)
  have hk: "hash_ok h" using ok h(1) by (simp add: data_ok_def map_ok_def)
  have l: "length (slot_name (slots st ! i)) = 64" using slot_okI [OF ok i64(1)] by (simp add: slot_ok_def)
  have w: "write_at (slot_name (slots st ! i)) 0 (name @ [NUL]) = Ok (name @ [NUL] @ drop (length name + 1) (slot_name (slots st ! i)))"
    using nm l by (simp add: write_at_def)
  obtain h' where h': "table_insert h name i = Ok (0, h')" "hash_ok h'" "hash_lookup h' = (hash_lookup h)(name \<mapsto> i)"
    using hs.insert_new [OF hk h(2)] by blast
  then have ad: "HashString_add True True (Some h) (Some name) i = Ok (0, Some h')"
    using HashString_add_new [OF hk h(2), of i] by (simp add: table_insert_def)
  obtain d where d: "s_DataTable st = Some d" using t by auto
  have lc: "length (s_DataTableCache st) = 64" "length (slots st) = 64" using ok by (simp_all add: data_ok_def)
  show ?thesis
    using fr i i64 w ad h(1) h' lc
    by (auto simp: wimp_data_reserve_def Let_def table_slots_def d wimp_create_fresh_shm_def p_shm_new_def
        fresh_ok_def elem_def map_add_def incr32_def reserved_slot_def)
qed

lemma link_eq:
  assumes ok: "data_ok st" and t: "s_DataTable st \<noteq> None" and f: "find_name (slots st) name 0 = Ok (Some i)"
    and c: "s_DataTableCache st ! i = None" and k: "share_counter (slots st ! i) < 2 ^ 31 - 1"
    and h: "s_DataTableCacheMap st = Some h" "hash_lookup h name = None"
  shows "\<exists>st' h'. wimp_data_link_to_data shm True True st name = Ok (WIMP_DATA_SUCCESS, st')
    \<and> slots st' = (slots st)[i := (slots st ! i)\<lparr>share_counter := share_counter (slots st ! i) + 1\<rparr>]
    \<and> s_DataTableCache st' = (s_DataTableCache st)[i := shm_handle (shm (shm_news st))]
    \<and> s_DataTableCacheMap st' = Some h' \<and> table_insert h name i = Ok (0, h')
    \<and> s_DataTable st' = s_DataTable st"
proof -
  have i: "i < 64" using find_name_less [OF ok f] by blast
  have hk: "hash_ok h" using ok h(1) by (simp add: data_ok_def map_ok_def)
  obtain h' where h': "table_insert h name i = Ok (0, h')"
    using hs.insert_new [OF hk h(2)] by blast
  then have ad: "HashString_add True True (Some h) (Some name) i = Ok (0, Some h')"
    using HashString_add_new [OF hk h(2), of i] by (simp add: table_insert_def)
  obtain d where d: "s_DataTable st = Some d" using t by auto
  have lc: "length (s_DataTableCache st) = 64" "length (slots st) = 64" using ok by (simp_all add: data_ok_def)
  show ?thesis using f i c k h(1) h' ad lc d
    by (auto simp: wimp_data_link_to_data_def Let_def table_slots_def p_shm_new_def elem_def map_add_def incr32_def)
qed

lemma unlink_eq:
  assumes ok: "data_ok st" and t: "s_DataTable st \<noteq> None" and f: "find_name (slots st) name 0 = Ok (Some i)"
    and h: "s_DataTableCacheMap st = Some h" "HashString_remove h name = Ok (r, h')"
  shows "\<exists>st'. wimp_data_unlink_from_data st name = Ok st'
    \<and> slots st' = (slots st)[i := let s = (slots st ! i)\<lparr>share_counter := share_counter (slots st ! i) - 1\<rparr>
        in if share_counter s \<le> 0 then clear_slot s else s]
    \<and> s_DataTableCache st' = (s_DataTableCache st)[i := None]
    \<and> s_DataTableCacheMap st' = Some h' \<and> s_DataTable st' = s_DataTable st \<and> shm_news st' = shm_news st"
proof -
  have i: "i < 64" using find_name_less [OF ok f] by blast
  obtain d where d: "s_DataTable st = Some d" using t by auto
  have lc: "length (s_DataTableCache st) = 64" using ok by (simp add: data_ok_def)
  show ?thesis using f i h lc d
    by (auto simp: wimp_data_unlink_from_data_def Let_def table_slots_def elem_def)
qed

section \<open>Properties\<close>

datatype data_op =
    Reserve bytes size_t
  | LinkData bytes
  | UnlinkData bytes
  | Access WimpDataArena bytes
  | StopAccess WimpDataArena bytes
  | UnlinkProcess
  | FreeTable

fun data_step :: "(nat \<Rightarrow> shm_result) \<Rightarrow> bool \<Rightarrow> bool \<Rightarrow> data_op \<Rightarrow> data_state \<Rightarrow> data_state outcome" where
  "data_step shm a b (Reserve name n) st = bnd (wimp_data_reserve shm a b st name n) (\<lambda>(_, st). Ok st)"
| "data_step shm a b (LinkData name) st = bnd (wimp_data_link_to_data shm a b st name) (\<lambda>(_, st). Ok st)"
| "data_step shm a b (UnlinkData name) st = wimp_data_unlink_from_data st name"
| "data_step shm a b (Access arena name) st = bnd (wimp_data_access st arena name) (\<lambda>(_, _, st). Ok st)"
| "data_step shm a b (StopAccess arena name) st = bnd (wimp_data_stop_access st arena name) (\<lambda>(_, st). Ok st)"
| "data_step shm a b UnlinkProcess st = wimp_data_unlink_from_process st"
| "data_step shm a b FreeTable st = wimp_data_free shm a b st"

fun data_run :: "(nat \<Rightarrow> shm_result) \<Rightarrow> bool \<Rightarrow> bool \<Rightarrow> data_op list \<Rightarrow> data_state \<Rightarrow> data_state outcome" where
  "data_run shm a b [] st = Ok st"
| "data_run shm a b (op # ops) st = bnd (data_step shm a b op st) (data_run shm a b ops)"

lemma data_step_ok: "data_ok st \<Longrightarrow> data_step shm a b op st = Ok st' \<Longrightarrow> data_ok st'"
  by (cases op)
    (auto simp: outcome_simps intro: reserve_ok link_to_data_ok unlink_from_data_ok access_ok stop_access_ok
      unlink_from_process_ok free_ok)

lemma data_run_ok: "data_ok st \<Longrightarrow> data_run shm a b ops st = Ok st' \<Longrightarrow> data_ok st'"
  by (induction ops arbitrary: st) (auto simp: outcome_simps dest: data_step_ok)


definition ex_slot :: WimpDataSlot where
  "ex_slot = \<lparr>share_counter = 0, slot_size = 0, data_arena = sarena, slot_name = no_name\<rparr>"

definition ex_start :: data_state where
  "ex_start = \<lparr>s_DataTable = None, s_DataTableCacheMap = None, s_DataTableCache = replicate 64 None, s_MemoryName = None,
     s_IsTableLinked = False, slots = [], shm_log = [], shm_news = 0\<rparr>"

text \<open>Creation calls that always succeed, with the number of the call as handle.\<close>

definition ex_shm :: "nat \<Rightarrow> shm_result" where
  "ex_shm k = \<lparr>shm_handle = Some k, shm_error = False, shm_bytes = 10000\<rparr>"

definition ex_master :: data_state where
  "ex_master = \<lparr>s_DataTable = Some 1, s_DataTableCacheMap = HashString_create True True 64,
     s_DataTableCache = replicate 64 None, s_MemoryName = None, s_IsTableLinked = True, slots = replicate 64 ex_slot,
     shm_log = [ShmNew ''p'' TABLE_LENGTH, ShmTakeOwnership (Some 0), ShmFree (Some 0), ShmNew ''p'' TABLE_LENGTH],
     shm_news = 2\<rparr>"

lemma ex_master_init: "wimp_data_init ex_shm True True (replicate 64 ex_slot) ex_start ''p'' = Ok (WIMP_DATA_SUCCESS, ex_master)"
  by (simp add: wimp_data_init_def wimp_create_fresh_shm_def p_shm_new_def log_call_def ex_shm_def ex_start_def ex_master_def
      ex_slot_def init_slot_def data_consts no_name_def)

lemma ex_master:
  "data_ok ex_master" "find_free (slots ex_master) 0 = Some 0" "s_DataTable ex_master = Some 1" "shm_news ex_master = 2"
  "\<exists>h. s_DataTableCacheMap ex_master = Some h \<and> hash_lookup h = (\<lambda>_. None)"
proof -
  show "data_ok ex_master" by (rule init_ok [OF _ _ ex_master_init]) (simp_all add: ex_start_def)
  have "replicate 64 ex_slot = ex_slot # replicate 63 ex_slot" by (simp add: numeral_eq_Suc)
  then show "find_free (slots ex_master) 0 = Some 0" by (simp add: ex_master_def) (simp add: ex_slot_def)
  show "s_DataTable ex_master = Some 1" "shm_news ex_master = 2" by (simp_all add: ex_master_def)
  show "\<exists>h. s_DataTableCacheMap ex_master = Some h \<and> hash_lookup h = (\<lambda>_. None)"
    using HashString_create_ok [of 64] by (auto simp: ex_master_def HashString_create_def)
qed


text \<open>Reserving takes the first slot that is not in use: it gets the name, the size and a count of one, an
  arena of that capacity when it had none, and the handle of the fresh segment in the process's cache; the name
  leads to it, and no other slot and no other name change.\<close>

lemma reserve_first_free:
  assumes "data_ok st" and "s_DataTable st \<noteq> None" and "find_free (slots st) 0 = Some i"
    and "length name < 64" and "fresh_ok shm (shm_news st) (unat n)"
    and "s_DataTableCacheMap st = Some h" "hash_lookup h name = None"
  shows "\<exists>st' h'. wimp_data_reserve shm True True st name n = Ok (WIMP_DATA_SUCCESS, st')
    \<and> slots st' = (slots st)[i := reserved_slot name n (slots st ! i)]
    \<and> s_DataTableCache st' = (s_DataTableCache st)[i := shm_handle (shm (Suc (shm_news st)))]
    \<and> s_DataTableCacheMap st' = Some h' \<and> hash_lookup h' = (hash_lookup h)(name \<mapsto> i) \<and> data_ok st'"
  using reserve_eq [OF assms] reserve_ok [OF assms(1)] by blast

lemma reserve_first_free_witness:
  "\<exists>h. s_DataTableCacheMap ex_master = Some h \<and> (\<exists>st' h'. wimp_data_reserve ex_shm True True ex_master ''d'' 100 = Ok (WIMP_DATA_SUCCESS, st')
    \<and> slots st' = (slots ex_master)[0 := reserved_slot ''d'' 100 (slots ex_master ! 0)]
    \<and> s_DataTableCache st' = (s_DataTableCache ex_master)[0 := shm_handle (ex_shm (Suc (shm_news ex_master)))]
    \<and> s_DataTableCacheMap st' = Some h' \<and> hash_lookup h' = (hash_lookup h)(''d'' \<mapsto> 0) \<and> data_ok st')"
proof -
  obtain h where h: "s_DataTableCacheMap ex_master = Some h" "hash_lookup h ''d'' = None" using ex_master(5) by auto
  have "fresh_ok ex_shm (shm_news ex_master) (unat (100 :: size_t))" by (simp add: fresh_ok_def ex_shm_def)
  from reserve_first_free [OF ex_master(1) _ ex_master(2) _ this h] show ?thesis using ex_master(3) h(1) by auto
qed

text \<open>C29: A process that links to data and unlinks from them again leaves the shared table and its own cache
  and map as they were.\<close>

theorem link_unlink_roundtrip:
  assumes "data_ok st" and "s_DataTable st \<noteq> None" and "find_name (slots st) name 0 = Ok (Some i)"
    and "s_DataTableCache st ! i = None" and "share_counter (slots st ! i) < 2 ^ 31 - 1"
    and "s_DataTableCacheMap st = Some h" "hash_lookup h name = None"
  shows "\<exists>st1 st2 h'. wimp_data_link_to_data shm True True st name = Ok (WIMP_DATA_SUCCESS, st1)
    \<and> share_counter (slots st1 ! i) = share_counter (slots st ! i) + 1
    \<and> wimp_data_unlink_from_data st1 name = Ok st2 \<and> slots st2 = slots st
    \<and> s_DataTableCache st2 = s_DataTableCache st
    \<and> s_DataTableCacheMap st2 = Some h' \<and> hash_lookup h' = hash_lookup h"
proof -
  let ?k = "share_counter (slots st ! i)"
  have l: "length (slots st) = 64" "length (s_DataTableCache st) = 64" using assms(1) by (simp_all add: data_ok_def)
  have i: "i < 64" "?k \<noteq> 0" using find_name_less [OF assms(1,3)] by blast+
  have k: "0 < ?k" using slot_okI [OF assms(1) i(1)] i(2) by (simp add: slot_ok_def)
  have hk: "hash_ok h" using assms(1,6) by (simp add: data_ok_def map_ok_def)
  obtain st1 h1 where 1: "wimp_data_link_to_data shm True True st name = Ok (WIMP_DATA_SUCCESS, st1)"
    "slots st1 = (slots st)[i := (slots st ! i)\<lparr>share_counter := ?k + 1\<rparr>]"
    "s_DataTableCache st1 = (s_DataTableCache st)[i := shm_handle (shm (shm_news st))]"
    "s_DataTableCacheMap st1 = Some h1" "table_insert h name i = Ok (0, h1)" "s_DataTable st1 = s_DataTable st"
    using link_eq [OF assms] by blast
  obtain h2 where h2: "HashString_remove h1 name = Ok (0, h2)" "hash_lookup h2 = hash_lookup h"
    using hs.insert_delete [OF hk assms(7) 1(5)] by blast
  have ok1: "data_ok st1" by (rule link_to_data_ok [OF assms(1) 1(1)])
  have f1: "find_name (slots st1) name 0 = Ok (Some i)"
    using find_name_recount [of i "slots st" "?k + 1" name 0] i k l assms(3) by (simp add: 1(2))
  obtain st2 where 2: "wimp_data_unlink_from_data st1 name = Ok st2"
    "slots st2 = (slots st1)[i := let s = (slots st1 ! i)\<lparr>share_counter := share_counter (slots st1 ! i) - 1\<rparr>
        in if share_counter s \<le> 0 then clear_slot s else s]"
    "s_DataTableCache st2 = (s_DataTableCache st1)[i := None]" "s_DataTableCacheMap st2 = Some h2"
    using unlink_eq [OF ok1 _ f1 1(4) h2(1)] 1(6) assms(2) by auto
  have "slots st2 = slots st" using 2(2) 1(2) i k l by (simp add: Let_def)
  moreover have "s_DataTableCache st2 = s_DataTableCache st"
    using 2(3) 1(3) assms(4) by (metis list_update_id list_update_overwrite)
  moreover have "share_counter (slots st1 ! i) = ?k + 1" using 1(2) i l by simp
  ultimately show ?thesis using 1(1) 2(1,4) h2(2) by blast
qed

text \<open>A client of a table whose first slot another process has reserved.\<close>

definition ex_client :: data_state where
  "ex_client = ex_master\<lparr>slots := reserved_slot ''d'' 100 ex_slot # replicate 63 ex_slot\<rparr>"

lemma ex_reserved: "slot_ok (reserved_slot ''d'' 100 ex_slot)" "cstr_at (slot_name (reserved_slot ''d'' 100 ex_slot)) 0 = Ok ''d''"
  using cstr_at_append [of "''d''" "[]" "drop 2 no_name"]
  by (simp_all add: reserved_slot_def ex_slot_def slot_ok_def no_name_def data_consts numeral_2_eq_2)

lemma ex_client:
  "data_ok ex_client" "find_name (slots ex_client) ''d'' 0 = Ok (Some 0)" "s_DataTable ex_client = Some 1"
  "s_DataTableCache ex_client = replicate 64 None" "slots ex_client ! 0 = reserved_slot ''d'' 100 ex_slot"
  "\<exists>h. s_DataTableCacheMap ex_client = Some h \<and> hash_lookup h = (\<lambda>_. None)" "shm_news ex_client = 2"
proof -
  have "slot_ok ex_slot" by (simp add: ex_slot_def slot_ok_def no_name_def data_consts)
  then show "data_ok ex_client" using ex_master(1) ex_reserved(1) by (simp add: data_ok_def ex_client_def)
  show "find_name (slots ex_client) ''d'' 0 = Ok (Some 0)"
    using ex_reserved(2) by (simp add: ex_client_def reserved_slot_def)
qed (use ex_master(5) in \<open>simp_all add: ex_client_def ex_master_def\<close>)

theorem link_unlink_roundtrip_witness:
  "\<exists>h. s_DataTableCacheMap ex_client = Some h \<and> (\<exists>st1 st2 h'. wimp_data_link_to_data ex_shm True True ex_client ''d'' = Ok (WIMP_DATA_SUCCESS, st1)
    \<and> share_counter (slots st1 ! 0) = share_counter (slots ex_client ! 0) + 1
    \<and> wimp_data_unlink_from_data st1 ''d'' = Ok st2 \<and> slots st2 = slots ex_client
    \<and> s_DataTableCache st2 = s_DataTableCache ex_client
    \<and> s_DataTableCacheMap st2 = Some h' \<and> hash_lookup h' = hash_lookup h)"
proof -
  obtain h where h: "s_DataTableCacheMap ex_client = Some h" "hash_lookup h ''d'' = None" using ex_client(6) by auto
  have "share_counter (slots ex_client ! 0) < 2 ^ 31 - 1" by (simp add: ex_client(5) reserved_slot_def)
  from link_unlink_roundtrip [OF ex_client(1) _ ex_client(2) _ this h] show ?thesis
    using ex_client(3,4) h(1) by (simp del: One_nat_def)
qed

text \<open>A slot that is given back and reserved again keeps the arena of the earlier reservation, with its
  capacity and its pointer, whatever the size of the new segment: the arena's initialisation refuses an arena
  with a capacity, both when the slot is cleared and when it is reserved.\<close>

lemma reused_slot_keeps_arena:
  assumes "data_ok st" and "s_DataTable st \<noteq> None" and "find_name (slots st) name 0 = Ok (Some i)"
    and "share_counter (slots st ! i) = 1" and "\<forall>j < i. share_counter (slots st ! j) \<noteq> 0"
    and "arena_capacity (data_arena (slots st ! i)) \<noteq> 0"
    and "s_DataTableCacheMap st = Some h" "HashString_remove h name = Ok (r, h')" "hash_lookup h' name' = None"
    and "length name' < 64" and "fresh_ok shm (shm_news st) (unat n)"
  shows "\<exists>st1 st2. wimp_data_unlink_from_data st name = Ok st1 \<and> share_counter (slots st1 ! i) = 0
    \<and> wimp_data_reserve shm True True st1 name' n = Ok (WIMP_DATA_SUCCESS, st2)
    \<and> share_counter (slots st2 ! i) = 1 \<and> slot_size (slots st2 ! i) = n
    \<and> data_arena (slots st2 ! i) = data_arena (slots st ! i)"
proof -
  have l: "length (slots st) = 64" using assms(1) by (simp add: data_ok_def)
  have i: "i < 64" using find_name_less [OF assms(1,3)] by blast
  have si: "snd (sarena_init a p m) = a" if "arena_capacity a \<noteq> 0" for a p m
    using that by (simp add: sarena_init_def)
  obtain st1 where 1: "wimp_data_unlink_from_data st name = Ok st1"
    "slots st1 = (slots st)[i := clear_slot ((slots st ! i)\<lparr>share_counter := 0\<rparr>)]"
    "s_DataTableCacheMap st1 = Some h'" "s_DataTable st1 = s_DataTable st" "shm_news st1 = shm_news st"
    using unlink_eq [OF assms(1-3,7,8)] assms(4) by (auto simp: Let_def)
  have ok1: "data_ok st1" by (rule unlink_from_data_ok [OF assms(1) 1(1)])
  have c: "share_counter (slots st1 ! i) = 0" "data_arena (slots st1 ! i) = data_arena (slots st ! i)"
    using l i si [OF assms(6)] by (simp_all add: 1(2) clear_slot_def)
  have "find_free (slots st1) 0 = Some i"
    using find_free_first [of i "slots st1" 0] c(1) l i assms(5) by (simp add: 1(2))
  then obtain st2 where 2: "wimp_data_reserve shm True True st1 name' n = Ok (WIMP_DATA_SUCCESS, st2)"
    "slots st2 = (slots st1)[i := reserved_slot name' n (slots st1 ! i)]"
    using reserve_eq [OF ok1 _ _ assms(10) _ 1(3) assms(9), of i shm n] 1(4,5) assms(2,11) by auto
  have "length (slots st1) = 64" using 1(2) l by simp
  then have "slots st2 ! i = reserved_slot name' n (slots st1 ! i)" using 2(2) i by simp
  then have "data_arena (slots st2 ! i) = data_arena (slots st ! i)" "share_counter (slots st2 ! i) = 1" "slot_size (slots st2 ! i) = n"
    using c(2) si [of "data_arena (slots st ! i)"] assms(6) by (simp_all add: reserved_slot_def)
  then show ?thesis using 1(1) c(1) 2(1) by blast
qed

lemma reused_slot_keeps_arena_witness:
  "\<exists>st1 st2. wimp_data_unlink_from_data ex_client ''d'' = Ok st1 \<and> share_counter (slots st1 ! 0) = 0
    \<and> wimp_data_reserve ex_shm True True st1 ''e'' 8 = Ok (WIMP_DATA_SUCCESS, st2)
    \<and> share_counter (slots st2 ! 0) = 1 \<and> slot_size (slots st2 ! 0) = 8
    \<and> data_arena (slots st2 ! 0) = data_arena (slots ex_client ! 0)"
proof -
  obtain h where h: "s_DataTableCacheMap ex_client = Some h" "hash_lookup h = (\<lambda>_. None)" using ex_client(6) by auto
  have e: "h = \<lparr>hsize = 64, htable = replicate 64 []\<rparr>" using h(1) by (simp add: ex_client_def ex_master_def HashString_create_def)
  have hk: "hash_ok h" using ex_client(1) h(1) by (simp add: data_ok_def map_ok_def)
  have "HashString_remove h ''d'' = Ok (1, h)"
    using HashString_remove_absent [OF hk, of "''d''"] h(2) slot_less [OF hk, of "''d''"] by (simp add: e)
  from reused_slot_keeps_arena [OF ex_client(1) _ ex_client(2) _ _ _ h(1) this, of "''e''" ex_shm 8] show ?thesis
    by (simp add: ex_client(3,5) h(2) reserved_slot_def fresh_ok_def ex_shm_def sarena_init_def sarena_def ex_slot_def)
qed

text \<open>Between access and the end of access the segment's own lock is held, and an allocation made in between
  is what the table records: the pointer is the old end, the next process starts after the block, and nothing
  else in the table changes.\<close>

lemma access_session:
  assumes "data_ok st" and "s_DataTable st \<noteq> None" and "s_DataTableCacheMap st = Some h" "hash_lookup h name = Some i"
    and "s_DataTableCache st ! i = Some seg" and "a = data_arena (slots st ! i)"
    and "unat (arena_pointer a) + unat n < unat (arena_capacity a)"
  shows "\<exists>ar st1 b ar' st2. wimp_data_access st ar0 name = Ok (WIMP_DATA_SUCCESS, ar, st1)
    \<and> sarena_alloc (wa_arena ar) n = Ok (arena_pointer a, b)
    \<and> wimp_data_stop_access st1 (ar\<lparr>wa_arena := b\<rparr>) name = Ok (ar', st2)
    \<and> slots st2 = (slots st)[i := (slots st ! i)\<lparr>data_arena :=
        a\<lparr>arena_pointer := arena_pointer a + n, arena_size := arena_size a + n, arena_data := None\<rparr>\<rparr>]
    \<and> shm_log st2 = shm_log st @ [ShmLock (Some seg), ShmUnlock (Some seg)] \<and> wa_arena ar' = sarena"
proof -
  have hk: "hash_ok h" "i < 64" using assms(1,3,4) by (auto simp: data_ok_def map_ok_def)
  obtain e where e: "HashString_find h name = Ok (Some e)" "hvalue e = i"
    using assms(4) by (auto simp: HashString_find_eq [OF hk(1)] hash_lookup_def)
  have l: "length (slots st) = 64" "length (s_DataTableCache st) = 64" using assms(1) by (simp_all add: data_ok_def)
  let ?a = "a\<lparr>arena_data := Some seg\<rparr>" and ?st1 = "log_call (ShmLock (Some seg)) st"
  let ?ar = "ar0\<lparr>wa_arena := ?a, wa_shm := Some seg\<rparr>"
  let ?b = "?a\<lparr>arena_pointer := arena_pointer a + n, arena_size := arena_size a + n\<rparr>"
  have acc: "wimp_data_access st ar0 name = Ok (WIMP_DATA_SUCCESS, ?ar, ?st1)"
    using assms(2,3,5,6) e l hk(2) by (auto simp: wimp_data_access_def elem_def table_slots_def Let_def)
  have "unat (arena_pointer ?a) + unat n < 2 ^ 64"
    using assms(7) size_bound [of "arena_capacity a"] by simp
  from sarena_alloc_cases [OF this] have al: "sarena_alloc (wa_arena ?ar) n = Ok (arena_pointer a, ?b)"
    using assms(7) by simp
  have stop: "wimp_data_stop_access ?st1 (?ar\<lparr>wa_arena := ?b\<rparr>) name = Ok (?ar\<lparr>wa_arena := sarena\<rparr>,
      log_call (ShmUnlock (Some seg)) (?st1\<lparr>slots := (slots st)[i := (slots st ! i)\<lparr>data_arena := ?b\<lparr>arena_data := None\<rparr>\<rparr>]\<rparr>))"
    using assms(2,3) e l hk(2) by (auto simp: wimp_data_stop_access_def elem_def table_slots_def Let_def)
  show ?thesis
    by (rule exI [of _ ?ar], rule exI [of _ ?st1], rule exI [of _ ?b], rule exI, rule exI,
        intro conjI, rule acc, rule al, rule stop) simp_all
qed

lemma access_session_witness:
  "\<exists>ar st1 b ar' st2. wimp_data_access (ex_client\<lparr>s_DataTableCacheMap := Some \<lparr>hsize = 1, htable = [[\<lparr>hkey = ''d'', hvalue = 0\<rparr>]]\<rparr>,
        s_DataTableCache := Some 5 # replicate 63 None\<rparr>) \<lparr>wa_arena = sarena, wa_shm = None\<rparr> ''d'' = Ok (WIMP_DATA_SUCCESS, ar, st1)
    \<and> sarena_alloc (wa_arena ar) 10 = Ok (arena_pointer (data_arena (reserved_slot ''d'' 100 ex_slot)), b)
    \<and> wimp_data_stop_access st1 (ar\<lparr>wa_arena := b\<rparr>) ''d'' = Ok (ar', st2)
    \<and> slots st2 = (slots ex_client)[0 := (slots ex_client ! 0)\<lparr>data_arena := (data_arena (reserved_slot ''d'' 100 ex_slot))
        \<lparr>arena_pointer := arena_pointer (data_arena (reserved_slot ''d'' 100 ex_slot)) + 10,
         arena_size := arena_size (data_arena (reserved_slot ''d'' 100 ex_slot)) + 10, arena_data := None\<rparr>\<rparr>]
    \<and> shm_log st2 = shm_log ex_client @ [ShmLock (Some 5), ShmUnlock (Some 5)] \<and> wa_arena ar' = sarena"
proof -
  let ?h = "\<lparr>hsize = 1, htable = [[\<lparr>hkey = ''d'', hvalue = 0 :: nat\<rparr>]]\<rparr>"
  let ?st = "ex_client\<lparr>s_DataTableCacheMap := Some ?h, s_DataTableCache := Some 5 # replicate 63 None\<rparr>"
  have l: "hash_lookup ?h k = (if k = ''d'' then Some 0 else None)" for k by (simp add: hash_lookup_def slot_def)
  have "hash_ok ?h" by (simp add: hash_ok_def chain_ok_def slot_def)
  then have ok: "data_ok ?st" using ex_client(1) l by (auto simp: data_ok_def map_ok_def split: if_splits)
  let ?a = "data_arena (reserved_slot ''d'' 100 ex_slot)"
  have "unat (arena_pointer ?a) + unat (10 :: size_t) < unat (arena_capacity ?a)"
    by (simp add: reserved_slot_def ex_slot_def sarena_def sarena_init_def)
  from access_session [OF ok _ _ _ _ _ this, of ?h "''d''" 0 5 "\<lparr>wa_arena = sarena, wa_shm = None\<rparr>"] show ?thesis
    by (simp add: l ex_client(3,5))
qed

end
