(* ===== verification/Wimp_Digits.thy ===== *)
theory Wimp_Digits
  imports Wimp_Prelude
begin

section \<open>The integer formats of the C library\<close>

text \<open>
  What \<open>sprintf\<close> writes for \<open>%d\<close>, \<open>%u\<close>, \<open>%o\<close> and \<open>%x\<close> on an \<open>int\<close>, with the
  number of characters. The logging functions and the port strings rely on it.
\<close>

definition digit_char :: "nat \<Rightarrow> char" where
  "digit_char d = ''0123456789abcdef'' ! d"

function digits :: "nat \<Rightarrow> nat \<Rightarrow> bytes" where
  "digits b n = (if n < b \<or> b < 2 then [digit_char n] else digits b (n div b) @ [digit_char (n mod b)])"
  by pat_completeness auto
termination
  by (relation "measure snd") auto

declare digits.simps [simp del]

text \<open>A negative \<open>int\<close> is printed with a sign by \<open>%d\<close>, as its value modulo \<open>2 ^ 32\<close> by the others.\<close>

definition print_signed :: "int \<Rightarrow> bytes" where
  "print_signed i = (if i < 0 then ''-'' @ digits 10 (nat (- i)) else digits 10 (nat i))"

definition print_unsigned :: "nat \<Rightarrow> int \<Rightarrow> bytes" where
  "print_unsigned b i = digits b (nat (i mod 2 ^ 32))"

lemma length_digits:
  assumes "2 \<le> b" and "n < b ^ Suc k" and "0 < k \<Longrightarrow> b ^ k \<le> n"
  shows "length (digits b n) = Suc k"
  using assms(2,3)
proof (induction k arbitrary: n)
  case 0
  then show ?case by (simp add: digits.simps)
next
  case (Suc k)
  have "b ^ Suc k \<le> n" using Suc.prems by simp
  moreover have "b \<le> b ^ Suc k" using assms(1) by (intro self_le_power) simp_all
  ultimately have "\<not> n < b" by (simp only: not_less order.trans)
  moreover have "n div b < b ^ Suc k"
    using Suc.prems(1) assms(1) by (simp add: less_mult_imp_div_less mult.commute)
  moreover have "b ^ k \<le> n div b"
  proof -
    have "b ^ k * b \<le> n" using \<open>b ^ Suc k \<le> n\<close> by (simp add: mult.commute)
    then show ?thesis using assms(1) by (simp add: less_eq_div_iff_mult_less_eq)
  qed
  ultimately show ?case using Suc.IH [of "n div b"] assms(1) by (simp add: digits.simps [of b n])
qed

lemma length_decimal:
  "n < 10 ^ 10 \<Longrightarrow> length (digits 10 n) =
    (if n < 10 then 1 else if n < 100 then 2 else if n < 1000 then 3 else if n < 10000 then 4
     else if n < 100000 then 5 else if n < 1000000 then 6 else if n < 10000000 then 7
     else if n < 100000000 then 8 else if n < 1000000000 then 9 else 10)"
  using length_digits [of 10 n 0] length_digits [of 10 n 1] length_digits [of 10 n 2] length_digits [of 10 n 3]
    length_digits [of 10 n 4] length_digits [of 10 n 5] length_digits [of 10 n 6] length_digits [of 10 n 7]
    length_digits [of 10 n 8] length_digits [of 10 n 9]
  by simp

lemma length_octal:
  "n < 8 ^ 11 \<Longrightarrow> length (digits 8 n) =
    (if n < 8 then 1 else if n < 64 then 2 else if n < 512 then 3 else if n < 4096 then 4
     else if n < 32768 then 5 else if n < 262144 then 6 else if n < 2097152 then 7
     else if n < 16777216 then 8 else if n < 134217728 then 9 else if n < 1073741824 then 10 else 11)"
  using length_digits [of 8 n 0] length_digits [of 8 n 1] length_digits [of 8 n 2] length_digits [of 8 n 3]
    length_digits [of 8 n 4] length_digits [of 8 n 5] length_digits [of 8 n 6] length_digits [of 8 n 7]
    length_digits [of 8 n 8] length_digits [of 8 n 9] length_digits [of 8 n 10]
  by simp

lemma length_hexadecimal:
  "n < 16 ^ 8 \<Longrightarrow> length (digits 16 n) =
    (if n < 16 then 1 else if n < 256 then 2 else if n < 4096 then 3 else if n < 65536 then 4
     else if n < 1048576 then 5 else if n < 16777216 then 6 else if n < 268435456 then 7 else 8)"
  using length_digits [of 16 n 0] length_digits [of 16 n 1] length_digits [of 16 n 2] length_digits [of 16 n 3]
    length_digits [of 16 n 4] length_digits [of 16 n 5] length_digits [of 16 n 6] length_digits [of 16 n 7]
  by simp

lemma digit_char_not_NUL: "d < 16 \<Longrightarrow> digit_char d \<noteq> NUL"
  by (auto simp: digit_char_def less_Suc_eq numeral_eq_Suc)

lemma digits_cstring: "2 \<le> b \<Longrightarrow> b \<le> 16 \<Longrightarrow> cstring (digits b n)"
proof (induction n rule: less_induct)
  case (less n)
  then show ?case
    using digit_char_not_NUL [of n] digit_char_not_NUL [of "n mod b"] mod_less_divisor [of b n]
    by (simp add: digits.simps [of b n] del: mod_less_divisor)
qed

lemma print_cstring: "cstring (print_signed i)" "2 \<le> b \<Longrightarrow> b \<le> 16 \<Longrightarrow> cstring (print_unsigned b i)"
  by (simp_all add: print_signed_def print_unsigned_def digits_cstring)

end
