(* ===== verification/Wimp_Log.thy ===== *)
theory Wimp_Log
  imports Wimp_Digits Wimp_Server_Spec
begin

section \<open>Logging (\<open>wimp_log.c\<close>)\<close>

text \<open>
  A child process sends its log lines to its parent: the line is formatted into a static buffer
  by a replacement of \<open>printf\<close> and queued as a log instruction. The formatter keeps its own
  count of the characters written, from tables of widths, beside what \<open>sprintf\<close> writes.

  Arguments are a list of values with their type; an argument that is missing or has another
  type than its format asks for is undefined behaviour. What the C library writes for a
  \<open>double\<close> with \<open>%f\<close> and for a pointer with \<open>%p\<close> is part of the argument. The model is of
  the debug build; in other builds nothing is logged.
\<close>

subsection \<open>Widths\<close>

definition get_char_width_dec :: "int \<Rightarrow> int outcome" where
  "get_char_width_dec var =
     bnd (if var < 0 then guard_or Overflow (var \<noteq> - (2 ^ 31)) else Ok ()) (\<lambda>_.
     let no_sign_var = (if var < 0 then var * - 1 else var) in
     Ok (1 + of_bool (var < 0) + of_bool (no_sign_var \<ge> 10) + of_bool (no_sign_var \<ge> 100)
         + of_bool (no_sign_var \<ge> 1000) + of_bool (no_sign_var \<ge> 10000) + of_bool (no_sign_var \<ge> 100000)
         + of_bool (no_sign_var \<ge> 1000000) + of_bool (no_sign_var \<ge> 10000000)
         + of_bool (no_sign_var \<ge> 100000000) + of_bool (no_sign_var \<ge> 1000000000)))"

definition get_char_width_oct :: "int \<Rightarrow> int" where
  "get_char_width_oct var =
     (if var < 0 then 11
      else 1 + of_bool (var \<ge> 8) + of_bool (var \<ge> 8*8) + of_bool (var \<ge> 8*8*8)
         + of_bool (var \<ge> 8*8*8*8) + of_bool (var \<ge> 8*8*8*8*8) + of_bool (var \<ge> 8*8*8*8*8*8)
         + of_bool (var \<ge> 8*8*8*8*8*8*8) + of_bool (var \<ge> 8*8*8*8*8*8*8*8)
         + of_bool (var \<ge> 8*8*8*8*8*8*8*8*8) + of_bool (var \<ge> 8*8*8*8*8*8*8*8*8*8))"

definition get_char_width_hex :: "int \<Rightarrow> int" where
  "get_char_width_hex var =
     (if var < 0 then 8
      else 1 + of_bool (var \<ge> 16) + of_bool (var \<ge> 16*16) + of_bool (var \<ge> 16*16*16)
         + of_bool (var \<ge> 16*16*16*16) + of_bool (var \<ge> 16*16*16*16*16)
         + of_bool (var \<ge> 16*16*16*16*16*16) + of_bool (var \<ge> 16*16*16*16*16*16*16))"

subsection \<open>The formatter\<close>

datatype log_arg =
    IntArg int
  | StringArg bytes
  | DoubleArg bytes
  | PointerArg bytes

fun int_arg :: "log_arg list \<Rightarrow> (int \<times> log_arg list) outcome" where
  "int_arg (IntArg i # args) = Ok (i, args)"
| "int_arg _ = Fault BadLibCall"

fun string_arg :: "log_arg list \<Rightarrow> (bytes \<times> log_arg list) outcome" where
  "string_arg (StringArg s # args) = Ok (s, args)"
| "string_arg _ = Fault BadLibCall"

fun double_arg :: "log_arg list \<Rightarrow> (bytes \<times> log_arg list) outcome" where
  "double_arg (DoubleArg s # args) = Ok (s, args)"
| "double_arg _ = Fault BadLibCall"

fun pointer_arg :: "log_arg list \<Rightarrow> (bytes \<times> log_arg list) outcome" where
  "pointer_arg (PointerArg s # args) = Ok (s, args)"
| "pointer_arg _ = Fault BadLibCall"

text \<open>\<open>sprintf\<close> at an offset: the text and its terminator.\<close>

definition sprintf_at :: "bytes \<Rightarrow> nat \<Rightarrow> bytes \<Rightarrow> bytes outcome" where
  "sprintf_at str off text = write_at str off (text @ [NUL])"

text \<open>With a precision, the format passed on is \<open>%f\<close>, a point and the character after it, so that the
  point and the character are printed as they are.\<close>

definition float_text :: "bytes \<Rightarrow> bytes \<Rightarrow> bytes outcome" where
  "float_text after text =
     (case after of
        CHR ''.'' # [] \<Rightarrow> Ok (text @ ''.'')
      | CHR ''.'' # c # _ \<Rightarrow> (if c = CHR ''%'' then Fault BadLibCall else Ok (text @ [CHR ''.'', c]))
      | _ \<Rightarrow> Ok text)"

text \<open>One conversion: \<open>f\<close> is the character after the percent sign, \<open>after\<close> the format behind it.\<close>

definition conversion ::
    "char \<Rightarrow> bytes \<Rightarrow> bytes \<Rightarrow> log_arg list \<Rightarrow> nat \<Rightarrow> (bytes \<times> log_arg list \<times> nat) outcome" where
  "conversion f after str args off =
     (if f = CHR ''%'' then bnd (write_at str off ''%'') (\<lambda>str. Ok (str, args, off + 1))
      else if f = CHR ''d'' \<or> f = CHR ''i'' then
        bnd (int_arg args) (\<lambda>(i, args).
        bnd (sprintf_at str off (print_signed i)) (\<lambda>str.
        bnd (get_char_width_dec i) (\<lambda>w. Ok (str, args, to_size (int off + w)))))
      else if f = CHR ''o'' then
        bnd (int_arg args) (\<lambda>(i, args).
        bnd (sprintf_at str off (print_unsigned 8 i)) (\<lambda>str.
        Ok (str, args, to_size (int off + get_char_width_oct i))))
      else if f = CHR ''x'' \<or> f = CHR ''X'' then
        bnd (int_arg args) (\<lambda>(i, args).
        bnd (sprintf_at str off (print_unsigned 16 i)) (\<lambda>str.
        Ok (str, args, to_size (int off + get_char_width_hex i))))
      else if f = CHR ''u'' then
        bnd (int_arg args) (\<lambda>(i, args).
        bnd (sprintf_at str off (print_unsigned 10 i)) (\<lambda>str.
        bnd (get_char_width_dec i) (\<lambda>w. Ok (str, args, to_size (int off + w)))))
      else if f = CHR ''c'' then
        bnd (int_arg args) (\<lambda>(i, args).
        bnd (write_at str off [char_of (nat (i mod 256))]) (\<lambda>str. Ok (str, args, off + 1)))
      else if f = CHR ''s'' then
        bnd (string_arg args) (\<lambda>(s, args).
        bnd (write_at str off s) (\<lambda>str. Ok (str, args, off + length s)))
      else if f = CHR ''f'' then
        bnd (double_arg args) (\<lambda>(text, args).
        bnd (float_text after text) (\<lambda>text.
        bnd (sprintf_at str off text) (\<lambda>str.
        bnd (cstr_at str off) (\<lambda>s. Ok (str, args, off + length s)))))
      else if f = CHR ''p'' then
        bnd (pointer_arg args) (\<lambda>(text, args).
        bnd (sprintf_at str off text) (\<lambda>str.
        bnd (cstr_at str off) (\<lambda>s. Ok (str, args, off + length s))))
      else Ok (str, args, off))"

text \<open>The loop over the format. A percent sign at the very end makes it step over the terminator.\<close>

fun format_loop :: "nat \<Rightarrow> bytes \<Rightarrow> bytes \<Rightarrow> log_arg list \<Rightarrow> nat \<Rightarrow> bytes outcome" where
  "format_loop buffsize [] str args string_offset = Ok str"
| "format_loop buffsize (c # format) str args string_offset =
     (if string_offset \<ge> to_size (int buffsize - 1) then Ok str
      else if c = CHR ''%'' then
        (case format of
           [] \<Rightarrow> Fault OutOfBounds
         | f # after \<Rightarrow>
             bnd (conversion f after str args string_offset) (\<lambda>(str, args, string_offset).
             format_loop buffsize after str args string_offset))
      else
        bnd (write_at str string_offset [c]) (\<lambda>str.
        format_loop buffsize format str args (string_offset + 1)))"

text \<open>The length of the string, and the buffer.\<close>

definition format_string :: "bytes \<Rightarrow> bytes \<Rightarrow> nat \<Rightarrow> log_arg list \<Rightarrow> (nat \<times> bytes) outcome" where
  "format_string str format buffsize arg =
     bnd (format_loop buffsize format str arg 0) (\<lambda>str.
     bnd (cstr_at str 0) (\<lambda>s. Ok (length s, str)))"

subsection \<open>Logging\<close>

definition MAXIMUM_LOG_BYTES :: nat where "MAXIMUM_LOG_BYTES = 4096"

text \<open>A process without a parent prints the line itself; the flag says so. Otherwise the line, with the
  name of the process as a tag, goes to the parent at once.\<close>

definition wimp_log_internal ::
    "nat \<Rightarrow> (nat \<Rightarrow> nat \<Rightarrow> int) \<Rightarrow> server_state option \<Rightarrow> bytes \<Rightarrow> log_arg list \<Rightarrow> (bool \<times> server_state option) outcome" where
  "wimp_log_internal fuel send_res local_server format arg =
     (case local_server of
        None \<Rightarrow> Ok (True, local_server)
      | Some server \<Rightarrow>
          (case parent server of
             None \<Rightarrow> Ok (True, local_server)
           | Some p \<Rightarrow>
               let namebytes = length (server_name server);
                   tag = ''['' @ server_name server @ '']'' @ '' '';
                   tagbytes = namebytes + 3
               in bnd (write_at (replicate MAXIMUM_LOG_BYTES NUL) 0 tag) (\<lambda>str.
                  bnd (format_string (drop tagbytes str) format (to_size (int MAXIMUM_LOG_BYTES - int tagbytes)) arg)
                    (\<lambda>(n, rest).
                  let str = take tagbytes str @ rest;
                      n = n + 1
                  in bnd (wimp_add_local_server local_server p WIMP_INSTRUCTION_LOG (Some str) (n + tagbytes)) (\<lambda>st.
                     bnd (deref st) (\<lambda>st.
                     bnd (wimp_server_send_instructions fuel send_res st) (\<lambda>(_, st).
                     Ok (False, Some st))))))))"

definition wimp_log where "wimp_log = wimp_log_internal"

text \<open>The colours of the three kinds of line.\<close>

definition color :: "bytes \<Rightarrow> bytes \<Rightarrow> bytes" where
  "color code format = [CHR 0x1B] @ code @ format @ [CHR 0x1B] @ ''[0m''"

definition wimp_log_fail where
  "wimp_log_fail fuel send_res st format arg = wimp_log_internal fuel send_res st (color ''[1;31m'' format) arg"

definition wimp_log_success where
  "wimp_log_success fuel send_res st format arg = wimp_log_internal fuel send_res st (color ''[1;32m'' format) arg"

definition wimp_log_important where
  "wimp_log_important fuel send_res st format arg = wimp_log_internal fuel send_res st (color ''[1;34m'' format) arg"

section \<open>The widths are those of the text\<close>

lemma width_dec:
  assumes "- (2 ^ 31) < i" and "i < 2 ^ 31"
  shows "get_char_width_dec i = Ok (int (length (print_signed i)))"
proof (cases "i < 0")
  case True
  have "nat (- i) < 10 ^ 10" using assms(1) True by simp
  note l = length_decimal [OF this]
  show ?thesis using assms True by (simp add: get_char_width_dec_def print_signed_def l nat_less_iff)
next
  case False
  have "nat i < 10 ^ 10" using assms(2) False by simp
  note l = length_decimal [OF this]
  show ?thesis using False by (simp add: get_char_width_dec_def print_signed_def l nat_less_iff)
qed

lemma print_unsigned_nonneg: "0 \<le> i \<Longrightarrow> i < 2 ^ 32 \<Longrightarrow> print_unsigned b i = digits b (nat i)"
  by (simp add: print_unsigned_def)

lemma negative_mod:
  assumes "i < 0" and "- 2147483648 \<le> i"
  shows "i mod 4294967296 = i + (4294967296 :: int)"
proof -
  have "i mod 4294967296 = (i + 4294967296) mod 4294967296" by simp
  also have "\<dots> = i + 4294967296" using assms by (intro mod_pos_pos_trivial) simp_all
  finally show ?thesis .
qed

lemma width_oct:
  assumes "- (2 ^ 31) \<le> i" and "i < 2 ^ 31"
  shows "get_char_width_oct i = int (length (print_unsigned 8 i))"
proof (cases "i < 0")
  case True
  have "nat (i + 4294967296) < 8 ^ 11" using True by simp
  note l = length_octal [OF this]
  show ?thesis using assms True
    by (simp add: get_char_width_oct_def print_unsigned_def negative_mod l nat_less_iff)
next
  case False
  have "nat i < 8 ^ 11" using assms(2) False by simp
  note l = length_octal [OF this]
  show ?thesis using False assms(2)
    by (simp add: get_char_width_oct_def print_unsigned_nonneg l nat_less_iff)
qed

lemma width_hex:
  assumes "- (2 ^ 31) \<le> i" and "i < 2 ^ 31"
  shows "get_char_width_hex i = int (length (print_unsigned 16 i))"
proof (cases "i < 0")
  case True
  have "nat (i + 4294967296) < 16 ^ 8" using True by simp
  note l = length_hexadecimal [OF this]
  show ?thesis using assms True
    by (simp add: get_char_width_hex_def print_unsigned_def negative_mod l nat_less_iff)
next
  case False
  have "nat i < 16 ^ 8" using assms(2) False by simp
  note l = length_hexadecimal [OF this]
  show ?thesis using False assms(2)
    by (simp add: get_char_width_hex_def print_unsigned_nonneg l nat_less_iff)
qed

section \<open>The text that a format stands for\<close>

text \<open>
  The reference: the text that \<open>printf\<close> defines for the conversions that the formatter
  implements as \<open>printf\<close> does, on arguments in range. It is undefined for \<open>%u\<close>, \<open>%X\<close> and \<open>%f\<close>, which
  the formatter treats differently, and for characters and strings with a NUL.
\<close>

fun convert :: "char \<Rightarrow> log_arg list \<Rightarrow> (bytes \<times> log_arg list) option" where
  "convert f (IntArg i # args) =
     (if f = CHR ''%'' then Some (''%'', IntArg i # args)
      else if f = CHR ''d'' \<or> f = CHR ''i'' then
        (if - (2 ^ 31) < i \<and> i < 2 ^ 31 then Some (print_signed i, args) else None)
      else if f = CHR ''o'' then
        (if - (2 ^ 31) \<le> i \<and> i < 2 ^ 31 then Some (print_unsigned 8 i, args) else None)
      else if f = CHR ''x'' then
        (if - (2 ^ 31) \<le> i \<and> i < 2 ^ 31 then Some (print_unsigned 16 i, args) else None)
      else if f = CHR ''c'' then
        (if i mod 256 \<noteq> 0 then Some ([char_of (nat (i mod 256))], args) else None)
      else None)"
| "convert f (StringArg s # args) =
     (if f = CHR ''%'' then Some (''%'', StringArg s # args)
      else if f = CHR ''s'' \<and> cstring s then Some (s, args) else None)"
| "convert f (PointerArg s # args) =
     (if f = CHR ''%'' then Some (''%'', PointerArg s # args)
      else if f = CHR ''p'' \<and> cstring s then Some (s, args) else None)"
| "convert f args = (if f = CHR ''%'' then Some (''%'', args) else None)"

fun render :: "bytes \<Rightarrow> log_arg list \<Rightarrow> bytes option" where
  "render [] args = Some []"
| "render (c # format) args =
     (if c = NUL then None
      else if c = CHR ''%'' then
        (case format of
           [] \<Rightarrow> None
         | f # after \<Rightarrow>
             (case convert f args of
                None \<Rightarrow> None
              | Some (text, args) \<Rightarrow> map_option ((@) text) (render after args)))
      else map_option ((#) c) (render format args))"

lemma write_zeros:
  assumes "length s \<le> k"
  shows "write_at (pre @ replicate k NUL) (length pre) s = Ok (pre @ s @ replicate (k - length s) NUL)"
  using assms by (simp add: write_at_def)

lemma sprintf_zeros:
  assumes "length s < k"
  shows "sprintf_at (pre @ replicate k NUL) (length pre) s = Ok (pre @ s @ replicate (k - length s) NUL)"
proof -
  have "[NUL] @ replicate (k - Suc (length s)) NUL = replicate (k - length s) NUL"
    using assms by (metis Suc_diff_Suc append_Cons append_Nil replicate_Suc)
  then show ?thesis using assms write_zeros [of "s @ [NUL]" k pre] by (simp add: sprintf_at_def)
qed

lemma cstr_at_zeros: "cstring s \<Longrightarrow> 0 < k \<Longrightarrow> cstr_at (pre @ s @ replicate k NUL) (length pre) = Ok s"
  using cstr_at_append [of s pre "replicate (k - 1) NUL"] by (cases k) simp_all

lemma convert_cstring: "convert f args = Some (line, args') \<Longrightarrow> cstring line"
proof (cases "(f, args)" rule: convert.cases)
  case (1 g i rest)
  assume "convert f args = Some (line, args')"
  moreover have "i mod 256 \<noteq> 0 \<Longrightarrow> char_of (nat (i mod 256)) \<noteq> NUL"
    by (simp add: char_of_NUL nat_mod_distrib nat_eq_iff)
  ultimately show "cstring line" using 1 print_cstring by (auto split: if_splits)
qed (auto split: if_splits)

lemma conversion_text:
  assumes c: "convert f args = Some (line, args')" and l: "length line < k" "length pre + k < 2 ^ 31"
  shows "conversion f after (pre @ replicate k NUL) args (length pre)
    = Ok (pre @ line @ replicate (k - length line) NUL, args', length pre + length line)"
proof -
  have s: "to_size (int (length pre) + int (length line)) = length pre + length line"
    using l by (subst to_size_nonneg) (simp_all add: nat_add_distrib)
  note w = write_zeros [of line k pre] sprintf_zeros [OF l(1)] cstr_at_zeros [OF convert_cstring [OF c], of "k - length line" pre]
  show ?thesis
    using c l(1) w
    by (cases "(f, args)" rule: convert.cases)
      (auto simp: conversion_def width_dec width_oct width_hex s split: if_splits)
qed

lemma format_loop_text:
  assumes "render format args = Some line" and "length pre + length line + 1 < n"
    and "n \<le> length pre + k" and "length pre + k < 2 ^ 31"
  shows "format_loop n format (pre @ replicate k NUL) args (length pre) = Ok (pre @ line @ replicate (k - length line) NUL)"
  using assms
proof (induction format args arbitrary: pre k line rule: render.induct)
  case (1 args)
  then show ?case by simp
next
  case (2 c format args)
  have n: "to_size (int n - 1) = n - 1" using "2.prems" by (subst to_size_nonneg) (simp_all add: nat_diff_distrib)
  then have lt: "\<not> to_size (int n - 1) \<le> length pre" using "2.prems"(2) by simp
  show ?case
  proof (cases "c = CHR ''%''")
    case True
    obtain f after t1 args1 t2 where f: "format = f # after" "convert f args = Some (t1, args1)" "render after args1 = Some t2"
      "line = t1 @ t2"
      using "2.prems"(1) True by (auto split: list.splits option.splits)
    have c: "conversion f after (pre @ replicate k NUL) args (length pre)
        = Ok (pre @ t1 @ replicate (k - length t1) NUL, args1, length pre + length t1)"
      using conversion_text [OF f(2)] "2.prems" f(4) by simp
    have "format_loop n after ((pre @ t1) @ replicate (k - length t1) NUL) args1 (length (pre @ t1))
        = Ok ((pre @ t1) @ t2 @ replicate (k - length t1 - length t2) NUL)"
      using "2.prems" f(4) True by (intro "2.IH"(1) [OF _ True f(1,2) refl f(3)]) auto
    then show ?thesis using True f c lt by simp
  next
    case False
    obtain t where t: "render format args = Some t" "line = c # t" "c \<noteq> NUL"
      using "2.prems"(1) False by (auto split: if_splits)
    have "format_loop n format ((pre @ [c]) @ replicate (k - 1) NUL) args (length (pre @ [c]))
        = Ok ((pre @ [c]) @ t @ replicate (k - 1 - length t) NUL)"
      using "2.prems" t False by (intro "2.IH"(2) [OF t(3) False t(1)]) auto
    moreover have "write_at (pre @ replicate k NUL) (length pre) [c] = Ok (pre @ [c] @ replicate (k - 1) NUL)"
      using write_zeros [of "[c]" k pre] "2.prems" by simp
    ultimately show ?thesis using False lt t(2) by simp
  qed
qed

lemma render_cstring: "render format args = Some line \<Longrightarrow> cstring line"
proof (induction format args arbitrary: line rule: render.induct)
  case (2 c format args)
  show ?case
  proof (cases "c = CHR ''%''")
    case True
    obtain f after t1 args1 t2 where f: "format = f # after" "convert f args = Some (t1, args1)" "render after args1 = Some t2"
      "line = t1 @ t2"
      using "2.prems" True by (auto split: list.splits option.splits)
    have "cstring t2" using True by (intro "2.IH"(1) [OF _ True f(1,2) refl f(3)]) simp
    then show ?thesis using convert_cstring [OF f(2)] f(4) by simp
  next
    case False
    obtain t where t: "render format args = Some t" "line = c # t" "c \<noteq> NUL"
      using "2.prems" False by (auto split: if_splits)
    then show ?thesis using "2.IH"(2) [OF t(3) False t(1)] by simp
  qed
qed simp

lemma format_string_text:
  assumes "render format args = Some line" and "length line + 1 < n" and "n \<le> k" and "k < 2 ^ 31"
  shows "format_string (replicate k NUL) format n args = Ok (length line, line @ replicate (k - length line) NUL)"
  using format_loop_text [of format args line "[]" n k] assms
    cstr_at_zeros [OF render_cstring [OF assms(1)], of "k - length line" "[]"]
  by (simp add: format_string_def)

section \<open>Properties\<close>

text \<open>C13: For every format of the conversions that the formatter shares with \<open>printf\<close>, with arguments in range,
  a line that fits the buffer comes out exactly as \<open>printf\<close> defines it: the widths that the formatter
  computes are those of the texts it writes.\<close>

theorem format_equals_printf:
  assumes "render format args = Some line" and "length line + 1 < n" and "n \<le> k" and "k < 2 ^ 31"
  shows "format_string (replicate k NUL) format n args = Ok (length line, line @ replicate (k - length line) NUL)"
  using format_string_text [OF assms] .

theorem format_equals_printf_witness:
  "format_string (replicate 100 NUL) ''%s: %d of 100%%, %x'' 100 [StringArg ''load'', IntArg (- 42), IntArg 255]
    = Ok (length ''load: -42 of 100%, ff'', ''load: -42 of 100%, ff'' @ replicate (100 - length ''load: -42 of 100%, ff'') NUL)"
  by (rule format_equals_printf)
    (simp_all add: print_signed_def print_unsigned_def digits.simps [of 10] digits.simps [of 16] digit_char_def)

text \<open>The conversion for unsigned numbers uses the width of the number as a signed one: after a value
  above the signed range the count stands inside its ten digits, and the next character overwrites one of
  them.\<close>

lemma unsigned_format_overwritten:
  assumes "- 100000000 < i" and "i < 0" and "c \<noteq> NUL" "c \<noteq> CHR ''%''" and "12 < n" "n \<le> k" "k < 2 ^ 31"
  shows "length (print_signed i) < length (print_unsigned 10 i)
    \<and> format_string (replicate k NUL) (''%u'' @ [c]) n [IntArg i]
        = Ok (10, (print_unsigned 10 i)[length (print_signed i) := c] @ replicate (k - 10) NUL)"
proof -
  let ?u = "print_unsigned 10 i" and ?w = "length (print_signed i)"
  have "nat (i + 4294967296) < 10 ^ 10" using assms(2) by simp
  note l = length_decimal [OF this]
  have u: "length ?u = 10"
    using assms(1,2) l by (simp add: print_unsigned_def negative_mod nat_less_iff)
  have "nat (- i) < 10 ^ 10" using assms(1) by simp
  note l' = length_decimal [OF this]
  have w: "?w < 10" using assms(1,2) l' by (simp add: print_signed_def nat_less_iff)
  have wd: "get_char_width_dec i = Ok (int ?w)" using assms(1,2) by (intro width_dec) simp_all
  have sp: "sprintf_at (replicate k NUL) 0 ?u = Ok (?u @ replicate (k - 10) NUL)"
    using sprintf_zeros [of ?u k "[]"] u assms(5,6) by simp
  have cv: "conversion (CHR ''u'') [c] (replicate k NUL) [IntArg i] 0 = Ok (?u @ replicate (k - 10) NUL, [], ?w)"
    using sp wd w by (simp add: conversion_def)
  have n: "to_size (int n - 1) = n - 1" using assms(5-7) by (subst to_size_nonneg) (simp_all add: nat_diff_distrib)
  have nle: "\<not> n - Suc 0 \<le> ?w" "\<not> n - 1 \<le> 0" using w assms(5) by simp_all
  have wr: "write_at (?u @ replicate (k - 10) NUL) ?w [c] = Ok (?u[?w := c] @ replicate (k - 10) NUL)"
    using u w by (simp add: write_at_def upd_conv_take_nth_drop)
  have "format_loop n (''%u'' @ [c]) (replicate k NUL) [IntArg i] 0 = Ok (?u[?w := c] @ replicate (k - 10) NUL)"
    using n nle wr cv assms(4,5) by simp
  moreover have "cstring (?u[?w := c])"
    using print_cstring(2) [of 10 i] assms(3) by (auto simp: cstring_def dest: set_update_subset_insert [THEN subsetD])
  then have "cstr_at (?u[?w := c] @ replicate (k - 10) NUL) 0 = Ok (?u[?w := c])"
    using cstr_at_zeros [of "?u[?w := c]" "k - 10" "[]"] assms(5,6) by simp
  ultimately show ?thesis using u w by (simp add: format_string_def)
qed

lemma unsigned_format_overwritten_witness:
  "length (print_signed (- 1)) < length (print_unsigned 10 (- 1))
    \<and> format_string (replicate 50 NUL) (''%u'' @ [CHR ''!'']) 50 [IntArg (- 1)]
        = Ok (10, (print_unsigned 10 (- 1))[length (print_signed (- 1)) := CHR ''!''] @ replicate (50 - 10) NUL)"
  by (rule unsigned_format_overwritten) simp_all

text \<open>A line that fits the buffer is queued for the parent behind its tag, and everything queued is sent.\<close>

abbreviation log_line :: "server_state \<Rightarrow> bytes \<Rightarrow> bytes" where
  "log_line st line \<equiv> (''['' @ server_name st @ '']'' @ '' '') @ line @ [NUL]"

lemma log_internal_eq:
  assumes "parent st = Some p" and "render format args = Some line" and "length (server_name st) + length line + 5 \<le> 4096"
  shows "\<exists>rest. wimp_log_internal fuel res (Some st) format args =
    bnd (wimp_server_add st p WIMP_INSTRUCTION_LOG (Some (log_line st line @ rest)) (length (log_line st line))) (\<lambda>st.
    bnd (wimp_server_send_instructions fuel res st) (\<lambda>(_, st). Ok (False, Some st)))"
proof -
  let ?tag = "''['' @ server_name st @ '']'' @ '' ''" and ?t = "length (server_name st) + 3"
  let ?k = "4096 - ?t" and ?a = "log_line st line"
  have lt: "length ?tag = ?t" by simp
  have w: "write_at (replicate MAXIMUM_LOG_BYTES NUL) 0 ?tag = Ok (?tag @ replicate ?k NUL)"
    using write_zeros [of ?tag 4096 "[]"] assms(3) by (simp add: MAXIMUM_LOG_BYTES_def)
  have k: "to_size (int MAXIMUM_LOG_BYTES - int ?t) = ?k"
    using assms(3) by (subst to_size_nonneg) (simp_all add: MAXIMUM_LOG_BYTES_def nat_diff_distrib)
  have fs: "format_string (replicate ?k NUL) format ?k args = Ok (length line, line @ replicate (?k - length line) NUL)"
    using assms(3) by (intro format_string_text [OF assms(2)]) simp_all
  have "replicate (?k - length line) NUL = [NUL] @ replicate (?k - length line - 1) NUL"
    using assms(3) by (cases "?k - length line") simp_all
  then have str: "?tag @ line @ replicate (?k - length line) NUL = ?a @ replicate (?k - length line - 1) NUL" by simp
  have dt: "drop ?t (?tag @ replicate ?k NUL) = replicate ?k NUL" "take ?t (?tag @ replicate ?k NUL) = ?tag"
    unfolding lt [symmetric] by (simp_all only: append_eq_conv_conj drop_append take_append) simp_all
  have la: "length line + 1 + ?t = length ?a" by simp
  have "wimp_log_internal fuel res (Some st) format args =
    bnd (wimp_server_add st p WIMP_INSTRUCTION_LOG (Some (?a @ replicate (?k - length line - 1) NUL)) (length ?a)) (\<lambda>st.
    bnd (wimp_server_send_instructions fuel res st) (\<lambda>(_, st). Ok (False, Some st)))"
    by (simp only: wimp_log_internal_def option.case assms(1) Let_def w bnd.simps k dt fs prod.case la str
        wimp_add_local_server_def bnd_assoc deref_simps)
  then show ?thesis by blast
qed

text \<open>C12: A line that a child logs reaches its parent: the connection of the parent gets the log instruction with
  the child's name in brackets, the line and its terminator as argument, in packets of at most 512 bytes, and
  the outgoing queue is empty afterwards.\<close>

theorem log_reaches_parent:
  assumes "queue_rel (smem st) (outgoingmsg st) []" and "mem_ok (smem st)" and "parent st = Some p"
    and "routed_to st p con" and "render format args = Some line"
    and "length (server_name st) + length line + 5 \<le> 4096"
    and x: "x = Instr (server_name st) p WIMP_INSTRUCTION_LOG ((''['' @ server_name st @ '']'' @ '' '') @ line @ [NUL])" "wf_item x"
    and "sends_ok res (sends st)" and "length (sendbuffer st) = 512" and "length (item_wire x) + 1 < fuel"
  shows "\<exists>st' log. wimp_log_internal fuel res (Some st) format args = Ok (False, Some st')
    \<and> sent st' = sent st @ log \<and> con_bytes con log = item_wire x \<and> (\<forall>y \<in> set log. is_packet (snd y))
    \<and> queue_rel (smem st') (outgoingmsg st') []"
proof -
  let ?a = "log_line st line"
  obtain rest where l: "wimp_log_internal fuel res (Some st) format args =
    bnd (wimp_server_add st p WIMP_INSTRUCTION_LOG (Some (?a @ rest)) (length ?a)) (\<lambda>st.
    bnd (wimp_server_send_instructions fuel res st) (\<lambda>(_, st). Ok (False, Some st)))"
    using log_internal_eq [OF assms(3,5,6)] by blast
  have s0: "stored (smem st) [] []" by (simp add: stored_def)
  obtain q m c where a: "wimp_server_add st p WIMP_INSTRUCTION_LOG (Some (?a @ rest)) (length ?a)
      = Ok (st\<lparr>outgoingmsg := q, smem := m\<rparr>)"
    "queue_rel m q ([] @ [c])" "mem_ok m" "stored m ([] @ [c]) ([] @ [Instr (server_name st) p WIMP_INSTRUCTION_LOG ?a])"
    using add_one_stored [OF assms(1,2) s0, of p WIMP_INSTRUCTION_LOG ?a] x by blast
  let ?st = "st\<lparr>outgoingmsg := q, smem := m\<rparr>"
  have "routed_to ?st p con" using assms(4) routed_to_cong [of ?st st] by simp
  then obtain st' log where s: "wimp_server_send_instructions fuel res ?st = Ok (WIMP_SERVER_SUCCESS, st')"
    "sent st' = sent ?st @ log" "con_bytes con log = stream_wire [x]" "\<forall>y \<in> set log. is_packet (snd y)"
    "queue_rel (smem st') (outgoingmsg st') []"
    using send_stored [of ?st "[c]" "[x]" con res fuel] a(2-4) x(1) assms(9-11) by auto
  show ?thesis unfolding l a(1) bnd.simps s(1) prod.case using s by auto
qed

theorem log_reaches_parent_witness:
  "\<exists>st' log. wimp_log_internal 100 (\<lambda>_ n. int n) (Some ex_wait) ''%s up'' [StringArg ''db''] = Ok (False, Some st')
    \<and> sent st' = sent ex_wait @ log \<and> con_bytes (Some 8) log = item_wire (Instr ''s'' ''b'' ''log'' (''[s] db up'' @ [NUL]))
    \<and> (\<forall>y \<in> set log. is_packet (snd y)) \<and> queue_rel (smem st') (outgoingmsg st') []"
proof (rule log_reaches_parent)
  show "queue_rel (smem ex_wait) (outgoingmsg ex_wait) []" "mem_ok (smem ex_wait)"
    using empty_mem_ok by (simp_all add: ex_wait_def mem_ok_def)
  show "routed_to ex_wait ''b'' (Some 8)"
    by (simp add: routed_to_def send_target_def ex_wait_def ex_get ptable_consts ex_procs_def)
  show "render ''%s up'' [StringArg ''db''] = Some ''db up''" by simp
qed (simp_all add: ex_wait_def sends_ok_def WIMP_ZERO_BUFFER_def rec_consts length_wire instr_size_def WIMP_INSTRUCTION_LOG_def
    del: item_wire.simps)

end
