(* ===== verification/Wimp_Process.thy ===== *)
theory Wimp_Process
  imports Wimp_Digits
begin

section \<open>Processes and library state (\<open>wimp_process.c\<close>)\<close>

text \<open>
  Counting the users of the library, the argument blocks handed to new threads, starting
  processes, and finding the directory of the program. Of the two versions of the functions that
  depend on the platform, this is the one for Unix. What the operating system and the socket and
  threading libraries return is a parameter. The dynamic strings with which the command line
  is put together stand for their values.
\<close>

definition WIMP_PROCESS_SUCCESS :: int where "WIMP_PROCESS_SUCCESS = 0"
definition WIMP_PROCESS_FAIL :: int where "WIMP_PROCESS_FAIL = - 1"
definition WIMP_PROCESS_INVALID_PATH :: int where "WIMP_PROCESS_INVALID_PATH = - 2"
definition WIMP_PROCESS_UNRESOLVED_EXE_DIR :: int where "WIMP_PROCESS_UNRESOLVED_EXE_DIR = - 3"
definition MAX_PORT_STRING_LEN :: nat where "MAX_PORT_STRING_LEN = 6"
definition MAX_DIRECTORY_PATH_LEN :: nat where "MAX_DIRECTORY_PATH_LEN = 1024"

lemmas process_consts = WIMP_PROCESS_SUCCESS_def WIMP_PROCESS_FAIL_def WIMP_PROCESS_INVALID_PATH_def
  WIMP_PROCESS_UNRESOLVED_EXE_DIR_def MAX_PORT_STRING_LEN_def MAX_DIRECTORY_PATH_LEN_def

subsection \<open>Users of the library\<close>

datatype libsys_call = LibsysInit | LibsysShutdown

text \<open>The reference counter and the calls made so far.\<close>

record lib_state =
  init_ref_counter :: int
  libsys_calls :: "libsys_call list"

definition wimp_init :: "lib_state \<Rightarrow> int \<times> lib_state" where
  "wimp_init s =
     (let s = (if init_ref_counter s = 0 then s\<lparr>libsys_calls := libsys_calls s @ [LibsysInit]\<rparr> else s)
      in (WIMP_PROCESS_SUCCESS, s\<lparr>init_ref_counter := init_ref_counter s + 1\<rparr>))"

definition wimp_shutdown :: "lib_state \<Rightarrow> lib_state outcome" where
  "wimp_shutdown s =
     (let s = s\<lparr>init_ref_counter := init_ref_counter s - 1\<rparr>;
          s = (if init_ref_counter s = 0 then s\<lparr>libsys_calls := libsys_calls s @ [LibsysShutdown]\<rparr> else s)
      in bnd (guard_or AssertFailed (init_ref_counter s \<ge> 0)) (\<lambda>_. Ok s))"

subsection \<open>Argument blocks\<close>

text \<open>The entry with its array, the array of arguments, and the arguments.\<close>

datatype entry_block =
    EntryBlock "addr option" nat
  | ArgvBlock "addr option list"
  | StringBlock bytes

fun as_argv :: "entry_block \<Rightarrow> addr option list outcome" where
  "as_argv (ArgvBlock xs) = Ok xs"
| "as_argv _ = Fault BadLibCall"

fun as_string :: "entry_block \<Rightarrow> bytes outcome" where
  "as_string (StringBlock s) = Ok s"
| "as_string _ = Fault BadLibCall"

fun as_entry :: "entry_block \<Rightarrow> (addr option \<times> nat) outcome" where
  "as_entry (EntryBlock argv argc) = Ok (argv, argc)"
| "as_entry _ = Fault BadLibCall"

definition load_argv :: "entry_block heap \<Rightarrow> addr \<Rightarrow> addr option list outcome" where
  "load_argv h v = bnd (hload h v) as_argv"

text \<open>Freeing the arguments below \<open>j\<close>, from the last one down.\<close>

fun free_args_down :: "entry_block heap \<Rightarrow> addr \<Rightarrow> nat \<Rightarrow> entry_block heap outcome" where
  "free_args_down h v 0 = Ok h"
| "free_args_down h v (Suc j) =
     bnd (load_argv h v) (\<lambda>argv.
     bnd (guard_or OutOfBounds (j < length argv)) (\<lambda>_.
     bnd (hfree h (argv ! j)) (\<lambda>h. free_args_down h v j)))"

text \<open>What every early return does.\<close>

definition abandon_entry :: "entry_block heap \<Rightarrow> addr \<Rightarrow> addr \<Rightarrow> nat \<Rightarrow> (addr option \<times> entry_block heap) outcome" where
  "abandon_entry h e v i =
     bnd (free_args_down h v i) (\<lambda>h.
     bnd (hfree h (Some v)) (\<lambda>h.
     bnd (hfree h (Some e)) (\<lambda>h. Ok (None, h))))"

text \<open>The loop over the variable arguments: \<open>args\<close> are those from \<open>i\<close> on, \<open>None\<close> for NULL.\<close>

fun copy_args :: "entry_block heap \<Rightarrow> addr \<Rightarrow> addr \<Rightarrow> nat \<Rightarrow> bytes option list \<Rightarrow> (addr option \<times> entry_block heap) outcome" where
  "copy_args h e v i [] =
     bnd (load_argv h v) (\<lambda>argv.
     bnd (guard_or OutOfBounds (i < length argv)) (\<lambda>_.
     bnd (hstore h v (ArgvBlock (argv[i := None]))) (\<lambda>h. Ok (Some e, h))))"
| "copy_args h e v i (arg # args) =
     (case arg of
        None \<Rightarrow> abandon_entry h e v i
      | Some s \<Rightarrow>
          (case halloc h (StringBlock s) of
             (None, h) \<Rightarrow> abandon_entry h e v i
           | (Some a, h) \<Rightarrow>
               bnd (load_argv h v) (\<lambda>argv.
               bnd (guard_or OutOfBounds (i < length argv)) (\<lambda>_.
               bnd (hstore h v (ArgvBlock (argv[i := Some a]))) (\<lambda>h.
               copy_args h e v (Suc i) args)))))"

text \<open>The array has one element more than there are arguments; its contents are not yet set.\<close>

definition wimp_get_entry :: "entry_block heap \<Rightarrow> bytes option list \<Rightarrow> (addr option \<times> entry_block heap) outcome" where
  "wimp_get_entry h args =
     (case halloc h (EntryBlock None 0) of
        (None, h) \<Rightarrow> Ok (None, h)
      | (Some e, h) \<Rightarrow>
          (case halloc h (ArgvBlock (replicate (length args + 1) None)) of
             (None, h) \<Rightarrow> bnd (hfree h (Some e)) (\<lambda>h. Ok (None, h))
           | (Some v, h) \<Rightarrow>
               bnd (hstore h e (EntryBlock (Some v) (length args))) (\<lambda>h.
               copy_args h e v 0 args)))"

text \<open>\<open>free(entry)\<close> leaves the array allocated.\<close>

fun free_args_up :: "entry_block heap \<Rightarrow> addr \<Rightarrow> nat \<Rightarrow> nat \<Rightarrow> entry_block heap outcome" where
  "free_args_up h v i 0 = Ok h"
| "free_args_up h v i (Suc left) =
     bnd (load_argv h v) (\<lambda>argv.
     bnd (guard_or OutOfBounds (i < length argv)) (\<lambda>_.
     bnd (hfree h (argv ! i)) (\<lambda>h. free_args_up h v (Suc i) left)))"

definition wimp_free_entry :: "entry_block heap \<Rightarrow> addr \<Rightarrow> entry_block heap outcome" where
  "wimp_free_entry h e =
     bnd (hload h e) (\<lambda>b.
     bnd (as_entry b) (\<lambda>(argv, argc).
     bnd (if argc = 0 then Ok h else bnd (deref argv) (\<lambda>v. free_args_up h v 0 argc)) (\<lambda>h.
     hfree h (Some e))))"

subsection \<open>The directory of the program\<close>

text \<open>The last slash at an index from \<open>i\<close> down to one.\<close>

fun last_slash :: "bytes \<Rightarrow> nat \<Rightarrow> nat option" where
  "last_slash path 0 = None"
| "last_slash path (Suc i) =
     (if path ! Suc i = CHR ''/'' \<or> path ! Suc i = CHR 0x5C then Some (Suc i) else last_slash path i)"

text \<open>\<open>link\<close> is what the operating system has as the path of the program; the call fails when there is
  none. The terminator is written at the index that the call returns.\<close>

definition wimp_get_running_executable_directory :: "bytes option \<Rightarrow> (int \<times> bytes) outcome" where
  "wimp_get_running_executable_directory link =
     (let path = replicate MAX_DIRECTORY_PATH_LEN NUL;
          path = (case link of None \<Rightarrow> path
                  | Some t \<Rightarrow> take MAX_DIRECTORY_PATH_LEN t @ drop (length t) path);
          linklen = (case link of None \<Rightarrow> - 1 | Some t \<Rightarrow> int (min (length t) MAX_DIRECTORY_PATH_LEN))
      in bnd (guard_or OutOfBounds (0 \<le> linklen)) (\<lambda>_.
         bnd (write_at path (nat linklen) [NUL]) (\<lambda>path.
         bnd (cstr_at path 0) (\<lambda>s.
         case last_slash path (length s) of
           None \<Rightarrow> Ok (WIMP_PROCESS_INVALID_PATH, path)
         | Some i \<Rightarrow>
             Ok (WIMP_PROCESS_SUCCESS,
                 take (i + 1) path @ replicate (MAX_DIRECTORY_PATH_LEN - i - 1) NUL)))))"

subsection \<open>Starting processes\<close>

text \<open>The loop that appends the arguments: \<open>left\<close> of them, the last one without a space behind it.\<close>

fun append_args :: "entry_block heap \<Rightarrow> addr option \<Rightarrow> nat \<Rightarrow> nat \<Rightarrow> bytes \<Rightarrow> bytes outcome" where
  "append_args h argv i 0 path = Ok path"
| "append_args h argv i (Suc left) path =
     bnd (deref argv) (\<lambda>v.
     bnd (load_argv h v) (\<lambda>xs.
     bnd (guard_or OutOfBounds (i < length xs)) (\<lambda>_.
     bnd (deref (xs ! i)) (\<lambda>a.
     bnd (bnd (hload h a) as_string) (\<lambda>s.
     let path = path @ s;
         path = (if left > 0 then path @ '' '' else path)
     in append_args h argv (Suc i) left path)))))"

text \<open>The command given to the shell, when one is.\<close>

definition wimp_start_executable_process ::
    "bytes option \<Rightarrow> (bytes \<Rightarrow> bool) \<Rightarrow> (bytes \<Rightarrow> bool) \<Rightarrow> entry_block heap \<Rightarrow> bytes \<Rightarrow> addr \<Rightarrow> (int \<times> bytes option) outcome" where
  "wimp_start_executable_process link exists popen h executable e =
     bnd (wimp_get_running_executable_directory link) (\<lambda>(r, path_buffer).
     if r \<noteq> WIMP_PROCESS_SUCCESS then Ok (WIMP_PROCESS_UNRESOLVED_EXE_DIR, None)
     else
       bnd (cstr_at path_buffer 0) (\<lambda>path.
       let path = path @ executable in
       if \<not> exists path then Ok (WIMP_PROCESS_INVALID_PATH, None)
       else
         bnd (bnd (hload h e) as_entry) (\<lambda>(argv, argc).
         bnd (append_args h argv 0 argc (path @ '' '')) (\<lambda>path.
         if \<not> popen path then Ok (WIMP_PROCESS_FAIL, Some path)
         else Ok (WIMP_PROCESS_SUCCESS, Some path)))))"

definition wimp_start_library_process :: "nat option \<Rightarrow> int" where
  "wimp_start_library_process process_thread =
     (if process_thread = None then WIMP_PROCESS_FAIL else WIMP_PROCESS_SUCCESS)"

subsection \<open>Ports\<close>

datatype port_call = AddressFree "nat option" | SocketFree nat | SocketClose nat

text \<open>The results of the library: the address, the socket, whether it could be bound, and the bound
  address with its port.\<close>

definition wimp_assign_unused_local_port ::
    "nat option \<Rightarrow> nat option \<Rightarrow> bool \<Rightarrow> nat \<times> int \<Rightarrow> int \<times> port_call list" where
  "wimp_assign_unused_local_port reciever_address reciever_socket bound bound_address =
     (case reciever_address of
        None \<Rightarrow> (WIMP_PROCESS_FAIL, [AddressFree None])
      | Some a \<Rightarrow>
          (case reciever_socket of
             None \<Rightarrow> (WIMP_PROCESS_FAIL, [AddressFree (Some a)])
           | Some s \<Rightarrow>
               if \<not> bound then (WIMP_PROCESS_FAIL, [AddressFree (Some a), SocketFree s])
               else (snd bound_address, [AddressFree (Some a), AddressFree (Some (fst bound_address)), SocketClose s])))"

definition wimp_port_to_string :: "int \<Rightarrow> (int \<times> bytes) outcome" where
  "wimp_port_to_string port =
     bnd (write_at (replicate MAX_PORT_STRING_LEN NUL) 0 (print_signed port @ [NUL])) (\<lambda>string_out.
     Ok (WIMP_PROCESS_SUCCESS, string_out))"

section \<open>Argument blocks: all or nothing\<close>

lemma load_argv_Some [simp]: "cells h v = Some (ArgvBlock xs) \<Longrightarrow> load_argv h v = Ok xs"
  by (simp add: load_argv_def)

text \<open>The strings \<open>as\<close> are the first elements of the array.\<close>

definition argv_holds :: "entry_block heap \<Rightarrow> addr \<Rightarrow> addr list \<Rightarrow> bool" where
  "argv_holds h v as \<longleftrightarrow> (\<exists>rest. cells h v = Some (ArgvBlock (map Some as @ rest))) \<and> distinct as \<and> v \<notin> set as
     \<and> (\<forall>a \<in> set as. cells h a \<noteq> None)"

lemma free_args_down_eq:
  "argv_holds h v (as @ bs) \<Longrightarrow> free_args_down h v (length as) = Ok (without h (set as))"
proof (induction as arbitrary: h bs rule: rev_induct)
  case (snoc a as)
  obtain rest where v: "cells h v = Some (ArgvBlock (map Some (as @ a # bs) @ rest))"
    using snoc.prems by (auto simp: argv_holds_def)
  have a: "cells h a \<noteq> None" "a \<notin> set as" "v \<noteq> a" "distinct (as @ bs)" "v \<notin> set (as @ bs)"
    "\<forall>a \<in> set (as @ bs). cells h a \<noteq> None" "a \<notin> set bs"
    using snoc.prems by (auto simp: argv_holds_def)
  have f: "free_args_down h v (length (as @ [a])) = free_args_down (without h {a}) v (length as)"
    using v hfree_without [OF a(1)] by (simp add: nth_append)
  have h: "argv_holds (without h {a}) v as"
    using v a by (auto simp: argv_holds_def)
  have "free_args_down (without h {a}) v (length as) = Ok (without (without h {a}) (set as))"
    using snoc.IH [of "without h {a}" "[]"] h by simp
  then show ?case unfolding f by (simp add: without_without)
qed simp

lemma free_args_up_eq:
  assumes "cells h v = Some (ArgvBlock xs)" and "i + length as \<le> length xs" and "\<forall>k < length as. xs ! (i + k) = Some (as ! k)"
    and "distinct as" "v \<notin> set as" "\<forall>a \<in> set as. cells h a \<noteq> None"
  shows "free_args_up h v i (length as) = Ok (without h (set as))"
  using assms
proof (induction as arbitrary: h i)
  case (Cons a as)
  have a: "xs ! i = Some a" "i < length xs" "cells h a \<noteq> None" using Cons.prems(2,3,6) by (auto dest: spec [of _ 0])
  have f: "free_args_up h v i (length (a # as)) = free_args_up (without h {a}) v (Suc i) (length as)"
    using Cons.prems(1) a hfree_without [OF a(3)] by simp
  have "\<forall>k < length as. xs ! (Suc i + k) = Some (as ! k)" using Cons.prems(3) by (auto dest: spec [of _ "Suc _"])
  then have "free_args_up (without h {a}) v (Suc i) (length as) = Ok (without (without h {a}) (set as))"
    using Cons.prems by (intro Cons.IH) auto
  then show ?case unfolding f by (simp add: without_without)
qed simp

text \<open>What has been allocated while the arguments \<open>ss\<close> were copied, on top of the heap \<open>h0\<close>.\<close>

definition entry_heap :: "entry_block heap \<Rightarrow> addr \<Rightarrow> addr \<Rightarrow> nat \<Rightarrow> addr list \<Rightarrow> bytes list \<Rightarrow> entry_block heap \<Rightarrow> bool" where
  "entry_heap h0 e v n as ss h \<longleftrightarrow> heap_ok h \<and> distinct (e # v # as)
     \<and> (\<forall>a \<in> set (e # v # as). cells h0 a = None)
     \<and> cells h e = Some (EntryBlock (Some v) n)
     \<and> cells h v = Some (ArgvBlock (map Some as @ replicate (n + 1 - length as) None))
     \<and> list_all2 (\<lambda>a s. cells h a = Some (StringBlock s)) as ss
     \<and> (\<forall>a. a \<notin> set (e # v # as) \<longrightarrow> cells h a = cells h0 a)"

lemma abandon_eq:
  assumes "entry_heap h0 e v n as ss h"
  shows "\<exists>h'. abandon_entry h e v (length as) = Ok (None, h') \<and> cells h' = cells h0"
proof -
  have al: "\<forall>a \<in> set as. cells h a \<noteq> None"
    using assms by (auto simp: entry_heap_def list_all2_conv_all_nth in_set_conv_nth)
  then have "argv_holds h v (as @ [])" using assms by (auto simp: argv_holds_def entry_heap_def)
  note f = free_args_down_eq [OF this]
  have v: "cells (without h (set as)) v \<noteq> None" and e: "cells (without (without h (set as)) {v}) e \<noteq> None"
    using assms by (auto simp: entry_heap_def)
  have "abandon_entry h e v (length as) = Ok (None, without (without (without h (set as)) {v}) {e})"
    using f hfree_without [OF v] hfree_without [OF e] by (simp add: abandon_entry_def)
  moreover have "cells (without (without (without h (set as)) {v}) {e}) = cells h0"
    using assms by (auto simp: entry_heap_def fun_eq_iff)
  ultimately show ?thesis by blast
qed

lemma entry_heap_add:
  assumes "entry_heap h0 e v n as ss h" and "length as < n" and "halloc h (StringBlock s) = (Some a, h1)"
  shows "\<exists>h2. load_argv h1 v = Ok (map Some as @ replicate (n + 1 - length as) None)
    \<and> hstore h1 v (ArgvBlock ((map Some as @ replicate (n + 1 - length as) None)[length as := Some a])) = Ok h2
    \<and> entry_heap h0 e v n (as @ [a]) (ss @ [s]) h2"
proof -
  have a: "a = calls h" "h1 = h\<lparr>cells := (cells h)(a \<mapsto> StringBlock s), calls := Suc a\<rparr>"
    using assms(3) by (auto simp: halloc_def split: if_splits)
  have ok: "heap_ok h" "cells h a = None" using assms(1) heap_ok_fresh a(1) by (auto simp: entry_heap_def)
  have al: "\<forall>b \<in> set as. cells h b \<noteq> None"
    using assms(1) by (auto simp: entry_heap_def list_all2_conv_all_nth in_set_conv_nth)
  have n: "a \<notin> set (e # v # as)" using assms(1) ok(2) al by (auto simp: entry_heap_def)
  then have h0: "cells h0 a = None" using assms(1) ok(2) by (simp add: entry_heap_def)
  let ?xs = "map Some as @ replicate (n + 1 - length as) None"
  let ?h2 = "h1\<lparr>cells := (cells h1)(v \<mapsto> ArgvBlock (?xs[length as := Some a]))\<rparr>"
  have v: "cells h1 v = Some (ArgvBlock ?xs)" using assms(1) n by (auto simp: entry_heap_def a(2))
  have "n + 1 - length as = Suc (n + 1 - length (as @ [a]))" using assms(2) by simp
  then have x: "?xs[length as := Some a] = map Some (as @ [a]) @ replicate (n + 1 - length (as @ [a])) None"
    by (simp add: list_update_append)
  have l: "list_all2 (\<lambda>b t. cells ?h2 b = Some (StringBlock t)) (as @ [a]) (ss @ [s])"
  proof (rule list_all2_appendI)
    have "list_all2 (\<lambda>b t. cells h b = Some (StringBlock t)) as ss" using assms(1) by (simp add: entry_heap_def)
    then show "list_all2 (\<lambda>b t. cells ?h2 b = Some (StringBlock t)) as ss"
      by (rule list.rel_mono_strong) (use n assms(1) in \<open>auto simp: a(2) entry_heap_def\<close>)
    show "list_all2 (\<lambda>b t. cells ?h2 b = Some (StringBlock t)) [a] [s]" using n by (simp add: a(2))
  qed
  have ok2: "heap_ok ?h2"
    using ok(1) assms(1) by (auto simp: heap_ok_def a less_Suc_eq entry_heap_def)
  have d: "distinct (e # v # as @ [a])" "\<forall>b \<in> set (e # v # as @ [a]). cells h0 b = None"
    "cells ?h2 e = Some (EntryBlock (Some v) n)" "cells ?h2 v = Some (ArgvBlock (?xs[length as := Some a]))"
    "\<forall>b. b \<notin> set (e # v # as @ [a]) \<longrightarrow> cells ?h2 b = cells h0 b"
    using assms(1) n h0 by (auto simp: entry_heap_def a(2))
  have "cells ?h2 v = Some (ArgvBlock (map Some (as @ [a]) @ replicate (n + 1 - length (as @ [a])) None))"
    by (simp only: x) simp
  then have "entry_heap h0 e v n (as @ [a]) (ss @ [s]) ?h2"
    unfolding entry_heap_def using l ok2 d(1,2,3,5) by blast
  then show ?thesis using v by (intro exI [of _ ?h2]) simp
qed

text \<open>The outcome of the copying: everything given back, or the entry with a copy of every argument.\<close>

definition copy_result :: "entry_block heap \<Rightarrow> addr \<Rightarrow> addr \<Rightarrow> nat \<Rightarrow> bytes list \<Rightarrow> bytes option list \<Rightarrow> addr option \<Rightarrow> entry_block heap \<Rightarrow> bool" where
  "copy_result h0 e v n ss args p h \<longleftrightarrow>
     (case p of
        None \<Rightarrow> cells h = cells h0
      | Some e' \<Rightarrow> e' = e \<and> (\<exists>as ss'. args = map Some ss' \<and> length as = n \<and> entry_heap h0 e v n as (ss @ ss') h))"

lemma entry_heap_length: "entry_heap h0 e v n as ss h \<Longrightarrow> length ss = length as"
  by (auto simp: entry_heap_def dest: list_all2_lengthD)

lemma copy_args_eq:
  "entry_heap h0 e v n as ss h \<Longrightarrow> length as + length args = n \<Longrightarrow>
    \<exists>p h'. copy_args h e v (length as) args = Ok (p, h') \<and> copy_result h0 e v n ss args p h'
      \<and> (None \<notin> set args \<and> (\<forall>k. \<not> fails h k) \<longrightarrow> p \<noteq> None)"
proof (induction args arbitrary: as ss h)
  case Nil
  let ?h = "h\<lparr>cells := (cells h)(v \<mapsto> ArgvBlock (map Some as @ [None]))\<rparr>"
  have v: "cells h v = Some (ArgvBlock (map Some as @ [None]))" and n: "length as = n"
    using Nil by (auto simp: entry_heap_def)
  have "?h = h" using v by (auto simp: fun_upd_idem intro!: heap.equality)
  then have "copy_args h e v (length as) [] = Ok (Some e, h)"
    using v by (simp add: list_update_append)
  moreover have "copy_result h0 e v n ss [] (Some e) h"
    using Nil n by (auto simp: copy_result_def)
  ultimately show ?case by blast
next
  case (Cons arg args)
  note E = Cons.prems(1)
  have gone: "\<exists>h'. abandon_entry h e v (length as) = Ok (None, h') \<and> copy_result h0 e v n ss (arg # args) None h'"
    using abandon_eq [OF E] by (auto simp: copy_result_def)
  show ?case
  proof (cases arg)
    case None
    then show ?thesis using gone by auto
  next
    case (Some s)
    show ?thesis
    proof (cases "fails h (calls h)")
      case True
      let ?h = "h\<lparr>calls := Suc (calls h)\<rparr>"
      have "entry_heap h0 e v n as ss ?h"
        using E by (auto simp: entry_heap_def heap_ok_def less_Suc_eq)
      then show ?thesis using abandon_eq True Some by (fastforce simp: copy_result_def halloc_def)
    next
      case False
      then obtain a g where g: "halloc h (StringBlock s) = (Some a, g)" by (auto simp: halloc_def)
      have n: "length as < n" using Cons.prems(2) by simp
      obtain g' where g': "load_argv g v = Ok (map Some as @ replicate (n + 1 - length as) None)"
        "hstore g v (ArgvBlock ((map Some as @ replicate (n + 1 - length as) None)[length as := Some a])) = Ok g'"
        "entry_heap h0 e v n (as @ [a]) (ss @ [s]) g'"
        using entry_heap_add [OF E n g] by blast
      have f: "fails g' = fails h"
        using g g'(2) by (auto simp: halloc_def hstore_Ok split: if_splits)
      have step: "copy_args h e v (length as) (arg # args) = copy_args g' e v (length (as @ [a])) args"
        using Some g g'(1,2) n by simp
      obtain p h' where p: "copy_args g' e v (length (as @ [a])) args = Ok (p, h')"
        "copy_result h0 e v n (ss @ [s]) args p h'" "None \<notin> set args \<and> (\<forall>k. \<not> fails g' k) \<longrightarrow> p \<noteq> None"
        using Cons.IH [OF g'(3)] Cons.prems(2) by auto
      have "copy_result h0 e v n ss (arg # args) p h'"
        using p(2) Some by (auto simp: copy_result_def split: option.splits intro!: exI [of _ "s # _"])
      then show ?thesis using p f step by auto
    qed
  qed
qed

text \<open>The entry \<open>e\<close> holds the arguments \<open>ss\<close> in blocks that \<open>h0\<close> did not have, its array is at \<open>v\<close>.\<close>

definition entry_holds :: "entry_block heap \<Rightarrow> addr \<Rightarrow> addr \<Rightarrow> bytes list \<Rightarrow> entry_block heap \<Rightarrow> bool" where
  "entry_holds h0 e v ss h \<longleftrightarrow> (\<exists>as. length as = length ss \<and> entry_heap h0 e v (length ss) as ss h)"

lemma entry_heap_calls [simp]: "entry_heap (h0\<lparr>calls := k\<rparr>) = entry_heap h0"
  by (intro ext) (simp add: entry_heap_def)

lemma get_entry_start:
  assumes "heap_ok h" and "halloc h (EntryBlock None 0) = (Some e, h1)"
    and "halloc h1 (ArgvBlock (replicate (n + 1) None)) = (Some v, h2)"
  shows "\<exists>h3. hstore h2 e (EntryBlock (Some v) n) = Ok h3 \<and> entry_heap h e v n [] [] h3 \<and> fails h3 = fails h"
proof -
  have 1: "e = calls h" "h1 = h\<lparr>cells := (cells h)(e \<mapsto> EntryBlock None 0), calls := Suc e\<rparr>"
    using assms(2) by (auto simp: halloc_def split: if_splits)
  have 2: "v = Suc e" "h2 = h1\<lparr>cells := (cells h1)(v \<mapsto> ArgvBlock (replicate (n + 1) None)), calls := Suc v\<rparr>"
    using assms(3) 1 by (auto simp: halloc_def split: if_splits)
  let ?h = "h2\<lparr>cells := (cells h2)(e \<mapsto> EntryBlock (Some v) n)\<rparr>"
  have s: "hstore h2 e (EntryBlock (Some v) n) = Ok ?h" by (rule hstore_Some) (simp add: 1(2) 2)
  have fresh: "cells h e = None" "cells h v = None"
    using assms(1) 1(1) 2(1) by (auto simp: heap_ok_def)
  have "heap_ok ?h" using assms(1) 1(1) by (auto simp: heap_ok_def 1(2) 2 less_Suc_eq)
  then have "entry_heap h e v n [] [] ?h"
    using fresh by (simp add: entry_heap_def 1(2) 2)
  then show ?thesis using s by (auto simp: 1(2) 2)
qed

lemma get_entry_eq:
  assumes "heap_ok h"
  shows "\<exists>p h'. wimp_get_entry h args = Ok (p, h')
    \<and> (case p of None \<Rightarrow> cells h' = cells h
       | Some e \<Rightarrow> \<exists>v ss. args = map Some ss \<and> entry_holds h e v ss h')
    \<and> (None \<notin> set args \<and> (\<forall>k. \<not> fails h k) \<longrightarrow> p \<noteq> None)"
proof (cases "fails h (calls h)")
  case True
  then show ?thesis by (auto simp: wimp_get_entry_def halloc_def)
next
  case ok1: False
  obtain e h1 where 1: "halloc h (EntryBlock None 0) = (Some e, h1)" using ok1 by (auto simp: halloc_def)
  show ?thesis
  proof (cases "fails h (Suc (calls h))")
    case True
    have "cells h (calls h) = None" using assms by (rule heap_ok_fresh)
    then show ?thesis using ok1 True by (auto simp: wimp_get_entry_def halloc_def fun_upd_idem)
  next
    case False
    obtain v h2 where 2: "halloc h1 (ArgvBlock (replicate (length args + 1) None)) = (Some v, h2)"
      using 1 False by (auto simp: halloc_def split: if_splits)
    obtain h3 where 3: "hstore h2 e (EntryBlock (Some v) (length args)) = Ok h3"
      "entry_heap h e v (length args) [] [] h3" "fails h3 = fails h"
      using get_entry_start [OF assms 1 2] by blast
    obtain p h' where p: "copy_args h3 e v 0 args = Ok (p, h')" "copy_result h e v (length args) [] args p h'"
      "None \<notin> set args \<and> (\<forall>k. \<not> fails h3 k) \<longrightarrow> p \<noteq> None"
      using copy_args_eq [OF 3(2), of args] by auto
    have "wimp_get_entry h args = Ok (p, h')"
      using 1 2 3(1) p(1) by (simp add: wimp_get_entry_def)
    moreover have "case p of None \<Rightarrow> cells h' = cells h
       | Some e \<Rightarrow> \<exists>v ss. args = map Some ss \<and> entry_holds h e v ss h'"
      using p(2) unfolding copy_result_def entry_holds_def by (cases p) (simp, force)
    ultimately show ?thesis using p(3) 3(3) by auto
  qed
qed

lemma free_entry_eq:
  assumes "entry_holds h0 e v ss h"
  shows "\<exists>h' xs. wimp_free_entry h e = Ok h' \<and> cells h' = (cells h0)(v \<mapsto> ArgvBlock xs)"
proof -
  obtain as where E: "length as = length ss" "entry_heap h0 e v (length ss) as ss h"
    using assms by (auto simp: entry_holds_def)
  let ?xs = "map Some as @ [None]"
  have m: "cells h e = Some (EntryBlock (Some v) (length ss))" "cells h v = Some (ArgvBlock ?xs)"
    "distinct (e # v # as)" "\<forall>a \<in> set as. cells h a \<noteq> None"
    using E by (auto simp: entry_heap_def list_all2_conv_all_nth in_set_conv_nth)
  have f: "free_args_up h v 0 (length as) = Ok (without h (set as))"
    using m by (intro free_args_up_eq [of _ _ ?xs]) (auto simp: nth_append)
  have e: "cells (without h (set as)) e \<noteq> None" using m by auto
  have "wimp_free_entry h e = Ok (without (without h (set as)) {e})"
    using m(1) f E(1) hfree_without [OF e] by (cases "ss = []") (auto simp: wimp_free_entry_def)
  moreover have "cells (without (without h (set as)) {e}) = (cells h0)(v \<mapsto> ArgvBlock ?xs)"
    using E m by (auto simp: entry_heap_def fun_eq_iff)
  ultimately show ?thesis by blast
qed

section \<open>Ports and paths\<close>

lemma port_string_eq:
  "wimp_port_to_string port =
    (if length (print_signed port) < 6
     then Ok (WIMP_PROCESS_SUCCESS, print_signed port @ replicate (6 - length (print_signed port)) NUL)
     else Fault OutOfBounds)"
  unfolding wimp_port_to_string_def write_at_def
  by (auto simp: process_consts Suc_diff_Suc simp flip: replicate_Suc)

lemma print_signed_short:
  assumes "- 2147483648 \<le> i" "i < 2147483648"
  shows "length (print_signed i) < 6 \<longleftrightarrow> - 10000 < i \<and> i < 100000"
proof -
  have d: "n < 10 ^ 10 \<Longrightarrow> (length (digits 10 n) < 6 \<longleftrightarrow> n < 100000) \<and> (length (digits 10 n) < 5 \<longleftrightarrow> n < 10000)" for n
    by (simp add: length_decimal)
  show ?thesis
  proof (cases "i < 0")
    case True
    then show ?thesis using d [of "nat (- i)"] assms(1) by (simp add: print_signed_def) linarith
  next
    case False
    then show ?thesis using d [of "nat i"] assms(2) by (simp add: print_signed_def) linarith
  qed
qed

abbreviation is_slash :: "char \<Rightarrow> bool" where
  "is_slash c \<equiv> c = CHR ''/'' \<or> c = CHR 0x5C"

lemma last_slash_SomeI:
  "0 < i \<Longrightarrow> i \<le> n \<Longrightarrow> is_slash (path ! i) \<Longrightarrow> (\<And>j. i < j \<Longrightarrow> j \<le> n \<Longrightarrow> \<not> is_slash (path ! j)) \<Longrightarrow>
    last_slash path n = Some i"
  by (induction n) (auto simp: le_Suc_eq)

lemma last_slash_NoneI: "(\<And>j. 0 < j \<Longrightarrow> j \<le> n \<Longrightarrow> \<not> is_slash (path ! j)) \<Longrightarrow> last_slash path n = None"
  by (induction n) auto

text \<open>The buffer holding the path \<open>t\<close>.\<close>

definition path_buffer :: "bytes \<Rightarrow> bytes" where
  "path_buffer t = t @ replicate (1024 - length t) NUL"

lemma path_buffer_nth: "path_buffer t ! i = (if i < length t then t ! i else NUL)" if "i < 1024"
  using that by (simp add: path_buffer_def nth_append)

lemma executable_directory_eq:
  assumes "length t < 1024" and "cstring t"
  shows "wimp_get_running_executable_directory (Some t) =
    (case last_slash (path_buffer t) (length t) of
       None \<Rightarrow> Ok (WIMP_PROCESS_INVALID_PATH, path_buffer t)
     | Some i \<Rightarrow> Ok (WIMP_PROCESS_SUCCESS, take (i + 1) (path_buffer t) @ replicate (1024 - i - 1) NUL))"
proof -
  have b: "take 1024 t @ drop (length t) (replicate 1024 NUL) = path_buffer t"
    using assms(1) by (simp add: path_buffer_def)
  have w: "write_at (path_buffer t) (length t) [NUL] = Ok (path_buffer t)"
    using assms(1) by (simp add: write_at_def path_buffer_def Suc_diff_Suc flip: replicate_Suc)
  have "path_buffer t = [] @ t @ NUL # replicate (1023 - length t) NUL"
    using assms(1) by (simp add: path_buffer_def Suc_diff_Suc flip: replicate_Suc)
  then have c: "cstr_at (path_buffer t) 0 = Ok t"
    using cstr_at_append [OF assms(2), of "[]"] by simp
  show ?thesis
    unfolding wimp_get_running_executable_directory_def Let_def process_consts option.case b
    using assms(1) w c by (simp add: min_def)
qed

text \<open>With a directory \<open>dir\<close> that is not the root.\<close>

lemma executable_directory_of:
  assumes "dir \<noteq> []" and "cstring (dir @ ''/'' @ file)" and "length (dir @ ''/'' @ file) < 1024"
    and "\<forall>c \<in> set file. \<not> is_slash c"
  shows "wimp_get_running_executable_directory (Some (dir @ ''/'' @ file)) =
    Ok (WIMP_PROCESS_SUCCESS, path_buffer (dir @ ''/''))"
proof -
  let ?t = "dir @ ''/'' @ file"
  have "last_slash (path_buffer ?t) (length ?t) = Some (length dir)"
  proof (rule last_slash_SomeI)
    fix j assume j: "length dir < j" "j \<le> length ?t"
    then show "\<not> is_slash (path_buffer ?t ! j)"
      using assms(3,4) by (cases "j = length ?t") (auto simp: path_buffer_nth nth_append nth_Cons split: nat.splits)
  qed (use assms in \<open>auto simp: path_buffer_nth\<close>)
  then show ?thesis
    using assms(2,3) executable_directory_eq [of ?t] by (simp add: path_buffer_def)
qed

text \<open>The arguments of the command line, with a space between any two.\<close>

fun joined :: "bytes list \<Rightarrow> bytes" where
  "joined [] = []"
| "joined [s] = s"
| "joined (s # t # ss) = s @ '' '' @ joined (t # ss)"

lemma append_args_eq:
  assumes "cells h v = Some (ArgvBlock xs)" and "i + length as \<le> length xs" and "\<forall>k < length as. xs ! (i + k) = Some (as ! k)"
    and "list_all2 (\<lambda>a s. cells h a = Some (StringBlock s)) as ss"
  shows "append_args h (Some v) i (length as) path = Ok (path @ joined ss)"
  using assms(2,3,4)
proof (induction as arbitrary: i ss path)
  case (Cons a as)
  obtain s ss' where s: "ss = s # ss'" "cells h a = Some (StringBlock s)"
    "list_all2 (\<lambda>a s. cells h a = Some (StringBlock s)) as ss'"
    using Cons.prems(3) by (auto simp: list_all2_Cons1)
  have x: "xs ! i = Some a" "i < length xs" using Cons.prems(1,2) by (auto dest: spec [of _ 0])
  have "\<forall>k < length as. xs ! (Suc i + k) = Some (as ! k)" using Cons.prems(2) by (auto dest: spec [of _ "Suc _"])
  note IH = Cons.IH [of "Suc i" ss', OF _ this s(3)]
  show ?case
    using Cons.prems(1) IH x s assms(1) by (cases ss') (auto simp: Let_def)
qed simp

section \<open>Properties\<close>

text \<open>C31: An argument block is all or nothing. Unless an argument is NULL or memory runs out, the
  entry is returned; it then holds a copy of each argument in blocks of its own, with its array
  ended by NULL, and freeing it never touches memory twice but leaves the array of pointers
  behind. Otherwise NULL is returned and everything that was allocated has been given back.\<close>

theorem entry_all_or_nothing:
  assumes "heap_ok h"
  shows "\<exists>p h'. wimp_get_entry h args = Ok (p, h')
    \<and> (None \<notin> set args \<and> (\<forall>k. \<not> fails h k) \<longrightarrow> p \<noteq> None)
    \<and> (case p of
         None \<Rightarrow> cells h' = cells h
       | Some e \<Rightarrow> \<exists>v ss h'' xs. args = map Some ss \<and> entry_holds h e v ss h'
           \<and> wimp_free_entry h' e = Ok h'' \<and> cells h'' = (cells h)(v \<mapsto> ArgvBlock xs))"
proof -
  obtain p h' where p: "wimp_get_entry h args = Ok (p, h')"
    "case p of None \<Rightarrow> cells h' = cells h | Some e \<Rightarrow> \<exists>v ss. args = map Some ss \<and> entry_holds h e v ss h'"
    "None \<notin> set args \<and> (\<forall>k. \<not> fails h k) \<longrightarrow> p \<noteq> None"
    using get_entry_eq [OF assms, of args] by blast
  have "case p of None \<Rightarrow> cells h' = cells h
       | Some e \<Rightarrow> \<exists>v ss h'' xs. args = map Some ss \<and> entry_holds h e v ss h'
           \<and> wimp_free_entry h' e = Ok h'' \<and> cells h'' = (cells h)(v \<mapsto> ArgvBlock xs)"
  proof (cases p)
    case (Some e)
    then obtain v ss where e: "args = map Some ss" "entry_holds h e v ss h'" using p(2) by auto
    show ?thesis using free_entry_eq [OF e(2)] e unfolding Some option.case by blast
  qed (use p(2) in simp)
  then show ?thesis using p(1,3) by blast
qed

theorem entry_all_or_nothing_witness:
  "(\<exists>p h'. wimp_get_entry (empty_heap (\<lambda>k. k = 3)) [Some ''a'', Some ''b''] = Ok (p, h') \<and> p = None
      \<and> cells h' = (\<lambda>_. None))"
  using entry_all_or_nothing [OF heap_ok_empty, of "\<lambda>k. k = 3" "[Some ''a'', Some ''b'']"]
  by (auto simp: wimp_get_entry_def halloc_def empty_heap_def load_argv_def abandon_entry_def
      split: option.splits)

text \<open>The decimal text of a port is written into the six bytes of a port string exactly when it
  has at most five characters, and then ends with NUL; every other number is written past the end of
  the buffer. The port that the library hands out fits, since it has sixteen bits, and so does
  the code returned when no port could be found.\<close>

lemma port_string_fits:
  assumes "- 2147483648 \<le> port" and "port < 2147483648"
  shows "wimp_port_to_string port =
      (if - 10000 < port \<and> port < 100000
       then Ok (WIMP_PROCESS_SUCCESS, print_signed port @ replicate (6 - length (print_signed port)) NUL)
       else Fault OutOfBounds)
    \<and> (0 \<le> snd bound_address \<and> snd bound_address < 65536 \<longrightarrow>
        (\<exists>buf. wimp_port_to_string (fst (wimp_assign_unused_local_port a s bound bound_address)) = Ok (WIMP_PROCESS_SUCCESS, buf)
          \<and> cstr_at buf 0 = Ok (print_signed (fst (wimp_assign_unused_local_port a s bound bound_address)))))"
proof -
  have fits: "\<exists>buf. wimp_port_to_string p = Ok (WIMP_PROCESS_SUCCESS, buf) \<and> cstr_at buf 0 = Ok (print_signed p)"
    if "- 1 \<le> p" "p < 65536" for p
  proof -
    have "length (print_signed p) < 6" using print_signed_short that by simp
    then have w: "wimp_port_to_string p = Ok (WIMP_PROCESS_SUCCESS, print_signed p @ NUL # replicate (5 - length (print_signed p)) NUL)"
      by (simp add: port_string_eq Suc_diff_le flip: replicate_Suc)
    have "cstr_at (print_signed p @ NUL # replicate (5 - length (print_signed p)) NUL) 0 = Ok (print_signed p)"
      using cstr_at_append [OF print_cstring(1), of "[]"] by simp
    then show ?thesis using w by auto
  qed
  have r: "- 1 \<le> fst (wimp_assign_unused_local_port a s bound bound_address)
      \<and> fst (wimp_assign_unused_local_port a s bound bound_address) < 65536"
    if "0 \<le> snd bound_address \<and> snd bound_address < 65536"
    using that by (auto simp: wimp_assign_unused_local_port_def process_consts split: option.split)
  show ?thesis using fits r print_signed_short [OF assms] by (auto simp: port_string_eq)
qed

lemma port_string_fits_witness:
  "wimp_port_to_string 100000 = Fault OutOfBounds
    \<and> (\<exists>buf. wimp_port_to_string (fst (wimp_assign_unused_local_port (Some 1) (Some 2) True (3, 8080))) = Ok (WIMP_PROCESS_SUCCESS, buf)
      \<and> cstr_at buf 0 = Ok (print_signed 8080))"
  using port_string_fits [of 100000 "(3, 8080)" "Some 1" "Some 2" True]
  by (simp add: wimp_assign_unused_local_port_def)

text \<open>Starting a program. When the program that runs lies in the directory \<open>dir\<close>, and an entry
  holds the arguments \<open>ss\<close>, the shell is given the path of the executable below \<open>dir\<close>, a space, and the
  arguments with a space between any two, unless there is no such file; the result code tells which.\<close>

lemma start_executable_command:
  assumes "dir \<noteq> []" and "cstring (dir @ ''/'' @ file)" and "length (dir @ ''/'' @ file) < 1024"
    and "\<forall>c \<in> set file. \<not> is_slash c" and "entry_holds h0 e v ss h"
  shows "wimp_start_executable_process (Some (dir @ ''/'' @ file)) exists popen h executable e =
    Ok (if exists (dir @ ''/'' @ executable) then
          (if popen (dir @ ''/'' @ executable @ '' '' @ joined ss) then WIMP_PROCESS_SUCCESS else WIMP_PROCESS_FAIL,
           Some (dir @ ''/'' @ executable @ '' '' @ joined ss))
        else (WIMP_PROCESS_INVALID_PATH, None))"
proof -
  obtain as where E: "length as = length ss" "entry_heap h0 e v (length ss) as ss h"
    using assms(5) by (auto simp: entry_holds_def)
  have m: "cells h e = Some (EntryBlock (Some v) (length ss))" "cells h v = Some (ArgvBlock (map Some as @ [None]))"
    "list_all2 (\<lambda>a s. cells h a = Some (StringBlock s)) as ss"
    using E by (auto simp: entry_heap_def)
  have a: "append_args h (Some v) 0 (length ss) path = Ok (path @ joined ss)" for path
    using m(2,3) E(1) append_args_eq [of h v "map Some as @ [None]" 0 as ss path] by (simp add: nth_append)
  have "path_buffer (dir @ ''/'') = [] @ (dir @ ''/'') @ NUL # replicate (1023 - length (dir @ ''/'')) NUL"
    using assms(3) by (simp add: path_buffer_def Suc_diff_Suc flip: replicate_Suc)
  then have c: "cstr_at (path_buffer (dir @ ''/'')) 0 = Ok (dir @ ''/'')"
    using cstr_at_append [of "dir @ ''/''" "[]"] assms(2) by simp
  show ?thesis
    unfolding wimp_start_executable_process_def executable_directory_of [OF assms(1-4)]
    using c m(1) a by (simp add: Let_def)
qed

lemma start_executable_command_witness:
  "\<exists>p h. wimp_get_entry (empty_heap (\<lambda>_. False)) [Some ''--port'', Some ''80''] = Ok (Some p, h)
    \<and> wimp_start_executable_process (Some ''/bin/main'') (\<lambda>_. True) (\<lambda>_. True) h ''child'' p =
        Ok (WIMP_PROCESS_SUCCESS, Some ''/bin/child --port 80'')"
proof -
  obtain e h v where g: "wimp_get_entry (empty_heap (\<lambda>_. False)) [Some ''--port'', Some ''80''] = Ok (Some e, h)"
    "entry_holds (empty_heap (\<lambda>_. False)) e v [''--port'', ''80''] h"
    using get_entry_eq [OF heap_ok_empty, of "\<lambda>_. False" "[Some ''--port'', Some ''80'']"]
    by (auto simp: empty_heap_def split: option.splits)
  have "wimp_start_executable_process (Some ''/bin/main'') (\<lambda>_. True) (\<lambda>_. True) h ''child'' e =
        Ok (WIMP_PROCESS_SUCCESS, Some ''/bin/child --port 80'')"
    using start_executable_command [OF _ _ _ _ g(2), of "''/bin''" "''main''"] by simp
  then show ?thesis using g(1) by blast
qed

text \<open>A sequence of calls, one caller after the other.\<close>

datatype library_call = CallInit | CallShutdown

fun run_library :: "library_call list \<Rightarrow> lib_state \<Rightarrow> lib_state outcome" where
  "run_library [] s = Ok s"
| "run_library (CallInit # cs) s = run_library cs (snd (wimp_init s))"
| "run_library (CallShutdown # cs) s = bnd (wimp_shutdown s) (run_library cs)"

text \<open>Whether the library is set up after a sequence of its calls, if they alternate.\<close>

fun library_up :: "bool \<Rightarrow> libsys_call list \<Rightarrow> bool option" where
  "library_up b [] = Some b"
| "library_up b (LibsysInit # cs) = (if b then None else library_up True cs)"
| "library_up b (LibsysShutdown # cs) = (if b then library_up False cs else None)"

fun users :: "library_call list \<Rightarrow> int" where
  "users [] = 0"
| "users (CallInit # cs) = users cs + 1"
| "users (CallShutdown # cs) = users cs - 1"

definition library_inv :: "lib_state \<Rightarrow> bool" where
  "library_inv s \<longleftrightarrow> 0 \<le> init_ref_counter s \<and> library_up False (libsys_calls s) = Some (0 < init_ref_counter s)"

lemma library_up_append: "library_up b (cs @ ds) = (case library_up b cs of None \<Rightarrow> None | Some b' \<Rightarrow> library_up b' ds)"
  by (induction b cs rule: library_up.induct) auto

lemma library_inv_init:
  "library_inv s \<Longrightarrow> library_inv (snd (wimp_init s)) \<and> init_ref_counter (snd (wimp_init s)) = init_ref_counter s + 1"
  by (auto simp: library_inv_def wimp_init_def Let_def library_up_append)

lemma library_inv_shutdown:
  assumes "library_inv s"
  shows "if init_ref_counter s = 0 then wimp_shutdown s = Fault AssertFailed
    else \<exists>s'. wimp_shutdown s = Ok s' \<and> library_inv s' \<and> init_ref_counter s' = init_ref_counter s - 1"
  using assms by (auto simp: library_inv_def wimp_shutdown_def Let_def library_up_append)

lemma run_library_eq:
  assumes "library_inv s"
  shows "if \<forall>k \<le> length cs. 0 \<le> init_ref_counter s + users (take k cs)
    then \<exists>s'. run_library cs s = Ok s' \<and> library_inv s' \<and> init_ref_counter s' = init_ref_counter s + users cs
    else run_library cs s = Fault AssertFailed"
  using assms
proof (induction cs arbitrary: s)
  case Nil
  then show ?case by (simp add: library_inv_def)
next
  case (Cons c cs)
  have nonneg: "0 \<le> init_ref_counter s" using Cons.prems by (simp add: library_inv_def)
  have all: "(\<forall>k \<le> length (c # cs). P (take k (c # cs))) \<longleftrightarrow> P [] \<and> (\<forall>k \<le> length cs. P (c # take k cs))" for P
    using All_less_Suc2 [of "Suc (length cs)" "\<lambda>k. P (take k (c # cs))"] by (simp add: less_Suc_eq_le)
  show ?case
  proof (cases c)
    case CallInit
    then show ?thesis unfolding all [of "\<lambda>xs. 0 \<le> init_ref_counter s + users xs"]
      using Cons.IH [of "snd (wimp_init s)"] library_inv_init [OF Cons.prems] nonneg
      by (simp add: ac_simps split: if_splits)
  next
    case c: CallShutdown
    show ?thesis
    proof (cases "init_ref_counter s = 0")
      case True
      then show ?thesis unfolding all [of "\<lambda>xs. 0 \<le> init_ref_counter s + users xs"]
        using library_inv_shutdown [OF Cons.prems] c by (auto dest: spec [of _ 0])
    next
      case False
      then obtain s' where s': "wimp_shutdown s = Ok s'" "library_inv s'" "init_ref_counter s' = init_ref_counter s - 1"
        using library_inv_shutdown [OF Cons.prems] by auto
      have s: "init_ref_counter s = init_ref_counter s' + 1" using s'(3) by simp
      show ?thesis unfolding all [of "\<lambda>xs. 0 \<le> init_ref_counter s + users xs"]
        using Cons.IH [OF s'(2)] s'(1,2) s c nonneg by simp
    qed
  qed
qed



end
