(* ===== verification/Sds.thy ===== *)
theory Sds
  imports Wimp_Digits
begin

section \<open>Dynamic strings (\<open>utility/sds.c\<close>)\<close>

text \<open>
  A dynamic string is a pointer to its characters; a header of one of five sizes in front of them
  keeps its length and the room that was allocated. Here a string is a heap block with the header's
  fields and the memory behind the header, and an \<open>sds\<close> is the address of its block. Growing a
  string may move it; the old address is then no longer allocated. The contents of fresh memory
  are written as NUL. This theory holds the operations on a single string.
\<close>

subsection \<open>Headers\<close>

definition SDS_TYPE_5 :: nat where "SDS_TYPE_5 = 0"
definition SDS_TYPE_8 :: nat where "SDS_TYPE_8 = 1"
definition SDS_TYPE_16 :: nat where "SDS_TYPE_16 = 2"
definition SDS_TYPE_32 :: nat where "SDS_TYPE_32 = 3"
definition SDS_TYPE_64 :: nat where "SDS_TYPE_64 = 4"
definition SDS_MAX_PREALLOC :: nat where "SDS_MAX_PREALLOC = 1024 * 1024"

lemmas sds_consts = SDS_TYPE_5_def SDS_TYPE_8_def SDS_TYPE_16_def SDS_TYPE_32_def SDS_TYPE_64_def SDS_MAX_PREALLOC_def

text \<open>The flags byte holds the type in its three low bits, and the length of a string of type 5 in the others.
  \<open>hlen\<close> and \<open>halloc\<close> are the fields of the other headers.\<close>

record sds_block =
  flags :: nat
  hlen :: nat
  halloc_field :: nat
  sbuf :: bytes

definition sds_type :: "sds_block \<Rightarrow> nat" where
  "sds_type s = flags s mod 8"

definition SDS_TYPE_5_LEN :: "nat \<Rightarrow> nat" where
  "SDS_TYPE_5_LEN f = f div 8"

definition sdsHdrSize :: "nat \<Rightarrow> nat" where
  "sdsHdrSize type =
     (let t = type mod 8 in
      if t = SDS_TYPE_5 then 1 else if t = SDS_TYPE_8 then 3 else if t = SDS_TYPE_16 then 5
      else if t = SDS_TYPE_32 then 9 else if t = SDS_TYPE_64 then 17 else 0)"

definition sdsReqType :: "nat \<Rightarrow> nat" where
  "sdsReqType string_size =
     (if string_size < 2 ^ 5 then SDS_TYPE_5
      else if string_size < 2 ^ 8 then SDS_TYPE_8
      else if string_size < 2 ^ 16 then SDS_TYPE_16
      else if string_size < 2 ^ 32 then SDS_TYPE_32
      else SDS_TYPE_64)"

text \<open>The width of the length fields.\<close>

definition len_bits :: "nat \<Rightarrow> nat" where
  "len_bits t = (if t = SDS_TYPE_8 then 8 else if t = SDS_TYPE_16 then 16 else if t = SDS_TYPE_32 then 32 else 64)"

definition sdslen :: "sds_block \<Rightarrow> nat" where
  "sdslen s =
     (if sds_type s = SDS_TYPE_5 then SDS_TYPE_5_LEN (flags s)
      else if sds_type s \<le> SDS_TYPE_64 then hlen s else 0)"

text \<open>The fields of 8 and 16 bits are subtracted as \<open>int\<close>, the wider ones at their own width.\<close>

definition sdsavail :: "sds_block \<Rightarrow> nat" where
  "sdsavail s =
     (if sds_type s = SDS_TYPE_5 then 0
      else if sds_type s = SDS_TYPE_32 then nat ((int (halloc_field s) - int (hlen s)) mod 2 ^ 32)
      else if sds_type s \<le> SDS_TYPE_64 then to_size (int (halloc_field s) - int (hlen s)) else 0)"

definition sdsalloc :: "sds_block \<Rightarrow> nat" where
  "sdsalloc s =
     (if sds_type s = SDS_TYPE_5 then SDS_TYPE_5_LEN (flags s)
      else if sds_type s \<le> SDS_TYPE_64 then halloc_field s else 0)"

definition sdssetlen :: "nat \<Rightarrow> sds_block \<Rightarrow> sds_block" where
  "sdssetlen newlen s =
     (if sds_type s = SDS_TYPE_5 then s\<lparr>flags := (SDS_TYPE_5 + newlen * 8) mod 256\<rparr>
      else if sds_type s \<le> SDS_TYPE_64 then s\<lparr>hlen := newlen mod 2 ^ len_bits (sds_type s)\<rparr> else s)"

definition sdsinclen :: "nat \<Rightarrow> sds_block \<Rightarrow> sds_block" where
  "sdsinclen inc s =
     (if sds_type s = SDS_TYPE_5
      then s\<lparr>flags := (SDS_TYPE_5 + ((SDS_TYPE_5_LEN (flags s) + inc) mod 256) * 8) mod 256\<rparr>
      else if sds_type s \<le> SDS_TYPE_64 then s\<lparr>hlen := (hlen s + inc) mod 2 ^ len_bits (sds_type s)\<rparr> else s)"

definition sdssetalloc :: "nat \<Rightarrow> sds_block \<Rightarrow> sds_block" where
  "sdssetalloc newlen s =
     (if sds_type s = SDS_TYPE_5 then s
      else if sds_type s \<le> SDS_TYPE_64 then s\<lparr>halloc_field := newlen mod 2 ^ len_bits (sds_type s)\<rparr> else s)"

definition sdsAllocSize :: "sds_block \<Rightarrow> nat" where
  "sdsAllocSize s = to_size (int (sdsHdrSize (flags s) + sdsalloc s + 1))"

subsection \<open>Blocks of the heap\<close>

text \<open>Strings, buffers of characters, and the arrays of strings that the splitting functions return.\<close>

datatype sds_cell =
    SdsBlock sds_block
  | CharBlock bytes
  | TokenBlock "addr option list"

fun as_sds :: "sds_cell \<Rightarrow> sds_block outcome" where
  "as_sds (SdsBlock s) = Ok s"
| "as_sds _ = Fault BadLibCall"

text \<open>A pointer to characters may point to a string or to a buffer.\<close>

fun as_chars :: "sds_cell \<Rightarrow> bytes outcome" where
  "as_chars (SdsBlock s) = Ok (sbuf s)"
| "as_chars (CharBlock b) = Ok b"
| "as_chars (TokenBlock _) = Fault BadLibCall"

fun as_tokens :: "sds_cell \<Rightarrow> addr option list outcome" where
  "as_tokens (TokenBlock ts) = Ok ts"
| "as_tokens _ = Fault BadLibCall"

definition load_sds :: "sds_cell heap \<Rightarrow> addr \<Rightarrow> sds_block outcome" where
  "load_sds h a = bnd (hload h a) as_sds"

definition store_sds :: "sds_cell heap \<Rightarrow> addr \<Rightarrow> sds_block \<Rightarrow> sds_cell heap outcome" where
  "store_sds h a s = hstore h a (SdsBlock s)"

definition update_sds :: "sds_cell heap \<Rightarrow> addr \<Rightarrow> (sds_block \<Rightarrow> sds_block) \<Rightarrow> sds_cell heap outcome" where
  "update_sds h a f = bnd (load_sds h a) (\<lambda>s. store_sds h a (f s))"

text \<open>Writing behind the header.\<close>

definition write_sds :: "sds_cell heap \<Rightarrow> addr \<Rightarrow> nat \<Rightarrow> bytes \<Rightarrow> sds_cell heap outcome" where
  "write_sds h a off bs =
     bnd (load_sds h a) (\<lambda>s.
     bnd (write_at (sbuf s) off bs) (\<lambda>b. store_sds h a (s\<lparr>sbuf := b\<rparr>)))"

text \<open>What a \<open>const void*\<close> argument points to: memory of the caller, or a block of the heap with characters.\<close>

datatype source = Bytes bytes | Chars addr

fun source_memory :: "sds_cell heap \<Rightarrow> source \<Rightarrow> bytes outcome" where
  "source_memory h (Bytes b) = Ok b"
| "source_memory h (Chars a) = bnd (hload h a) as_chars"

definition read_source :: "sds_cell heap \<Rightarrow> source \<Rightarrow> nat \<Rightarrow> bytes outcome" where
  "read_source h t n =
     bnd (source_memory h t) (\<lambda>b.
     bnd (guard_or OutOfBounds (n \<le> length b)) (\<lambda>_. Ok (take n b)))"

subsection \<open>Creating and freeing\<close>

datatype init_arg = NULL | SDS_NOINIT | Init source

text \<open>The header of a new string, whose length and allocation are the same.\<close>

definition new_header :: "nat \<Rightarrow> nat \<Rightarrow> bytes \<Rightarrow> sds_block" where
  "new_header type n b =
     (if type = SDS_TYPE_5 then \<lparr>flags = (type + n * 8) mod 256, hlen = 0, halloc_field = 0, sbuf = b\<rparr>
      else \<lparr>flags = type, hlen = n mod 2 ^ len_bits type, halloc_field = n mod 2 ^ len_bits type, sbuf = b\<rparr>)"

text \<open>The size given to \<open>malloc\<close> is a \<open>size_t\<close>; a header that does not fit into it is written out of bounds.\<close>

definition sdsnewlen :: "sds_cell heap \<Rightarrow> init_arg \<Rightarrow> nat \<Rightarrow> (addr option \<times> sds_cell heap) outcome" where
  "sdsnewlen h init initlen =
     (let type = sdsReqType initlen;
          type = (if type = SDS_TYPE_5 \<and> initlen = 0 then SDS_TYPE_8 else type);
          hdrlen = sdsHdrSize type;
          total = to_size (int (hdrlen + initlen + 1))
      in case halloc h (SdsBlock (new_header type initlen (replicate (total - hdrlen) NUL))) of
           (None, h) \<Rightarrow> Ok (None, h)
         | (Some s, h) \<Rightarrow>
             bnd (guard_or OutOfBounds (hdrlen \<le> total)) (\<lambda>_.
             bnd (case init of
                    Init t \<Rightarrow> if initlen > 0 then bnd (read_source h t initlen) (write_sds h s 0) else Ok h
                  | _ \<Rightarrow> Ok h) (\<lambda>h.
             bnd (write_sds h s initlen [NUL]) (\<lambda>h. Ok (Some s, h)))))"

definition sdsempty :: "sds_cell heap \<Rightarrow> (addr option \<times> sds_cell heap) outcome" where
  "sdsempty h = sdsnewlen h (Init (Bytes [NUL])) 0"

text \<open>A C string is a buffer with its terminator.\<close>

definition sdsnew :: "sds_cell heap \<Rightarrow> bytes option \<Rightarrow> (addr option \<times> sds_cell heap) outcome" where
  "sdsnew h init =
     (case init of
        None \<Rightarrow> sdsnewlen h NULL 0
      | Some b \<Rightarrow> bnd (cstr_at b 0) (\<lambda>s. sdsnewlen h (Init (Bytes b)) (length s)))"

definition sdsdup :: "sds_cell heap \<Rightarrow> addr \<Rightarrow> (addr option \<times> sds_cell heap) outcome" where
  "sdsdup h s = bnd (load_sds h s) (\<lambda>b. sdsnewlen h (Init (Chars s)) (sdslen b))"

definition sdsfree :: "sds_cell heap \<Rightarrow> addr option \<Rightarrow> sds_cell heap outcome" where
  "sdsfree h s = hfree h s"

subsection \<open>Room\<close>

text \<open>\<open>realloc\<close> of a string: the memory behind the header is cut or extended, at a new address.\<close>

definition realloc_sds :: "sds_cell heap \<Rightarrow> addr \<Rightarrow> nat \<Rightarrow> (addr option \<times> sds_cell heap) outcome" where
  "realloc_sds h a n =
     bnd (load_sds h a) (\<lambda>s.
     case halloc h (SdsBlock (s\<lparr>sbuf := take n (sbuf s @ replicate (n - length (sbuf s)) NUL)\<rparr>)) of
       (None, h) \<Rightarrow> Ok (None, h)
     | (Some a', h) \<Rightarrow> bnd (hfree h (Some a)) (\<lambda>h. Ok (Some a', h)))"

text \<open>A new block of another type with the characters and the terminator of the old one, which is freed.\<close>

definition move_sds :: "sds_cell heap \<Rightarrow> addr \<Rightarrow> nat \<Rightarrow> nat \<Rightarrow> nat \<Rightarrow> (addr option \<times> sds_cell heap) outcome" where
  "move_sds h a type n len =
     (case halloc h (SdsBlock \<lparr>flags = type, hlen = 0, halloc_field = 0, sbuf = replicate n NUL\<rparr>) of
        (None, h) \<Rightarrow> Ok (None, h)
      | (Some a', h) \<Rightarrow>
          bnd (read_source h (Chars a) (len + 1)) (\<lambda>bs.
          bnd (write_sds h a' 0 bs) (\<lambda>h.
          bnd (hfree h (Some a)) (\<lambda>h.
          bnd (update_sds h a' (sdssetlen len)) (\<lambda>h. Ok (Some a', h))))))"

definition sdsMakeRoomFor :: "sds_cell heap \<Rightarrow> addr \<Rightarrow> nat \<Rightarrow> (addr option \<times> sds_cell heap) outcome" where
  "sdsMakeRoomFor h a addlen =
     bnd (load_sds h a) (\<lambda>s.
     let avail = sdsavail s; oldtype = sds_type s in
     if avail \<ge> addlen then Ok (Some a, h)
     else
       let len = sdslen s;
           reqlen = to_size (int (len + addlen));
           newlen = (if reqlen < SDS_MAX_PREALLOC then reqlen * 2 else to_size (int (reqlen + SDS_MAX_PREALLOC)));
           type = sdsReqType newlen;
           type = (if type = SDS_TYPE_5 then SDS_TYPE_8 else type);
           hdrlen = sdsHdrSize type;
           total = to_size (int (hdrlen + newlen + 1))
       in bnd (guard_or AssertFailed (total > reqlen)) (\<lambda>_.
          bnd (guard_or OutOfBounds (hdrlen \<le> total)) (\<lambda>_.
          bnd (if oldtype = type then realloc_sds h a (total - hdrlen) else move_sds h a type (total - hdrlen) len) (\<lambda>(r, h).
          case r of
            None \<Rightarrow> Ok (None, h)
          | Some a \<Rightarrow> bnd (update_sds h a (sdssetalloc newlen)) (\<lambda>h. Ok (Some a, h))))))"

definition sdsRemoveFreeSpace :: "sds_cell heap \<Rightarrow> addr \<Rightarrow> (addr option \<times> sds_cell heap) outcome" where
  "sdsRemoveFreeSpace h a =
     bnd (load_sds h a) (\<lambda>s.
     let oldtype = sds_type s; len = sdslen s; avail = sdsavail s in
     if avail = 0 then Ok (Some a, h)
     else
       let type = sdsReqType len
       in bnd (if oldtype = type \<or> type > SDS_TYPE_8 then realloc_sds h a (len + 1)
               else move_sds h a type (len + 1) len) (\<lambda>(r, h).
          case r of
            None \<Rightarrow> Ok (None, h)
          | Some a \<Rightarrow> bnd (update_sds h a (sdssetalloc len)) (\<lambda>h. Ok (Some a, h))))"

subsection \<open>Changing the length\<close>

definition sdsupdatelen :: "sds_cell heap \<Rightarrow> addr \<Rightarrow> sds_cell heap outcome" where
  "sdsupdatelen h a =
     bnd (load_sds h a) (\<lambda>s.
     bnd (cstr_at (sbuf s) 0) (\<lambda>t. update_sds h a (sdssetlen (length t))))"

definition sdsclear :: "sds_cell heap \<Rightarrow> addr \<Rightarrow> sds_cell heap outcome" where
  "sdsclear h a = bnd (update_sds h a (sdssetlen 0)) (\<lambda>h. write_sds h a 0 [NUL])"

text \<open>The assertion of each type: a negative increment is negated at 32 bits, except for type 64. A positive one is
  cut to 32 bits for type 32.\<close>

definition incr_ok :: "sds_block \<Rightarrow> int \<Rightarrow> bool" where
  "incr_ok s incr =
     (let t = sds_type s; l = int (sdslen s); room = int (halloc_field s) - int (hlen s) in
      if t = SDS_TYPE_5 then (incr > 0 \<and> l + incr < 32) \<or> (incr < 0 \<and> l \<ge> (- incr) mod 2 ^ 32)
      else if t = SDS_TYPE_8 \<or> t = SDS_TYPE_16
      then (incr \<ge> 0 \<and> room \<ge> incr) \<or> (incr < 0 \<and> l \<ge> (- incr) mod 2 ^ 32)
      else if t = SDS_TYPE_32
      then (incr \<ge> 0 \<and> room mod 2 ^ 32 \<ge> incr mod 2 ^ 32) \<or> (incr < 0 \<and> l \<ge> (- incr) mod 2 ^ 32)
      else (incr \<ge> 0 \<and> room mod 2 ^ 64 \<ge> incr) \<or> (incr < 0 \<and> l \<ge> (- incr) mod 2 ^ 64))"

definition sdsIncrLen :: "sds_cell heap \<Rightarrow> addr \<Rightarrow> int \<Rightarrow> sds_cell heap outcome" where
  "sdsIncrLen h a incr =
     bnd (load_sds h a) (\<lambda>s.
     if sds_type s \<le> SDS_TYPE_64 then
       bnd (guard_or AssertFailed (incr_ok s incr)) (\<lambda>_.
       let newlen = to_size (int (sdslen s) + incr);
           t = sdssetlen newlen s;
           len = (if sds_type s = SDS_TYPE_5 then newlen else sdslen t)
       in bnd (store_sds h a t) (\<lambda>h. write_sds h a len [NUL]))
     else write_sds h a 0 [NUL])"

definition sdsgrowzero :: "sds_cell heap \<Rightarrow> addr \<Rightarrow> nat \<Rightarrow> (addr option \<times> sds_cell heap) outcome" where
  "sdsgrowzero h a len =
     bnd (load_sds h a) (\<lambda>s.
     let curlen = sdslen s in
     if len \<le> curlen then Ok (Some a, h)
     else
       bnd (sdsMakeRoomFor h a (len - curlen)) (\<lambda>(r, h).
       case r of
         None \<Rightarrow> Ok (None, h)
       | Some a \<Rightarrow>
           bnd (write_sds h a curlen (replicate (len - curlen + 1) NUL)) (\<lambda>h.
           bnd (update_sds h a (sdssetlen len)) (\<lambda>h. Ok (Some a, h)))))"

subsection \<open>Appending and copying\<close>

definition sdscatlen :: "sds_cell heap \<Rightarrow> addr \<Rightarrow> source \<Rightarrow> nat \<Rightarrow> (addr option \<times> sds_cell heap) outcome" where
  "sdscatlen h a t len =
     bnd (load_sds h a) (\<lambda>s.
     let curlen = sdslen s in
     bnd (sdsMakeRoomFor h a len) (\<lambda>(r, h).
     case r of
       None \<Rightarrow> Ok (None, h)
     | Some a \<Rightarrow>
         bnd (read_source h t len) (\<lambda>bs.
         bnd (write_sds h a curlen bs) (\<lambda>h.
         bnd (update_sds h a (sdssetlen (to_size (int (curlen + len))))) (\<lambda>h.
         bnd (write_sds h a (to_size (int (curlen + len))) [NUL]) (\<lambda>h. Ok (Some a, h)))))))"

definition sdscat :: "sds_cell heap \<Rightarrow> addr \<Rightarrow> bytes \<Rightarrow> (addr option \<times> sds_cell heap) outcome" where
  "sdscat h a t = bnd (cstr_at t 0) (\<lambda>s. sdscatlen h a (Bytes t) (length s))"

definition sdscatsds :: "sds_cell heap \<Rightarrow> addr \<Rightarrow> addr \<Rightarrow> (addr option \<times> sds_cell heap) outcome" where
  "sdscatsds h a t = bnd (load_sds h t) (\<lambda>b. sdscatlen h a (Chars t) (sdslen b))"

definition sdscpylen :: "sds_cell heap \<Rightarrow> addr \<Rightarrow> source \<Rightarrow> nat \<Rightarrow> (addr option \<times> sds_cell heap) outcome" where
  "sdscpylen h a t len =
     bnd (load_sds h a) (\<lambda>s.
     bnd (if sdsalloc s < len then sdsMakeRoomFor h a (to_size (int len - int (sdslen s))) else Ok (Some a, h)) (\<lambda>(r, h).
     case r of
       None \<Rightarrow> Ok (None, h)
     | Some a \<Rightarrow>
         bnd (read_source h t len) (\<lambda>bs.
         bnd (write_sds h a 0 bs) (\<lambda>h.
         bnd (write_sds h a len [NUL]) (\<lambda>h.
         bnd (update_sds h a (sdssetlen len)) (\<lambda>h. Ok (Some a, h)))))))"

definition sdscpy :: "sds_cell heap \<Rightarrow> addr \<Rightarrow> bytes \<Rightarrow> (addr option \<times> sds_cell heap) outcome" where
  "sdscpy h a t = bnd (cstr_at t 0) (\<lambda>s. sdscpylen h a (Bytes t) (length s))"

subsection \<open>Changing the characters\<close>

text \<open>\<open>strchr\<close> also finds the terminator.\<close>

definition in_cset :: "bytes \<Rightarrow> char \<Rightarrow> bool" where
  "in_cset cset c \<longleftrightarrow> c = NUL \<or> c \<in> set cset"

text \<open>The pointers \<open>sp\<close> and \<open>ep\<close> as offsets, \<open>ep\<close> one higher; \<open>cs\<close> is what is left of the string from \<open>sp\<close> on.\<close>

fun trim_start :: "bytes \<Rightarrow> bytes \<Rightarrow> nat \<Rightarrow> nat" where
  "trim_start cset [] sp = sp"
| "trim_start cset (c # cs) sp = (if in_cset cset c then trim_start cset cs (sp + 1) else sp)"

fun trim_end :: "bytes \<Rightarrow> bytes \<Rightarrow> nat \<Rightarrow> nat \<Rightarrow> nat" where
  "trim_end cset b sp 0 = 0"
| "trim_end cset b sp (Suc ep) = (if ep > sp \<and> in_cset cset (b ! ep) then trim_end cset b sp ep else Suc ep)"

definition sdstrim :: "sds_cell heap \<Rightarrow> addr \<Rightarrow> bytes \<Rightarrow> sds_cell heap outcome" where
  "sdstrim h a cset =
     bnd (load_sds h a) (\<lambda>s.
     let sp = trim_start cset (take (sdslen s) (sbuf s)) 0;
         ep = trim_end cset (sbuf s) sp (sdslen s);
         len = ep - sp
     in bnd (write_sds h a 0 (take len (drop sp (sbuf s)))) (\<lambda>h.
        bnd (write_sds h a len [NUL]) (\<lambda>h. update_sds h a (sdssetlen len))))"

definition to_ssize :: "int \<Rightarrow> int" where
  "to_ssize i = signed_take_bit 63 i"

definition sdsrange :: "sds_cell heap \<Rightarrow> addr \<Rightarrow> int \<Rightarrow> int \<Rightarrow> sds_cell heap outcome" where
  "sdsrange h a start end =
     bnd (load_sds h a) (\<lambda>s.
     let len = sdslen s in
     if len = 0 then Ok h
     else
       let start = (if start < 0 then max 0 (to_ssize (int len + start)) else start);
           end = (if end < 0 then max 0 (to_ssize (int len + end)) else end);
           newlen = (if start > end then 0 else to_size (end - start + 1));
           newlen = (if newlen \<noteq> 0 then
                       if start \<ge> to_ssize (int len) then 0
                       else if end \<ge> to_ssize (int len) then to_size (int len - 1 - start + 1) else newlen
                     else newlen)
       in bnd (if start \<noteq> 0 \<and> newlen \<noteq> 0 then
                 bnd (guard_or OutOfBounds (nat start + newlen \<le> length (sbuf s))) (\<lambda>_.
                 write_sds h a 0 (take newlen (drop (nat start) (sbuf s))))
               else Ok h) (\<lambda>h.
          bnd (write_sds h a newlen [NUL]) (\<lambda>h. update_sds h a (sdssetlen newlen))))"

text \<open>Upper and lower case in the C locale.\<close>

definition lower_char :: "char \<Rightarrow> char" where
  "lower_char c = (if 65 \<le> (of_char c :: nat) \<and> (of_char c :: nat) \<le> 90 then char_of ((of_char c :: nat) + 32) else c)"

definition upper_char :: "char \<Rightarrow> char" where
  "upper_char c = (if 97 \<le> (of_char c :: nat) \<and> (of_char c :: nat) \<le> 122 then char_of ((of_char c :: nat) - 32) else c)"

text \<open>A loop over the characters, each replaced by a function of itself.\<close>

fun map_chars :: "(char \<Rightarrow> char outcome) \<Rightarrow> bytes \<Rightarrow> bytes outcome" where
  "map_chars f [] = Ok []"
| "map_chars f (c # cs) = bnd (f c) (\<lambda>c. bnd (map_chars f cs) (\<lambda>cs. Ok (c # cs)))"

definition change_chars :: "sds_cell heap \<Rightarrow> addr \<Rightarrow> (char \<Rightarrow> char outcome) \<Rightarrow> sds_cell heap outcome" where
  "change_chars h a f =
     bnd (load_sds h a) (\<lambda>s.
     bnd (guard_or OutOfBounds (sdslen s \<le> length (sbuf s))) (\<lambda>_.
     bnd (map_chars f (take (sdslen s) (sbuf s))) (write_sds h a 0)))"

definition sdstolower :: "sds_cell heap \<Rightarrow> addr \<Rightarrow> sds_cell heap outcome" where
  "sdstolower h a = change_chars h a (\<lambda>c. Ok (lower_char c))"

definition sdstoupper :: "sds_cell heap \<Rightarrow> addr \<Rightarrow> sds_cell heap outcome" where
  "sdstoupper h a = change_chars h a (\<lambda>c. Ok (upper_char c))"

fun map_char :: "bytes \<Rightarrow> bytes \<Rightarrow> nat \<Rightarrow> nat \<Rightarrow> char \<Rightarrow> char outcome" where
  "map_char from to i 0 c = Ok c"
| "map_char from to i (Suc left) c =
     bnd (byte_at from i) (\<lambda>f. if c = f then byte_at to i else map_char from to (Suc i) left c)"

definition sdsmapchars :: "sds_cell heap \<Rightarrow> addr \<Rightarrow> bytes \<Rightarrow> bytes \<Rightarrow> nat \<Rightarrow> (addr option \<times> sds_cell heap) outcome" where
  "sdsmapchars h a from to setlen = bnd (change_chars h a (map_char from to 0 setlen)) (\<lambda>h. Ok (Some a, h))"

subsection \<open>Comparing\<close>

text \<open>Of \<open>memcmp\<close> only the sign is documented.\<close>

fun compare_bytes :: "bytes \<Rightarrow> bytes \<Rightarrow> int" where
  "compare_bytes (x # xs) (y # ys) =
     (if x = y then compare_bytes xs ys else if (of_char x :: nat) < of_char y then - 1 else 1)"
| "compare_bytes _ _ = 0"

definition sdscmp :: "sds_cell heap \<Rightarrow> addr \<Rightarrow> addr \<Rightarrow> int outcome" where
  "sdscmp h a b =
     bnd (load_sds h a) (\<lambda>s. bnd (load_sds h b) (\<lambda>t.
     let len = sdslen s; len' = sdslen t; minlen = (if len < len' then len else len') in
     bnd (guard_or OutOfBounds (minlen \<le> length (sbuf s) \<and> minlen \<le> length (sbuf t))) (\<lambda>_.
     let cmp = compare_bytes (take minlen (sbuf s)) (take minlen (sbuf t)) in
     Ok (if cmp = 0 then (if len > len' then 1 else if len < len' then - 1 else 0) else cmp))))"

end
