(* ===== verification/Sds_Spec.thy ===== *)
theory Sds_Spec
  imports Sds
begin

section \<open>Dynamic strings as strings\<close>

text \<open>
  The invariant of a string, the bytes that it stands for, and what each operation does to these bytes,
  to the block and to the rest of the heap.
\<close>

definition sds_wf :: "sds_block \<Rightarrow> bool" where
  "sds_wf s \<longleftrightarrow> sds_type s \<le> 4 \<and> sdslen s \<le> sdsalloc s \<and> sdsalloc s < length (sbuf s)
     \<and> (if sds_type s = 0 then flags s < 256 else halloc_field s < 2 ^ len_bits (sds_type s))"

text \<open>The bytes of a string may include NUL; one more NUL follows them.\<close>

definition sds_val :: "sds_block \<Rightarrow> bytes" where
  "sds_val s = take (sdslen s) (sbuf s)"

definition sds_ok :: "sds_block \<Rightarrow> bool" where
  "sds_ok s \<longleftrightarrow> sds_wf s \<and> sbuf s ! sdslen s = NUL"

lemma length_sds_val: "sds_wf s \<Longrightarrow> length (sds_val s) = sdslen s"
  by (simp add: sds_wf_def sds_val_def)

subsection \<open>Headers\<close>

lemma sds_type_cases: "sds_wf s \<Longrightarrow> sds_type s = 0 \<or> sds_type s = 1 \<or> sds_type s = 2 \<or> sds_type s = 3 \<or> sds_type s = 4"
  by (auto simp: sds_wf_def)

lemma sdsavail_eq:
  assumes "sds_wf s"
  shows "sdsavail s = sdsalloc s - sdslen s"
proof (cases "sds_type s = 0")
  case True
  then show ?thesis by (simp add: sdsavail_def sdsalloc_def sdslen_def sds_consts)
next
  case False
  have l: "sdslen s = hlen s" "sdsalloc s = halloc_field s" "hlen s \<le> halloc_field s" "halloc_field s < 2 ^ len_bits (sds_type s)"
    using assms False by (auto simp: sds_wf_def sdslen_def sdsalloc_def sds_consts)
  have d: "int (halloc_field s) - int (hlen s) = int (halloc_field s - hlen s)" using l(3) by simp
  have t: "sds_type s = 1 \<or> sds_type s = 2 \<or> sds_type s = 3 \<or> sds_type s = 4"
    using sds_type_cases [OF assms] False by blast
  then have b: "halloc_field s - hlen s < 2 ^ 64" using l(4) by (auto simp: len_bits_def sds_consts)
  show ?thesis
  proof (cases "sds_type s = 3")
    case True
    then have "halloc_field s - hlen s < 2 ^ 32" using l(4) by (simp add: len_bits_def sds_consts)
    then have "nat (int (halloc_field s - hlen s) mod 2 ^ 32) = halloc_field s - hlen s"
      by (simp add: nat_mod_distrib)
    then show ?thesis using True l(1,2) by (simp only: sdsavail_def d) (simp add: sds_consts)
  next
    case False
    then have "sdsavail s = to_size (int (halloc_field s - hlen s))"
      using t by (simp only: sdsavail_def d) (auto simp: sds_consts)
    also have "... = halloc_field s - hlen s" using b by (simp add: to_size_def nat_mod_distrib)
    finally show ?thesis using l(1,2) by simp
  qed
qed

lemma sdssetlen_fields [simp]:
  "sds_type (sdssetlen n s) = sds_type s" "sbuf (sdssetlen n s) = sbuf s"
  by (auto simp: sdssetlen_def sds_type_def sds_consts mod_mod_cancel)

lemma alloc_bounds:
  assumes "sds_wf s"
  shows "sds_type s = 0 \<Longrightarrow> sdsalloc s < 32" and "sds_type s \<noteq> 0 \<Longrightarrow> sdsalloc s < 2 ^ len_bits (sds_type s)"
  using assms by (auto simp: sds_wf_def sdsalloc_def SDS_TYPE_5_LEN_def sds_consts)

lemma sdssetlen_len:
  assumes "sds_wf s" and "n \<le> sdsalloc s"
  shows "sdslen (sdssetlen n s) = n" and "sdsalloc (sdssetlen n s) = (if sds_type s = 0 then n else sdsalloc s)"
    and "sds_wf (sdssetlen n s)"
proof -
  have l: "sdslen (sdssetlen n s) = n \<and> sdsalloc (sdssetlen n s) = (if sds_type s = 0 then n else sdsalloc s)
      \<and> (if sds_type s = 0 then flags (sdssetlen n s) < 256 else halloc_field (sdssetlen n s) < 2 ^ len_bits (sds_type s))"
  proof (cases "sds_type s = 0")
    case True
    then have "n < 32" using alloc_bounds(1) [OF assms(1)] assms(2) by simp
    then show ?thesis using True
      by (simp add: sdslen_def sdsalloc_def) (simp add: sdssetlen_def sds_consts SDS_TYPE_5_LEN_def)
  next
    case False
    then have "n < 2 ^ len_bits (sds_type s)" using alloc_bounds(2) [OF assms(1)] assms(2) by simp
    then show ?thesis using False assms(1)
      by (simp add: sdslen_def sdsalloc_def sds_wf_def sds_consts) (simp add: sdssetlen_def sds_consts)
  qed
  then show "sdslen (sdssetlen n s) = n" "sdsalloc (sdssetlen n s) = (if sds_type s = 0 then n else sdsalloc s)"
    by blast+
  show "sds_wf (sdssetlen n s)" using assms l by (auto simp: sds_wf_def)
qed

lemma sbuf_update [simp]:
  "sds_type (s\<lparr>sbuf := b\<rparr>) = sds_type s" "sdslen (s\<lparr>sbuf := b\<rparr>) = sdslen s" "sdsalloc (s\<lparr>sbuf := b\<rparr>) = sdsalloc s"
  "sdssetlen n (s\<lparr>sbuf := b\<rparr>) = (sdssetlen n s)\<lparr>sbuf := b\<rparr>"
  by (simp_all add: sds_type_def sdslen_def sdsalloc_def sdssetlen_def)

lemma sds_wf_sbuf [simp]: "length b = length (sbuf s) \<Longrightarrow> sds_wf (s\<lparr>sbuf := b\<rparr>) = sds_wf s"
  by (simp add: sds_wf_def)

subsection \<open>Working on one block\<close>

text \<open>The heap in which the string at \<open>a\<close> is \<open>s\<close>.\<close>

definition put :: "sds_cell heap \<Rightarrow> addr \<Rightarrow> sds_block \<Rightarrow> sds_cell heap" where
  "put h a s = h\<lparr>cells := (cells h)(a \<mapsto> SdsBlock s)\<rparr>"

lemma put_simps [simp]:
  "put (put h a s) a t = put h a t" "cells (put h a s) = (cells h)(a \<mapsto> SdsBlock s)"
  "fails (put h a s) = fails h" "calls (put h a s) = calls h"
  by (simp_all add: put_def)

lemma put_same: "cells h a = Some (SdsBlock s) \<Longrightarrow> put h a s = h"
  by (auto simp: put_def fun_upd_idem)

lemma load_put [simp]: "load_sds (put h a s) b = (if b = a then Ok s else load_sds h b)"
  by (simp add: load_sds_def hload_def)

lemma load_Some [simp]: "cells h a = Some (SdsBlock s) \<Longrightarrow> load_sds h a = Ok s"
  by (simp add: load_sds_def)

lemma store_put [simp]: "store_sds (put h a s) a t = Ok (put h a t)"
  by (simp add: store_sds_def put_def)

lemma update_put [simp]: "update_sds (put h a s) a f = Ok (put h a (f s))"
  by (simp add: update_sds_def)

lemma write_put [simp]:
  "off + length bs \<le> length (sbuf s) \<Longrightarrow>
    write_sds (put h a s) a off bs = Ok (put h a (s\<lparr>sbuf := take off (sbuf s) @ bs @ drop (off + length bs) (sbuf s)\<rparr>))"
  by (simp add: write_sds_def write_at_def)

lemma heap_ok_put: "heap_ok h \<Longrightarrow> cells h a \<noteq> None \<Longrightarrow> heap_ok (put h a s)"
  by (auto simp: heap_ok_def put_def)

text \<open>What an operation makes of the string at \<open>a\<close>: with memory available it returns the address of a string with the
  property \<open>P\<close>, at \<open>a\<close> or, with \<open>a\<close> freed, in a new block; otherwise it returns NULL and nothing has
  changed. No other block is touched.\<close>

definition moved :: "sds_cell heap \<Rightarrow> addr \<Rightarrow> sds_cell heap \<Rightarrow> addr \<Rightarrow> sds_block \<Rightarrow> bool" where
  "moved h a h' a' s \<longleftrightarrow> cells h' = ((cells h)(a := None))(a' \<mapsto> SdsBlock s) \<and> (a' = a \<or> cells h a' = None)
     \<and> heap_ok h' \<and> fails h' = fails h"

definition gives :: "sds_cell heap \<Rightarrow> addr \<Rightarrow> (sds_block \<Rightarrow> bool) \<Rightarrow> (addr option \<times> sds_cell heap) outcome \<Rightarrow> bool" where
  "gives h a P r \<longleftrightarrow>
     (\<exists>h'. r = Ok (None, h') \<and> cells h' = cells h \<and> heap_ok h' \<and> fails h' = fails h \<and> \<not> no_fail h)
     \<or> (\<exists>a' h' s. r = Ok (Some a', h') \<and> moved h a h' a' s \<and> P s)"

lemma moved_put: "moved h a h' a' s \<Longrightarrow> moved h a (put h' a' t) a' t"
  by (auto simp: moved_def heap_ok_def)

lemma gives_same: "cells h a = Some (SdsBlock s) \<Longrightarrow> heap_ok h \<Longrightarrow> P t \<Longrightarrow> gives h a P (Ok (Some a, put h a t))"
  by (auto simp: gives_def moved_def heap_ok_put)

lemma gives_mono: "gives h a P r \<Longrightarrow> (\<And>s. P s \<Longrightarrow> Q s) \<Longrightarrow> gives h a Q r"
  unfolding gives_def by blast

text \<open>A step that works in place on the result.\<close>

lemma gives_then:
  assumes "gives h a P r"
    and "\<And>a' h' s. P s \<Longrightarrow> moved h a h' a' s \<Longrightarrow> \<exists>t. f a' (put h' a' s) = Ok (Some a', put h' a' t) \<and> Q t"
  shows "gives h a Q (bnd r (\<lambda>(p, h). case p of None \<Rightarrow> Ok (None, h) | Some a' \<Rightarrow> f a' h))"
  using assms(1) unfolding gives_def
proof (elim disjE exE conjE)
  fix a' h' s assume r: "r = Ok (Some a', h')" and m: "moved h a h' a' s" and P: "P s"
  have "put h' a' s = h'" using m by (intro put_same) (simp add: moved_def)
  then obtain t where "f a' h' = Ok (Some a', put h' a' t)" "Q t" using assms(2) [OF P m] by auto
  then show "(\<exists>h'. bnd r (\<lambda>(p, h). case p of None \<Rightarrow> Ok (None, h) | Some a' \<Rightarrow> f a' h) = Ok (None, h')
        \<and> cells h' = cells h \<and> heap_ok h' \<and> fails h' = fails h \<and> \<not> no_fail h)
      \<or> (\<exists>a' h' s. bnd r (\<lambda>(p, h). case p of None \<Rightarrow> Ok (None, h) | Some a' \<Rightarrow> f a' h) = Ok (Some a', h') \<and> moved h a h' a' s \<and> Q s)"
    using r moved_put [OF m] by auto
qed auto

lemma to_size_int: "n < 2 ^ 64 \<Longrightarrow> to_size (int n) = n"
  by (simp add: to_size_def nat_mod_distrib)

subsection \<open>Making room\<close>

lemma sdsReqType_bounds:
  "n < 2 ^ len_bits (if sdsReqType n = 0 then 1 else sdsReqType n)" if "n < 2 ^ 64"
  using that by (auto simp: sdsReqType_def len_bits_def sds_consts)

lemma sdsReqType_le: "sdsReqType n \<le> 4"
  by (simp add: sdsReqType_def sds_consts)

lemma realloc_gives:
  assumes "cells h a = Some (SdsBlock s)" and "heap_ok h"
  shows "gives h a (\<lambda>t. t = s\<lparr>sbuf := take n (sbuf s @ replicate (n - length (sbuf s)) NUL)\<rparr>) (realloc_sds h a n)"
proof -
  have a: "a < calls h" using assms by (auto simp: heap_ok_def)
  then have "calls h \<noteq> a" by simp
  moreover have "cells h (calls h) = None" using assms(2) by (rule heap_ok_fresh)
  ultimately show ?thesis
    using assms by (auto simp: realloc_sds_def halloc_def gives_def no_fail_def moved_def hfree_def fun_upd_twist heap_ok_def less_Suc_eq)
qed

lemma move_gives:
  assumes "cells h a = Some (SdsBlock s)" and "heap_ok h" and "len < length (sbuf s)" and "len < n"
  shows "gives h a (\<lambda>t. t = sdssetlen len \<lparr>flags = type, hlen = 0, halloc_field = 0,
      sbuf = take (len + 1) (sbuf s) @ replicate (n - (len + 1)) NUL\<rparr>) (move_sds h a type n len)"
proof (cases "fails h (calls h)")
  case True
  then show ?thesis using assms by (auto simp: move_sds_def halloc_def gives_def no_fail_def heap_ok_def less_Suc_eq)
next
  case False
  let ?a = "calls h" and ?e = "\<lparr>flags = type, hlen = 0, halloc_field = 0, sbuf = replicate n NUL\<rparr>"
  let ?h = "put (h\<lparr>calls := Suc (calls h)\<rparr>) ?a ?e"
  let ?b = "take (len + 1) (sbuf s) @ replicate (n - (len + 1)) NUL"
  let ?g = "put (h\<lparr>calls := Suc (calls h)\<rparr>) ?a (?e\<lparr>sbuf := ?b\<rparr>)"
  have ne: "a \<noteq> ?a" using assms(1,2) by (auto simp: heap_ok_def)
  have al: "halloc h (SdsBlock ?e) = (Some ?a, ?h)" using False by (simp add: halloc_def put_def)
  have rd: "read_source ?h (Chars a) (len + 1) = Ok (take (len + 1) (sbuf s))"
    using assms(1,3) ne by (simp add: read_source_def load_sds_def hload_def)
  have wr: "write_sds ?h ?a 0 (take (len + 1) (sbuf s)) = Ok ?g"
  proof -
    have "length (take (len + 1) (sbuf s)) = len + 1" using assms(3) by simp
    then show ?thesis using assms(4) by (simp del: length_take)
  qed
  have fr: "hfree ?g (Some a) = Ok (put ((h\<lparr>calls := Suc (calls h)\<rparr>)\<lparr>cells := (cells h)(a := None)\<rparr>) ?a (?e\<lparr>sbuf := ?b\<rparr>))"
    using assms(1) ne by (auto simp: hfree_def put_def fun_upd_twist)
  have "move_sds h a type n len =
      Ok (Some ?a, put ((h\<lparr>calls := Suc (calls h)\<rparr>)\<lparr>cells := (cells h)(a := None)\<rparr>) ?a (sdssetlen len (?e\<lparr>sbuf := ?b\<rparr>)))"
    unfolding move_sds_def al prod.case option.case rd bnd.simps wr fr update_put ..
  moreover have "heap_ok (put ((h\<lparr>calls := Suc (calls h)\<rparr>)\<lparr>cells := (cells h)(a := None)\<rparr>) ?a (sdssetlen len (?e\<lparr>sbuf := ?b\<rparr>)))"
    using assms(2) by (auto simp: heap_ok_def less_Suc_eq)
  ultimately show ?thesis using heap_ok_fresh [OF assms(2)] unfolding gives_def moved_def by auto
qed

lemma sdssetalloc_wf:
  assumes "sds_type s \<noteq> 0" "sds_type s \<le> 4" and "sdslen s \<le> n" "n < 2 ^ len_bits (sds_type s)" "n < length (sbuf s)"
  shows "sds_wf (sdssetalloc n s)" "sdslen (sdssetalloc n s) = sdslen s" "sdsalloc (sdssetalloc n s) = n"
    "sbuf (sdssetalloc n s) = sbuf s"
proof -
  have f: "sdssetalloc n s = s\<lparr>halloc_field := n\<rparr>"
    using assms(1,2,4) by (simp add: sdssetalloc_def sds_consts)
  have t: "sds_type (s\<lparr>halloc_field := n\<rparr>) = sds_type s" by (simp add: sds_type_def)
  show l: "sdslen (sdssetalloc n s) = sdslen s" "sdsalloc (sdssetalloc n s) = n" "sbuf (sdssetalloc n s) = sbuf s"
    using assms(1,2) by (simp_all add: f t sdslen_def sdsalloc_def sds_consts)
  show "sds_wf (sdssetalloc n s)"
    using assms l by (simp add: sds_wf_def f t)
qed

text \<open>The same characters with room for \<open>n\<close> more.\<close>

definition roomy :: "sds_block \<Rightarrow> nat \<Rightarrow> sds_block \<Rightarrow> bool" where
  "roomy s n t \<longleftrightarrow> sds_wf t \<and> sdslen t = sdslen s \<and> take (sdslen s + 1) (sbuf t) = take (sdslen s + 1) (sbuf s)
     \<and> sdslen s + n \<le> sdsalloc t"

lemma roomyI:
  assumes "sds_type t \<noteq> 0" "sds_type t \<le> 4" and "sdslen t = sdslen s"
    and "sdslen s + n \<le> m" "m < 2 ^ len_bits (sds_type t)" "m < length (sbuf t)"
    and "take (sdslen s + 1) (sbuf t) = take (sdslen s + 1) (sbuf s)"
  shows "roomy s n (sdssetalloc m t)"
  using sdssetalloc_wf [of t m] assms by (simp add: roomy_def)

lemma sdslen_setlen:
  assumes "sds_type s \<noteq> 0" "sds_type s \<le> 4" "n < 2 ^ len_bits (sds_type s)"
  shows "sdslen (sdssetlen n s) = n"
  using assms by (simp add: sdslen_def sds_consts) (simp add: sdssetlen_def sds_consts)

lemma take_extend: "k \<le> n \<Longrightarrow> k \<le> length b \<Longrightarrow> take k (take n (b @ c)) = take k b"
  by (simp add: min_def)

lemma make_room:
  assumes "cells h a = Some (SdsBlock s)" and "sds_wf s" and "heap_ok h" and "sdslen s + n < 2 ^ 62"
  shows "gives h a (roomy s n) (sdsMakeRoomFor h a n)"
proof (cases "n \<le> sdsavail s")
  case True
  then have "roomy s n s" using assms(2) by (auto simp: roomy_def sdsavail_eq sds_wf_def)
  then have "gives h a (roomy s n) (Ok (Some a, put h a s))" by (rule gives_same [OF assms(1,3)])
  then show ?thesis using True assms(1) by (simp add: sdsMakeRoomFor_def put_same)
next
  case False
  define req where "req = sdslen s + n"
  define new where "new = (if req < SDS_MAX_PREALLOC then req * 2 else req + SDS_MAX_PREALLOC)"
  define type where "type = (if sdsReqType new = 0 then 1 else sdsReqType new)"
  have rb: "req < 4611686018427387904" using assms(4) by (simp add: req_def)
  have r: "to_size (int (sdslen s + n)) = req" using rb by (simp add: req_def to_size_def nat_mod_distrib)
  have nb: "req \<le> new" "new < 9223372036854775808" using rb by (auto simp: new_def sds_consts)
  have nw: "(if req < SDS_MAX_PREALLOC then req * 2 else to_size (int (req + SDS_MAX_PREALLOC))) = new"
    using rb to_size_int [of "req + SDS_MAX_PREALLOC"] by (simp add: new_def sds_consts)
  have t4: "type \<noteq> 0" "type \<le> 4" "type mod 8 = type" using sdsReqType_le [of new] by (auto simp: type_def)
  have tb: "new < 2 ^ len_bits type" using sdsReqType_bounds [of new] nb(2) by (auto simp: type_def)
  have hd: "sdsHdrSize type \<le> 17" by (simp add: sdsHdrSize_def Let_def)
  then have tot: "to_size (int (sdsHdrSize type + new + 1)) = sdsHdrSize type + new + 1"
    using nb(2) by (simp add: to_size_def nat_mod_distrib)
  have len: "sdslen s \<le> new" "sdslen s < length (sbuf s)" using nb(1) assms(2) by (auto simp: req_def sds_wf_def)
  let ?f = "\<lambda>a' h'. bnd (update_sds h' a' (sdssetalloc new)) (\<lambda>h'. Ok (Some a', h'))"
  let ?r = "if sds_type s = type then realloc_sds h a (new + 1) else move_sds h a type (new + 1) (sdslen s)"
  have e: "sdsMakeRoomFor h a n = bnd ?r (\<lambda>(p, h'). case p of None \<Rightarrow> Ok (None, h') | Some a' \<Rightarrow> ?f a' h')"
  proof -
    have ty: "(if sdsReqType new = SDS_TYPE_5 then SDS_TYPE_8 else sdsReqType new) = type"
      by (simp add: type_def sds_consts)
    have g: "guard_or AssertFailed (req < sdsHdrSize type + new + 1) = Ok ()"
      "guard_or OutOfBounds (sdsHdrSize type \<le> sdsHdrSize type + new + 1) = Ok ()" using nb(1) by simp_all
    have d: "sdsHdrSize type + new + 1 - sdsHdrSize type = new + 1" by simp
    show ?thesis
      unfolding sdsMakeRoomFor_def load_Some [OF assms(1)] bnd.simps Let_def r nw ty tot g d if_not_P [OF False] ..
  qed
  have "gives h a (\<lambda>t. roomy s n (sdssetalloc new t)) ?r"
  proof (cases "sds_type s = type")
    case True
    let ?b = "take (new + 1) (sbuf s @ replicate (new + 1 - length (sbuf s)) NUL)"
    have "roomy s n (sdssetalloc new (s\<lparr>sbuf := ?b\<rparr>))"
      using True t4 tb nb(1) len by (intro roomyI) (auto simp: req_def take_extend)
    then show ?thesis using True realloc_gives [OF assms(1,3), of "new + 1"] by (auto elim: gives_mono)
  next
    case ne: False
    let ?b = "take (sdslen s + 1) (sbuf s) @ replicate (new + 1 - (sdslen s + 1)) NUL"
    let ?t = "\<lparr>flags = type, hlen = 0, halloc_field = 0, sbuf = ?b\<rparr>"
    have ty: "sds_type ?t = type" using t4(3) by (simp add: sds_type_def)
    have "roomy s n (sdssetalloc new (sdssetlen (sdslen s) ?t))"
      using ty t4 tb nb(1) len by (intro roomyI) (simp_all add: sdslen_setlen req_def)
    then show ?thesis
      using ne move_gives [OF assms(1,3) len(2), of "new + 1" type] len(1) by (auto elim: gives_mono)
  qed
  then show ?thesis unfolding e
    by (rule gives_then) auto
qed

subsection \<open>Reading a source\<close>

text \<open>The source \<open>t\<close> holds the bytes \<open>bs\<close>, and is not the string at \<open>a\<close> itself.\<close>

fun reads :: "sds_cell heap \<Rightarrow> addr \<Rightarrow> source \<Rightarrow> bytes \<Rightarrow> bool" where
  "reads h a (Bytes b) bs \<longleftrightarrow> (\<exists>rest. b = bs @ rest)"
| "reads h a (Chars c) bs \<longleftrightarrow> c \<noteq> a \<and> (\<exists>x rest. cells h c = Some x \<and> as_chars x = Ok (bs @ rest))"

lemma reads_moved:
  assumes "reads h a t bs" and "moved h a h' a' s"
  shows "read_source (put h' a' x) t (length bs) = Ok bs"
proof (cases t)
  case (Chars c)
  then obtain u rest where u: "c \<noteq> a" "cells h c = Some u" "as_chars u = Ok (bs @ rest)" using assms(1) by auto
  then have "c \<noteq> a'" "cells h' c = Some u" using assms(2) by (auto simp: moved_def)
  then show ?thesis using u(3) Chars by (simp add: read_source_def)
qed (use assms(1) in \<open>auto simp: read_source_def\<close>)

subsection \<open>Appending and copying\<close>

text \<open>A string whose characters are \<open>bs\<close>.\<close>

definition is_str :: "bytes \<Rightarrow> sds_block \<Rightarrow> bool" where
  "is_str bs s \<longleftrightarrow> sds_ok s \<and> sds_val s = bs"

lemma is_strI:
  assumes "sds_wf s" and "length bs \<le> sdsalloc s" and "length b = length (sbuf s)"
    and "take (length bs) b = bs" "b ! length bs = NUL"
  shows "is_str bs ((sdssetlen (length bs) s)\<lparr>sbuf := b\<rparr>)"
  using assms sdssetlen_len [OF assms(1,2)]
  by (simp add: is_str_def sds_ok_def sds_val_def)

lemma catlen_gives:
  assumes "cells h a = Some (SdsBlock s)" and "sds_wf s" and "heap_ok h" and "sdslen s + length bs < 2 ^ 62"
    and "reads h a t bs"
  shows "gives h a (is_str (sds_val s @ bs)) (sdscatlen h a t (length bs))"
proof -
  have n: "to_size (int (sdslen s + length bs)) = sdslen s + length bs"
    using assms(4) by (intro to_size_int) simp
  have "gives h a (is_str (sds_val s @ bs))
    (bnd (sdsMakeRoomFor h a (length bs)) (\<lambda>(p, h). case p of None \<Rightarrow> Ok (None, h) | Some a \<Rightarrow>
       bnd (read_source h t (length bs)) (\<lambda>bs'.
       bnd (write_sds h a (sdslen s) bs') (\<lambda>h.
       bnd (update_sds h a (sdssetlen (sdslen s + length bs))) (\<lambda>h.
       bnd (write_sds h a (sdslen s + length bs) [NUL]) (\<lambda>h. Ok (Some a, h)))))))"
  proof (rule gives_then [OF make_room [OF assms(1-4)]])
    fix a' h' u assume r: "roomy s (length bs) u" and m: "moved h a h' a' u"
    let ?n = "sdslen s + length bs"
    let ?b = "take (sdslen s) (sbuf u) @ bs @ drop ?n (sbuf u)"
    let ?c = "take ?n ?b @ [NUL] @ drop (?n + 1) ?b"
    have l: "?n < length (sbuf u)" "?n \<le> sdsalloc u" "sds_wf u" using r by (auto simp: roomy_def sds_wf_def)
    have v: "take (sdslen s) (sbuf u) = sds_val s"
      using r by (auto simp: roomy_def sds_val_def take_Suc_conv_app_nth dest: arg_cong [of _ _ "take (sdslen s)"])
    have lv: "length (sds_val s) = sdslen s" using assms(2) by (rule length_sds_val)
    have w: "write_sds (put h' a' u) a' (sdslen s) bs = Ok (put h' a' (u\<lparr>sbuf := ?b\<rparr>))" using l by simp
    have lb: "length ?b = length (sbuf u)" using l by simp
    have w2: "write_sds (put h' a' ((sdssetlen ?n u)\<lparr>sbuf := ?b\<rparr>)) a' ?n [NUL] = Ok (put h' a' ((sdssetlen ?n u)\<lparr>sbuf := ?c\<rparr>))"
      using l lb by simp
    have "is_str (sds_val s @ bs) ((sdssetlen (length (sds_val s @ bs)) u)\<lparr>sbuf := ?c\<rparr>)"
      using l lv by (intro is_strI) (simp_all add: v nth_append)
    then have "is_str (sds_val s @ bs) ((sdssetlen ?n u)\<lparr>sbuf := ?c\<rparr>)" using lv by simp
    moreover have "bnd (read_source (put h' a' u) t (length bs)) (\<lambda>bs'.
       bnd (write_sds (put h' a' u) a' (sdslen s) bs') (\<lambda>h.
       bnd (update_sds h a' (sdssetlen ?n)) (\<lambda>h.
       bnd (write_sds h a' ?n [NUL]) (\<lambda>h. Ok (Some a', h))))) = Ok (Some a', put h' a' ((sdssetlen ?n u)\<lparr>sbuf := ?c\<rparr>))"
      unfolding reads_moved [OF assms(5) m] bnd.simps w update_put sbuf_update w2 ..
    ultimately show "\<exists>t'. bnd (read_source (put h' a' u) t (length bs)) (\<lambda>bs'.
       bnd (write_sds (put h' a' u) a' (sdslen s) bs') (\<lambda>h.
       bnd (update_sds h a' (sdssetlen ?n)) (\<lambda>h.
       bnd (write_sds h a' ?n [NUL]) (\<lambda>h. Ok (Some a', h))))) = Ok (Some a', put h' a' t') \<and> is_str (sds_val s @ bs) t'"
      by blast
  qed
  then show ?thesis unfolding sdscatlen_def load_Some [OF assms(1)] bnd.simps Let_def n .
qed

lemma cpylen_gives:
  assumes "cells h a = Some (SdsBlock s)" and "sds_wf s" and "heap_ok h" and "length bs < 2 ^ 62"
    and "reads h a t bs"
  shows "gives h a (is_str bs) (sdscpylen h a t (length bs))"
proof -
  let ?P = "\<lambda>u. sds_wf u \<and> length bs \<le> sdsalloc u"
  let ?r = "if sdsalloc s < length bs then sdsMakeRoomFor h a (to_size (int (length bs) - int (sdslen s))) else Ok (Some a, h)"
  have room: "gives h a ?P ?r"
  proof (cases "sdsalloc s < length bs")
    case True
    then have l: "sdslen s \<le> length bs" using assms(2) by (simp add: sds_wf_def)
    then have n: "to_size (int (length bs) - int (sdslen s)) = length bs - sdslen s"
      using assms(4) to_size_int [of "length bs - sdslen s"] by (simp add: of_nat_diff)
    have "gives h a (roomy s (length bs - sdslen s)) (sdsMakeRoomFor h a (length bs - sdslen s))"
      using assms(1-4) l by (intro make_room) simp_all
    then show ?thesis using True l unfolding n by (auto simp: roomy_def elim: gives_mono)
  next
    case False
    then have "gives h a ?P (Ok (Some a, put h a s))" using assms(1-3) by (intro gives_same) simp_all
    then show ?thesis using False by (simp add: put_same [OF assms(1)])
  qed
  have "gives h a (is_str bs)
    (bnd ?r (\<lambda>(p, h). case p of None \<Rightarrow> Ok (None, h) | Some a \<Rightarrow>
       bnd (read_source h t (length bs)) (\<lambda>bs'.
       bnd (write_sds h a 0 bs') (\<lambda>h.
       bnd (write_sds h a (length bs) [NUL]) (\<lambda>h.
       bnd (update_sds h a (sdssetlen (length bs))) (\<lambda>h. Ok (Some a, h)))))))"
  proof (rule gives_then [OF room])
    fix a' h' u assume r: "?P u" and m: "moved h a h' a' u"
    let ?b = "bs @ drop (length bs) (sbuf u)"
    let ?c = "take (length bs) ?b @ [NUL] @ drop (length bs + 1) ?b"
    have l: "length bs < length (sbuf u)" using r by (auto simp: sds_wf_def)
    have w: "write_sds (put h' a' u) a' 0 bs = Ok (put h' a' (u\<lparr>sbuf := ?b\<rparr>))" using l by simp
    have w2: "write_sds (put h' a' (u\<lparr>sbuf := ?b\<rparr>)) a' (length bs) [NUL] = Ok (put h' a' (u\<lparr>sbuf := ?c\<rparr>))"
      using l by simp
    have "is_str bs ((sdssetlen (length bs) u)\<lparr>sbuf := ?c\<rparr>)"
      using l r by (intro is_strI) (simp_all add: nth_append)
    then show "\<exists>t'. bnd (read_source (put h' a' u) t (length bs)) (\<lambda>bs'.
       bnd (write_sds (put h' a' u) a' 0 bs') (\<lambda>h.
       bnd (write_sds h a' (length bs) [NUL]) (\<lambda>h.
       bnd (update_sds h a' (sdssetlen (length bs))) (\<lambda>h. Ok (Some a', h))))) = Ok (Some a', put h' a' t') \<and> is_str bs t'"
      unfolding reads_moved [OF assms(5) m] bnd.simps w w2 update_put sbuf_update by blast
  qed
  then show ?thesis unfolding sdscpylen_def load_Some [OF assms(1)] bnd.simps .
qed

lemma growzero_gives:
  assumes "cells h a = Some (SdsBlock s)" and "sds_ok s" and "heap_ok h" and "n < 2 ^ 62"
  shows "gives h a (is_str (sds_val s @ replicate (n - sdslen s) NUL)) (sdsgrowzero h a n)"
proof (cases "n \<le> sdslen s")
  case True
  then have "is_str (sds_val s @ replicate (n - sdslen s) NUL) s" using assms(2) by (simp add: is_str_def)
  then have "gives h a (is_str (sds_val s @ replicate (n - sdslen s) NUL)) (Ok (Some a, put h a s))"
    by (rule gives_same [OF assms(1,3)])
  then show ?thesis using True assms(1) by (simp add: sdsgrowzero_def put_same)
next
  case False
  have wf: "sds_wf s" using assms(2) by (simp add: sds_ok_def)
  let ?w = "sds_val s @ replicate (n - sdslen s) NUL" and ?z = "replicate (n - sdslen s + 1) NUL"
  have lw: "length ?w = n" using False length_sds_val [OF wf] by simp
  have "gives h a (is_str ?w)
    (bnd (sdsMakeRoomFor h a (n - sdslen s)) (\<lambda>(p, h). case p of None \<Rightarrow> Ok (None, h) | Some a \<Rightarrow>
       bnd (write_sds h a (sdslen s) ?z) (\<lambda>h.
       bnd (update_sds h a (sdssetlen n)) (\<lambda>h. Ok (Some a, h)))))"
  proof (rule gives_then [OF make_room [OF assms(1) wf assms(3)]])
    show "sdslen s + (n - sdslen s) < 2 ^ 62" using False assms(4) by simp
    fix a' h' u assume r: "roomy s (n - sdslen s) u" and m: "moved h a h' a' u"
    let ?b = "take (sdslen s) (sbuf u) @ ?z @ drop (sdslen s + length ?z) (sbuf u)"
    have l: "n < length (sbuf u)" "n \<le> sdsalloc u" "sds_wf u" using r False by (auto simp: roomy_def sds_wf_def)
    have v: "take (sdslen s) (sbuf u) = sds_val s"
      using r by (auto simp: roomy_def sds_val_def take_Suc_conv_app_nth dest: arg_cong [of _ _ "take (sdslen s)"])
    have "?z = replicate (n - sdslen s) NUL @ [NUL]" by (simp add: replicate_append_same)
    then have b: "?b = ?w @ NUL # drop (sdslen s + length ?z) (sbuf u)" by (simp add: v)
    have "length ?b = length (sbuf u)" using l False by simp
    then have "is_str ?w ((sdssetlen (length ?w) u)\<lparr>sbuf := ?b\<rparr>)"
      using l lw unfolding b by (intro is_strI [OF l(3) _ _ _ nth_append_length]) simp_all
    moreover have "write_sds (put h' a' u) a' (sdslen s) ?z = Ok (put h' a' (u\<lparr>sbuf := ?b\<rparr>))"
      using l False by (intro write_put) simp
    ultimately show "\<exists>t. bnd (write_sds (put h' a' u) a' (sdslen s) ?z) (\<lambda>h.
       bnd (update_sds h a' (sdssetlen n)) (\<lambda>h. Ok (Some a', h))) = Ok (Some a', put h' a' t) \<and> is_str ?w t"
      using lw by (auto simp del: write_put)
  qed
  then show ?thesis
    unfolding sdsgrowzero_def load_Some [OF assms(1)] bnd.simps Let_def if_not_P [OF False] .
qed

lemma remove_free_gives:
  assumes "cells h a = Some (SdsBlock s)" and "sds_ok s" and "heap_ok h"
  shows "gives h a (is_str (sds_val s)) (sdsRemoveFreeSpace h a)"
proof (cases "sdsavail s = 0")
  case True
  have "is_str (sds_val s) s" using assms(2) by (simp add: is_str_def)
  then have "gives h a (is_str (sds_val s)) (Ok (Some a, put h a s))"
    by (rule gives_same [OF assms(1,3)])
  then show ?thesis using True assms(1) by (simp add: sdsRemoveFreeSpace_def put_same)
next
  case False
  have wf: "sds_wf s" "sbuf s ! sdslen s = NUL" using assms(2) by (auto simp: sds_ok_def)
  have ty0: "sds_type s \<noteq> 0" using False by (intro notI) (simp add: sdsavail_def sds_consts)
  then have t0: "sds_type s \<noteq> 0" "sds_type s \<le> 4" "sdslen s < length (sbuf s)" "sdslen s \<le> sdsalloc s"
    using wf(1) by (auto simp: sds_wf_def)
  then have lb: "sdslen s < 2 ^ len_bits (sds_type s)" using alloc_bounds(2) [OF wf(1)] by simp
  define type where "type = sdsReqType (sdslen s)"
  let ?Q = "\<lambda>t. is_str (sds_val s) (sdssetalloc (sdslen s) t)"
  let ?r = "if sds_type s = type \<or> type > SDS_TYPE_8 then realloc_sds h a (sdslen s + 1)
     else move_sds h a type (sdslen s + 1) (sdslen s)"
  have "gives h a ?Q ?r"
  proof (cases "sds_type s = type \<or> type > SDS_TYPE_8")
    case True
    let ?b = "take (sdslen s + 1) (sbuf s @ replicate (sdslen s + 1 - length (sbuf s)) NUL)"
    have "?Q (s\<lparr>sbuf := ?b\<rparr>)"
      using t0 lb wf(2) sdssetalloc_wf [of "s\<lparr>sbuf := ?b\<rparr>" "sdslen s"]
      by (simp add: is_str_def sds_ok_def sds_val_def min_def)
    then show ?thesis using True realloc_gives [OF assms(1,3), of "sdslen s + 1"] by (auto elim: gives_mono)
  next
    case ne: False
    let ?b = "take (sdslen s + 1) (sbuf s) @ replicate (sdslen s + 1 - (sdslen s + 1)) NUL"
    let ?t = "\<lparr>flags = type, hlen = 0, halloc_field = 0, sbuf = ?b\<rparr>"
    have ty: "type = 0 \<or> type = 1" "sds_type ?t = type" using ne by (auto simp: sds_consts sds_type_def)
    have small: "type = 0 \<Longrightarrow> sdslen s < 32" "type = 1 \<Longrightarrow> sdslen s < 256"
      by (auto simp: type_def sdsReqType_def sds_consts split: if_splits)
    have "is_str (sds_val s) (sdssetalloc (sdslen s) (sdssetlen (sdslen s) ?t))"
    proof (cases "type = 0")
      case True
      then show ?thesis using small(1) t0(3) wf(2) ty(2)
        by (simp add: is_str_def sds_ok_def sds_wf_def sds_val_def sdssetalloc_def sdssetlen_def sdslen_def sdsalloc_def
            sds_consts SDS_TYPE_5_LEN_def sds_type_def)
    next
      case False
      then have t1: "type = 1" using ty(1) by simp
      have l: "sdslen (sdssetlen (sdslen s) ?t) = sdslen s"
        using t1 ty(2) small(2) by (intro sdslen_setlen) (simp_all add: len_bits_def sds_consts)
      then show ?thesis
        using t1 ty(2) small(2) t0(3) wf(2) sdssetalloc_wf [of "sdssetlen (sdslen s) ?t" "sdslen s"]
        by (simp add: is_str_def sds_ok_def sds_val_def len_bits_def sds_consts)
    qed
    then show ?thesis
      using ne move_gives [OF assms(1,3) t0(3), of "sdslen s + 1" type] by (auto elim: gives_mono)
  qed
  then have "gives h a (is_str (sds_val s))
    (bnd ?r (\<lambda>(p, h). case p of None \<Rightarrow> Ok (None, h) | Some a \<Rightarrow>
      bnd (update_sds h a (sdssetalloc (sdslen s))) (\<lambda>h. Ok (Some a, h))))"
    by (rule gives_then) auto
  then show ?thesis
    unfolding sdsRemoveFreeSpace_def load_Some [OF assms(1)] bnd.simps Let_def if_not_P [OF False] type_def .
qed

subsection \<open>Working in place\<close>

text \<open>The operation returns with another string in the same block, and the rest of the heap as it was.\<close>

definition updates :: "sds_cell heap \<Rightarrow> addr \<Rightarrow> (sds_block \<Rightarrow> bool) \<Rightarrow> sds_cell heap outcome \<Rightarrow> bool" where
  "updates h a P r \<longleftrightarrow> (\<exists>t. r = Ok (put h a t) \<and> P t)"

lemma updates_gives:
  "cells h a = Some (SdsBlock s) \<Longrightarrow> heap_ok h \<Longrightarrow> updates h a P r \<Longrightarrow> gives h a P (bnd r (\<lambda>h. Ok (Some a, h)))"
  by (auto simp: updates_def intro: gives_same)

lemma write_Some:
  "cells h a = Some (SdsBlock s) \<Longrightarrow> off + length bs \<le> length (sbuf s) \<Longrightarrow>
    write_sds h a off bs = Ok (put h a (s\<lparr>sbuf := take off (sbuf s) @ bs @ drop (off + length bs) (sbuf s)\<rparr>))"
  using write_put [of off bs s h a] by (simp add: put_same)

lemma update_Some: "cells h a = Some (SdsBlock s) \<Longrightarrow> update_sds h a f = Ok (put h a (f s))"
  using update_put [of h a s f] by (simp add: put_same)

text \<open>Moving a part of the characters to the front and ending the string behind it.\<close>

lemma shrink_updates:
  assumes "cells h a = Some (SdsBlock s)" and "sds_wf s" and "length bs \<le> sdslen s"
  shows "updates h a (is_str bs) (bnd (write_sds h a 0 bs) (\<lambda>h.
    bnd (write_sds h a (length bs) [NUL]) (\<lambda>h. update_sds h a (sdssetlen (length bs)))))"
proof -
  let ?b = "bs @ drop (length bs) (sbuf s)"
  let ?c = "take (length bs) ?b @ [NUL] @ drop (length bs + 1) ?b"
  have l: "length bs < length (sbuf s)" "length bs \<le> sdsalloc s" using assms(2,3) by (auto simp: sds_wf_def)
  have w: "write_sds h a 0 bs = Ok (put h a (s\<lparr>sbuf := ?b\<rparr>))" using l write_Some [OF assms(1), of 0 bs] by simp
  have w2: "write_sds (put h a (s\<lparr>sbuf := ?b\<rparr>)) a (length bs) [NUL] = Ok (put h a (s\<lparr>sbuf := ?c\<rparr>))"
    using l by simp
  have "is_str bs ((sdssetlen (length bs) s)\<lparr>sbuf := ?c\<rparr>)"
    using l assms(2) by (intro is_strI) (simp_all add: nth_append)
  then show ?thesis unfolding updates_def w bnd.simps w2 update_put sbuf_update by blast
qed

lemma clear_updates:
  assumes "cells h a = Some (SdsBlock s)" and "sds_wf s"
  shows "updates h a (is_str []) (sdsclear h a)"
proof -
  let ?b = "NUL # drop 1 (sbuf s)"
  have l: "0 < length (sbuf s)" using assms(2) by (auto simp: sds_wf_def)
  have "is_str [] ((sdssetlen (length ([] :: bytes)) s)\<lparr>sbuf := ?b\<rparr>)"
    using l assms(2) by (intro is_strI) simp_all
  moreover have "write_sds (put h a (sdssetlen 0 s)) a 0 [NUL] = Ok (put h a ((sdssetlen 0 s)\<lparr>sbuf := ?b\<rparr>))"
    using l by (simp add: Suc_le_eq)
  ultimately show ?thesis
    unfolding updates_def sdsclear_def update_Some [OF assms(1)] bnd.simps list.size by blast
qed

text \<open>The string up to its first NUL.\<close>

lemma updatelen_updates:
  assumes "cells h a = Some (SdsBlock s)" and "sds_ok s"
  shows "updates h a (is_str (until_nul (sds_val s))) (sdsupdatelen h a)"
proof -
  have wf: "sds_wf s" "sbuf s ! sdslen s = NUL" using assms(2) by (auto simp: sds_ok_def)
  then have l: "sdslen s < length (sbuf s)" "sdslen s \<le> sdsalloc s" by (auto simp: sds_wf_def)
  have d: "sbuf s = sds_val s @ NUL # drop (sdslen s + 1) (sbuf s)"
    using id_take_nth_drop [OF l(1)] wf(2) by (simp add: sds_val_def)
  let ?t = "until_nul (sds_val s)"
  have u: "until_nul (xs @ NUL # r) = until_nul xs" for xs r :: bytes
    by (induction xs) (auto simp: until_nul_def)
  have ex: "\<exists>rest. xs @ NUL # r = until_nul xs @ NUL # rest" for xs r :: bytes
    by (induction xs) (auto simp: until_nul_def)
  have c: "cstr_at (sbuf s) 0 = Ok ?t"
    by (subst d, simp add: cstr_at_def u)
  have lt: "length ?t \<le> sdslen s"
    using length_takeWhile_le [of _ "sds_val s"] length_sds_val [OF wf(1)] by (simp add: until_nul_def)
  obtain rest where r: "sbuf s = ?t @ NUL # rest" using ex d by metis
  have eq: "(sdssetlen (length ?t) s)\<lparr>sbuf := sbuf s\<rparr> = sdssetlen (length ?t) s"
    by (rule sds_block.equality) simp_all
  have "is_str ?t ((sdssetlen (length ?t) s)\<lparr>sbuf := sbuf s\<rparr>)"
    using wf(1) lt l(2) arg_cong [OF r, of "take (length ?t)"] arg_cong [OF r, of "\<lambda>b. b ! length ?t"]
    by (intro is_strI) simp_all
  then have "is_str ?t (sdssetlen (length ?t) s)" unfolding eq .
  then show ?thesis using c assms(1)
    by (auto simp: updates_def sdsupdatelen_def update_Some)
qed

subsection \<open>Trimming\<close>

definition trim_text :: "bytes \<Rightarrow> bytes \<Rightarrow> bytes" where
  "trim_text cset v = rev (dropWhile (in_cset cset) (rev (dropWhile (in_cset cset) v)))"

lemma trim_start_eq: "trim_start cset cs sp = sp + length (takeWhile (in_cset cset) cs)"
  by (induction cs arbitrary: sp) auto

lemma trim_end_eq:
  "sp \<le> ep \<Longrightarrow> ep \<le> length b \<Longrightarrow> (sp < ep \<Longrightarrow> \<not> in_cset cset (b ! sp)) \<Longrightarrow>
    take (trim_end cset b sp ep - sp) (drop sp b) = rev (dropWhile (in_cset cset) (rev (take (ep - sp) (drop sp b))))
    \<and> trim_end cset b sp ep \<le> ep"
proof (induction ep)
  case (Suc ep)
  show ?case
  proof (cases "sp \<le> ep")
    case False
    then show ?thesis using Suc.prems(1) by simp
  next
    case True
    have t: "take (Suc ep - sp) (drop sp b) = take (ep - sp) (drop sp b) @ [b ! ep]"
      using True Suc.prems(2) by (simp add: Suc_diff_le take_Suc_conv_app_nth)
    show ?thesis
    proof (cases "in_cset cset (b ! ep)")
      case in_set: True
      then have "sp < ep" using Suc.prems(3) True by (cases "sp = ep") auto
      then show ?thesis using Suc.IH Suc.prems t in_set by simp
    qed (use True t in simp)
  qed
qed simp

lemma trim_updates:
  assumes "cells h a = Some (SdsBlock s)" and "sds_wf s"
  shows "updates h a (is_str (trim_text cset (sds_val s))) (sdstrim h a cset)"
proof -
  have l: "sdslen s < length (sbuf s)" using assms(2) by (simp add: sds_wf_def)
  let ?v = "sds_val s" and ?P = "in_cset cset"
  define sp where "sp = length (takeWhile ?P ?v)"
  define len where "len = trim_end cset (sbuf s) sp (sdslen s) - sp"
  have sp: "trim_start cset (take (sdslen s) (sbuf s)) 0 = sp" by (simp add: trim_start_eq sp_def sds_val_def)
  have spl: "sp \<le> sdslen s"
    using length_takeWhile_le [of ?P ?v] length_sds_val [OF assms(2)] by (simp add: sp_def)
  have ns: "\<not> ?P (sbuf s ! sp)" if "sp < sdslen s"
  proof -
    have "sp < length ?v" using that length_sds_val [OF assms(2)] by simp
    then have "\<not> ?P (?v ! sp)" unfolding sp_def by (rule nth_length_takeWhile)
    then show ?thesis using that by (simp add: sds_val_def)
  qed
  have dv: "take (sdslen s - sp) (drop sp (sbuf s)) = dropWhile ?P ?v"
  proof -
    have "take (sdslen s - sp) (drop sp (sbuf s)) = drop sp ?v" by (simp add: sds_val_def drop_take)
    also have "... = dropWhile ?P ?v" unfolding sp_def by (simp add: dropWhile_eq_drop)
    finally show ?thesis .
  qed
  have e: "take len (drop sp (sbuf s)) = trim_text cset ?v" "trim_end cset (sbuf s) sp (sdslen s) \<le> sdslen s"
    using trim_end_eq [OF spl, of "sbuf s" cset] l ns dv by (simp_all add: len_def trim_text_def)
  have "length (take len (drop sp (sbuf s))) = len" using l spl e(2) by (simp add: len_def)
  then have lt: "length (trim_text cset ?v) = len" using e(1) by simp
  have "len \<le> sdslen s" using e(2) by (simp add: len_def)
  then have "length (trim_text cset ?v) \<le> sdslen s" using lt by simp
  from shrink_updates [OF assms this] show ?thesis
    unfolding sdstrim_def load_Some [OF assms(1)] bnd.simps Let_def sp len_def [symmetric] e(1) lt .
qed

subsection \<open>Ranges\<close>

text \<open>Both ends are part of the range; negative ones count from the end, and do not get below the first character.\<close>

definition range_from :: "nat \<Rightarrow> int \<Rightarrow> int" where
  "range_from n i = (if i < 0 then max 0 (int n + i) else i)"

definition range_text :: "int \<Rightarrow> int \<Rightarrow> bytes \<Rightarrow> bytes" where
  "range_text i j v =
     (let i' = range_from (length v) i; j' = range_from (length v) j
      in if i' > j' then [] else take (nat (j' - i' + 1)) (drop (nat i') v))"

lemma cut_updates:
  assumes "cells h a = Some (SdsBlock s)" and "sds_wf s" and "n \<le> sdslen s"
  shows "updates h a (is_str (take n (sbuf s))) (bnd (write_sds h a n [NUL]) (\<lambda>h. update_sds h a (sdssetlen n)))"
proof -
  let ?c = "take n (sbuf s) @ [NUL] @ drop (n + 1) (sbuf s)"
  have l: "n < length (sbuf s)" "n \<le> sdsalloc s" using assms(2,3) by (auto simp: sds_wf_def)
  have w: "write_sds h a n [NUL] = Ok (put h a (s\<lparr>sbuf := ?c\<rparr>))" using l write_Some [OF assms(1), of n "[NUL]"] by simp
  have n: "length (take n (sbuf s)) = n" using l by simp
  have "is_str (take n (sbuf s)) ((sdssetlen (length (take n (sbuf s))) s)\<lparr>sbuf := ?c\<rparr>)"
    using l assms(2) by (intro is_strI) (simp_all add: nth_append min_def)
  then show ?thesis unfolding updates_def w bnd.simps update_put sbuf_update n by blast
qed

lemma to_ssize_id: "- 9223372036854775808 \<le> i \<Longrightarrow> i < 9223372036854775808 \<Longrightarrow> to_ssize i = i"
  unfolding to_ssize_def by (rule signed_take_bit_int_eq_self) simp_all

lemma range_updates:
  assumes "cells h a = Some (SdsBlock s)" and "sds_ok s" and "sdslen s < 2 ^ 62"
    and "- (2 ^ 63) \<le> i" "i < 2 ^ 63" "- (2 ^ 63) \<le> j" "j < 2 ^ 63"
  shows "updates h a (is_str (range_text i j (sds_val s))) (sdsrange h a i j)"
proof (cases "sdslen s = 0")
  case True
  then have v: "sds_val s = []" by (simp add: sds_val_def)
  have "is_str [] s" using assms(2) v by (simp add: is_str_def)
  then show ?thesis using True assms(1) v
    by (auto simp: updates_def sdsrange_def range_text_def Let_def put_same [OF assms(1)] intro!: exI [of _ s])
next
  case False
  have wf: "sds_wf s" using assms(2) by (simp add: sds_ok_def)
  define n where "n = sdslen s"
  define i' where "i' = range_from n i"
  define j' where "j' = range_from n j"
  define k where "k = (if i' > j' \<or> i' \<ge> int n then 0 else if j' \<ge> int n then n - nat i' else nat (j' - i' + 1))"
  have n: "0 < n" "n < 4611686018427387904" "n < length (sbuf s)" "n = length (sds_val s)"
    using False assms(3) wf length_sds_val [OF wf] by (auto simp: n_def sds_wf_def)
  have ib: "0 \<le> i'" "i' < 9223372036854775808" "0 \<le> j'" "j' < 9223372036854775808"
    using assms(4-7) n(2) by (auto simp: i'_def j'_def range_from_def)
  have ii: "(if i < 0 then max 0 (to_ssize (int n + i)) else i) = i'"
    and jj: "(if j < 0 then max 0 (to_ssize (int n + j)) else j) = j'"
    and nn: "to_ssize (int n) = int n"
    using assms(4-7) n(2) by (auto simp: i'_def j'_def range_from_def to_ssize_id)
  have kk: "(if (if i' > j' then 0 else to_size (j' - i' + 1)) \<noteq> 0
      then if i' \<ge> int n then 0 else if j' \<ge> int n then to_size (int n - 1 - i' + 1) else (if i' > j' then 0 else to_size (j' - i' + 1))
      else (if i' > j' then 0 else to_size (j' - i' + 1))) = k"
    using ib n(2) by (auto simp: k_def nat_diff_distrib)
  have kn: "nat i' + k \<le> n \<or> k = 0" using ib by (auto simp: k_def)
  have rt: "range_text i j (sds_val s) = take k (drop (nat i') (sbuf s))"
  proof -
    have "range_text i j (sds_val s) = (if i' > j' then [] else take (nat (j' - i' + 1)) (drop (nat i') (sds_val s)))"
      unfolding range_text_def Let_def n(4) [symmetric] i'_def j'_def ..
    also have "drop (nat i') (sds_val s) = take (n - nat i') (drop (nat i') (sbuf s))"
      by (simp add: sds_val_def n_def drop_take)
    finally have e: "range_text i j (sds_val s) =
      (if i' > j' then [] else take (min (nat (j' - i' + 1)) (n - nat i')) (drop (nat i') (sbuf s)))"
      by simp
    consider "i' > j'" | "i' \<le> j'" "i' \<ge> int n" | "i' \<le> j'" "i' < int n" "j' \<ge> int n" | "i' \<le> j'" "i' < int n" "j' < int n"
      by linarith
    then show ?thesis
    proof cases
      case 3
      then have "min (nat (j' - i' + 1)) (n - nat i') = k" using ib by (simp add: k_def min_def)
      then show ?thesis using e 3 by simp
    next
      case 4
      then have "min (nat (j' - i' + 1)) (n - nat i') = k" using ib by (simp add: k_def min_def)
      then show ?thesis using e 4 by simp
    qed (use e in \<open>simp_all add: k_def\<close>)
  qed
  have n0: "\<not> n = 0" using n(1) by simp
  have op: "sdsrange h a i j = bnd (if i' \<noteq> 0 \<and> k \<noteq> 0 then
        bnd (guard_or OutOfBounds (nat i' + k \<le> length (sbuf s))) (\<lambda>_. write_sds h a 0 (take k (drop (nat i') (sbuf s))))
      else Ok h) (\<lambda>h. bnd (write_sds h a k [NUL]) (\<lambda>h. update_sds h a (sdssetlen k)))"
    unfolding sdsrange_def load_Some [OF assms(1)] bnd.simps Let_def n_def [symmetric] if_not_P [OF n0] ii jj nn kk ..
  show ?thesis
  proof (cases "i' \<noteq> 0 \<and> k \<noteq> 0")
    case True
    let ?w = "take k (drop (nat i') (sbuf s))"
    have l: "length ?w = k" "length ?w \<le> sdslen s" using kn True n(3) by (auto simp: n_def)
    then show ?thesis using shrink_updates [OF assms(1) wf l(2)] True kn n(3) unfolding op rt by simp
  next
    case False
    then have "take k (drop (nat i') (sbuf s)) = take k (sbuf s)" using ib(1) by auto
    then show ?thesis using cut_updates [OF assms(1) wf, of k] kn False unfolding op rt if_not_P [OF False] bnd.simps
      by (auto simp: n_def)
  qed
qed

subsection \<open>Replacing characters\<close>

lemma map_chars_Ok: "\<forall>c \<in> set cs. f c = Ok (g c) \<Longrightarrow> map_chars f cs = Ok (map g cs)"
  by (induction cs) auto

lemma change_updates:
  assumes "cells h a = Some (SdsBlock s)" and "sds_ok s" and "\<And>c. f c = Ok (g c)"
  shows "updates h a (is_str (map g (sds_val s))) (change_chars h a f)"
proof -
  have wf: "sds_wf s" "sdslen s < length (sbuf s)" "sbuf s ! sdslen s = NUL" using assms(2) by (auto simp: sds_ok_def sds_wf_def)
  let ?b = "map g (sds_val s) @ drop (sdslen s) (sbuf s)"
  have l: "length (map g (sds_val s)) = sdslen s" using length_sds_val [OF wf(1)] by simp
  have m: "map_chars f (take (sdslen s) (sbuf s)) = Ok (map g (sds_val s))"
    using assms(3) by (subst map_chars_Ok [of _ _ g]) (simp_all add: sds_val_def)
  have w: "write_sds h a 0 (map g (sds_val s)) = Ok (put h a (s\<lparr>sbuf := ?b\<rparr>))"
    using write_Some [OF assms(1), of 0 "map g (sds_val s)"] l wf(2) by simp
  have "is_str (map g (sds_val s)) (s\<lparr>sbuf := ?b\<rparr>)"
    using wf l by (auto simp: is_str_def sds_ok_def sds_val_def nth_append)
  then show ?thesis using m w wf(2) assms(1)
    by (auto simp: updates_def change_chars_def)
qed

text \<open>The character that replaces \<open>c\<close>: that at the first position of \<open>c\<close> in \<open>from\<close>.\<close>

definition replacement :: "bytes \<Rightarrow> bytes \<Rightarrow> char \<Rightarrow> char" where
  "replacement from to c = (case map_of (zip from to) c of None \<Rightarrow> c | Some d \<Rightarrow> d)"

lemma map_char_eq:
  "i + k \<le> length from \<Longrightarrow> i + k \<le> length to \<Longrightarrow>
    map_char from to i k c = Ok (replacement (take k (drop i from)) (take k (drop i to)) c)"
proof (induction k arbitrary: i)
  case (Suc k)
  have d: "drop i from = from ! i # drop (Suc i) from" "drop i to = to ! i # drop (Suc i) to"
    using Suc.prems by (simp_all add: Cons_nth_drop_Suc)
  show ?case using Suc by (simp add: byte_at_def d replacement_def)
qed (simp add: replacement_def)

subsection \<open>Correcting the length\<close>

text \<open>After something was written into the room behind the string, or to cut the string.\<close>

lemma incr_len_updates:
  assumes "cells h a = Some (SdsBlock s)" and "sds_wf s" and "sdsalloc s < 2 ^ 62"
    and "- int (sdslen s) \<le> i" "i \<le> int (sdsavail s)" "i = 0 \<longrightarrow> sds_type s \<noteq> 0"
  shows "updates h a (is_str (take (nat (int (sdslen s) + i)) (sbuf s))) (sdsIncrLen h a i)"
proof -
  define n where "n = nat (int (sdslen s) + i)"
  have av: "sdsavail s = sdsalloc s - sdslen s" "sdslen s \<le> sdsalloc s" "sdsalloc s < length (sbuf s)" "sds_type s \<le> 4"
    using sdsavail_eq [OF assms(2)] assms(2) by (auto simp: sds_wf_def)
  have n: "int n = int (sdslen s) + i" "n \<le> sdsalloc s" "n < length (sbuf s)"
    using assms(4,5) av by (auto simp: n_def)
  have ts: "to_size (int (sdslen s) + i) = n"
    using n assms(3) to_size_int [of n] by (simp flip: n(1))
  have room: "sds_type s \<noteq> 0 \<Longrightarrow> int (halloc_field s) - int (hlen s) = int (sdsavail s)"
    using av(1,2,4) by (simp add: sdsalloc_def sdslen_def sds_consts)
  have lt: "sds_type s \<noteq> 0 \<Longrightarrow> sdsalloc s < 2 ^ len_bits (sds_type s)" "sds_type s = 0 \<Longrightarrow> sdsalloc s < 32"
    using alloc_bounds [OF assms(2)] by blast+
  have ok: "incr_ok s i"
  proof (cases "i < 0")
    case True
    have "(- i) mod m \<le> - i" for m using True by (intro zmod_le_nonneg_dividend) simp
    then have "(- i) mod m \<le> int (sdslen s)" for m using assms(4) by (meson neg_le_iff_le order.trans minus_le_iff)
    then show ?thesis using True av(4) by (simp add: incr_ok_def Let_def sds_consts)
  next
    case False
    then show ?thesis
    proof (cases "sds_type s = 0")
      case True
      then show ?thesis using False assms(5,6) lt(2) av(1,2) by (simp add: incr_ok_def Let_def sds_consts sdsavail_def)
    next
      case t: False
      have "sds_type s = 3 \<Longrightarrow> int (sdsavail s) mod 2 ^ 32 = int (sdsavail s) \<and> i mod 2 ^ 32 = i"
        using lt(1) False assms(5) av(1) by (simp add: len_bits_def sds_consts)
      moreover have "int (sdsavail s) mod 2 ^ 64 = int (sdsavail s)" using assms(3) av(1) by simp
      ultimately show ?thesis using False t assms(5) av(4) by (auto simp: incr_ok_def Let_def sds_consts room [OF t])
    qed
  qed
  let ?t = "sdssetlen n s" and ?c = "take n (sbuf s) @ [NUL] @ drop (n + 1) (sbuf s)"
  have ln: "sdslen ?t = n" by (rule sdssetlen_len(1) [OF assms(2) n(2)])
  have w: "write_sds (put h a ?t) a n [NUL] = Ok (put h a (?t\<lparr>sbuf := ?c\<rparr>))"
    using n(3) by simp
  have l: "length (take n (sbuf s)) = n" using n(3) by simp
  have "is_str (take n (sbuf s)) ((sdssetlen (length (take n (sbuf s))) s)\<lparr>sbuf := ?c\<rparr>)"
    using n assms(2) by (intro is_strI) (simp_all add: nth_append min_def)
  then have "is_str (take n (sbuf s)) (?t\<lparr>sbuf := ?c\<rparr>)" using l by simp
  moreover have "sdsIncrLen h a i = Ok (put h a (?t\<lparr>sbuf := ?c\<rparr>))"
  proof -
    have g: "guard_or AssertFailed (incr_ok s i) = Ok ()" using ok by simp
    have le: "sds_type s \<le> SDS_TYPE_64" using av(4) by (simp add: sds_consts)
    have st: "store_sds h a ?t = Ok (put h a ?t)" using store_put [of h a s ?t] by (simp add: put_same [OF assms(1)])
    show ?thesis
      unfolding sdsIncrLen_def load_Some [OF assms(1)] bnd.simps if_P [OF le] g Let_def ts st ln if_cancel w ..
  qed
  ultimately show ?thesis unfolding updates_def n_def by blast
qed

subsection \<open>Creating and freeing\<close>

text \<open>A new string in a block of its own, or NULL when memory has run out.\<close>

definition creates :: "sds_cell heap \<Rightarrow> bytes \<Rightarrow> (addr option \<times> sds_cell heap) outcome \<Rightarrow> bool" where
  "creates h v r \<longleftrightarrow>
     (\<exists>h'. r = Ok (None, h') \<and> cells h' = cells h \<and> heap_ok h' \<and> fails h' = fails h \<and> \<not> no_fail h)
     \<or> (\<exists>a h' s. r = Ok (Some a, h') \<and> cells h' = (cells h)(a \<mapsto> SdsBlock s) \<and> cells h a = None
          \<and> heap_ok h' \<and> fails h' = fails h \<and> is_str v s)"

lemma new_header_wf:
  assumes "type \<le> 4" and "type = 0 \<Longrightarrow> n < 32" "type \<noteq> 0 \<Longrightarrow> n < 2 ^ len_bits type" and "n < length b"
  shows "sds_wf (new_header type n b)" "sdslen (new_header type n b) = n" "sbuf (new_header type n b) = b"
    "sdsalloc (new_header type n b) = n"
  using assms
  by (auto simp: sds_wf_def new_header_def sdslen_def sdsalloc_def sds_type_def SDS_TYPE_5_LEN_def sds_consts)

lemma new_header_sbuf: "(new_header type n b)\<lparr>sbuf := c\<rparr> = new_header type n c"
  by (simp add: new_header_def)

lemma newlen_creates:
  assumes "heap_ok h" and "length v < 2 ^ 62"
    and "init = Init t \<and> (v = [] \<or> reads h (calls h) t v) \<or> init \<noteq> Init t \<and> (\<forall>t. init \<noteq> Init t) \<and> v = replicate (length v) NUL"
  shows "creates h v (sdsnewlen h init (length v))"
proof (cases "fails h (calls h)")
  case True
  then show ?thesis using assms(1)
    by (auto simp: creates_def sdsnewlen_def Let_def halloc_def no_fail_def heap_ok_def less_Suc_eq)
next
  case False
  define n where "n = length v"
  define type where "type = (if sdsReqType n = SDS_TYPE_5 \<and> n = 0 then SDS_TYPE_8 else sdsReqType n)"
  have t4: "type \<le> 4" using sdsReqType_le [of n] by (simp add: type_def sds_consts)
  have tb: "type = 0 \<Longrightarrow> n < 32" "type \<noteq> 0 \<Longrightarrow> n < 2 ^ len_bits type"
    using sdsReqType_bounds [of n] assms(2) by (auto simp: type_def n_def [symmetric] sdsReqType_def sds_consts split: if_splits)
  have hd: "sdsHdrSize type \<le> 17" by (simp add: sdsHdrSize_def Let_def)
  then have tot: "to_size (int (sdsHdrSize type + n + 1)) = sdsHdrSize type + n + 1"
    using assms(2) by (intro to_size_int) (simp add: n_def)
  let ?a = "calls h" and ?s = "new_header type n (replicate (n + 1) NUL)" and ?g = "h\<lparr>calls := Suc (calls h)\<rparr>"
  note wf = new_header_wf [OF t4 tb, of "replicate (n + 1) NUL"]
  have al: "halloc h (SdsBlock ?s) = (Some ?a, put ?g ?a ?s)" using False by (simp add: halloc_def put_def)
  have na: "cells h ?a = None" using assms(1) by (rule heap_ok_fresh)
  define fill where "fill = (case init of
      Init t \<Rightarrow> if n > 0 then bnd (read_source (put ?g ?a ?s) t n) (write_sds (put ?g ?a ?s) ?a 0) else Ok (put ?g ?a ?s)
    | _ \<Rightarrow> Ok (put ?g ?a ?s))"
  have f: "fill = Ok (put ?g ?a (?s\<lparr>sbuf := v @ [NUL]\<rparr>))"
  proof (cases "init = Init t \<and> v \<noteq> []")
    case True
    then have r: "reads h ?a t v" using assms(3) by blast
    have "read_source (put ?g ?a ?s) t n = Ok v"
    proof (cases t)
      case (Chars c)
      then show ?thesis using r by (auto simp: read_source_def n_def load_sds_def hload_def)
    qed (use r in \<open>auto simp: read_source_def n_def\<close>)
    moreover have "0 < n" using True by (simp add: n_def)
    moreover have "write_sds (put ?g ?a ?s) ?a 0 v = Ok (put ?g ?a (?s\<lparr>sbuf := v @ [NUL]\<rparr>))"
    proof -
      have "drop (length v) (replicate (n + 1) NUL) = [NUL]" by (simp add: n_def del: replicate_Suc) simp
      then show ?thesis using wf(3) by (simp add: n_def del: replicate_Suc)
    qed
    ultimately show ?thesis using True by (simp add: fill_def)
  next
    case F: False
    have "init = Init t \<and> n = 0 \<or> (\<forall>t. init \<noteq> Init t)"
      using F assms(3) unfolding n_def by blast
    then have fl: "fill = Ok (put ?g ?a ?s)" by (cases init) (auto simp: fill_def)
    have vn: "v = replicate n NUL"
    proof (cases "v = []")
      case False
      then show ?thesis using F assms(3) unfolding n_def by blast
    qed (simp add: n_def)
    have "replicate (n + 1) NUL = v @ [NUL]" unfolding vn by (simp add: replicate_append_same)
    then have e: "?s = ?s\<lparr>sbuf := v @ [NUL]\<rparr>" by (simp only: new_header_sbuf)
    show ?thesis using fl unfolding e [symmetric] .
  qed
  let ?t = "?s\<lparr>sbuf := v @ [NUL]\<rparr>"
  have w: "write_sds (put ?g ?a ?t) ?a n [NUL] = Ok (put ?g ?a ?t)"
    by (simp add: n_def)
  have "is_str v ?t"
    using wf by (simp add: is_str_def sds_ok_def sds_val_def n_def nth_append)
  moreover have "sdsnewlen h init n = Ok (Some ?a, put ?g ?a ?t)"
  proof -
    have d: "sdsHdrSize type + n + 1 - sdsHdrSize type = n + 1" by simp
    have g: "guard_or OutOfBounds (sdsHdrSize type \<le> sdsHdrSize type + n + 1) = Ok ()" by simp
    show ?thesis
      unfolding sdsnewlen_def Let_def type_def [symmetric] tot d al prod.case option.case g bnd.simps fill_def [symmetric] f w ..
  qed
  moreover have "heap_ok (put ?g ?a ?t)" using assms(1) by (auto simp: heap_ok_def less_Suc_eq)
  ultimately show ?thesis using na unfolding creates_def n_def by auto
qed

end
