(* ===== verification/Sds_Text.thy ===== *)
theory Sds_Text
  imports Sds_Spec "HOL-Library.List_Lexorder" "HOL-Library.Char_ord"
begin

section \<open>Sequences of operations on one string\<close>

text \<open>
  A string that one user owns: the operations refine those on lists of bytes, one after the other,
  without touching the rest of the heap. Then the order that \<open>sdscmp\<close> decides, and what
  happens when sizes wrap round.
\<close>

subsection \<open>The interface\<close>

text \<open>What a buffer for text promises: each operation that fits does to the text what it says, and returns the
  buffer's new address.\<close>

fun run_ops :: "('op \<Rightarrow> 'h \<Rightarrow> addr \<Rightarrow> (addr option \<times> 'h) outcome) \<Rightarrow> 'op list \<Rightarrow> 'h \<Rightarrow> addr \<Rightarrow> (addr option \<times> 'h) outcome" where
  "run_ops step [] h a = Ok (Some a, h)"
| "run_ops step (p # ps) h a = bnd (step p h a) (\<lambda>(r, h). bnd (deref r) (\<lambda>a. run_ops step ps h a))"

fun all_fit :: "('op \<Rightarrow> bytes \<Rightarrow> bool) \<Rightarrow> ('op \<Rightarrow> bytes \<Rightarrow> bytes) \<Rightarrow> 'op list \<Rightarrow> bytes \<Rightarrow> bool" where
  "all_fit fits text_of [] v = True"
| "all_fit fits text_of (p # ps) v = (fits p v \<and> all_fit fits text_of ps (text_of p v))"

locale text_buffer =
  fixes rel :: "'h \<Rightarrow> addr \<Rightarrow> bytes \<Rightarrow> bool"
    and step :: "'op \<Rightarrow> 'h \<Rightarrow> addr \<Rightarrow> (addr option \<times> 'h) outcome"
    and text_of :: "'op \<Rightarrow> bytes \<Rightarrow> bytes"
    and fits :: "'op \<Rightarrow> bytes \<Rightarrow> bool"
  assumes step: "rel h a v \<Longrightarrow> fits p v \<Longrightarrow> \<exists>a' h'. step p h a = Ok (Some a', h') \<and> rel h' a' (text_of p v)"
begin

lemma run:
  "rel h a v \<Longrightarrow> all_fit fits text_of ps v \<Longrightarrow>
    \<exists>a' h'. run_ops step ps h a = Ok (Some a', h') \<and> rel h' a' (fold text_of ps v)"
proof (induction ps arbitrary: h a v)
  case (Cons p ps)
  then obtain a1 h1 where "step p h a = Ok (Some a1, h1)" "rel h1 a1 (text_of p v)" using step by fastforce
  then show ?case using Cons by simp
qed auto

end

subsection \<open>Strings as text buffers\<close>

text \<open>The heap consists of the cells \<open>c\<close> and, apart from them, the string at \<open>a\<close> with the bytes \<open>v\<close>.\<close>

definition owned :: "(addr \<Rightarrow> sds_cell option) \<Rightarrow> sds_cell heap \<Rightarrow> addr \<Rightarrow> bytes \<Rightarrow> bool" where
  "owned c h a v \<longleftrightarrow> (\<exists>s. cells h = c(a \<mapsto> SdsBlock s) \<and> is_str v s) \<and> c a = None \<and> heap_ok h \<and> no_fail h"

lemma is_strE:
  assumes "is_str v s"
  shows "sds_ok s" "sds_wf s" "sds_val s = v" "sdslen s = length v"
  using assms length_sds_val [of s] by (simp_all add: is_str_def sds_ok_def)

lemma ownedE:
  assumes "owned c h a v"
  obtains s where "cells h a = Some (SdsBlock s)" "sds_ok s" "sds_wf s" "sds_val s = v" "sdslen s = length v" "heap_ok h"
proof -
  obtain s where "cells h = c(a \<mapsto> SdsBlock s)" "is_str v s" "heap_ok h" using assms by (auto simp: owned_def)
  then show ?thesis using that [of s] is_strE [of v s] by simp
qed

lemma gives_owned:
  assumes "owned c h a v" and "gives h a (is_str w) r"
  shows "\<exists>a' h'. r = Ok (Some a', h') \<and> owned c h' a' w"
proof -
  obtain s where c: "cells h = c(a \<mapsto> SdsBlock s)" "c a = None" "no_fail h" using assms(1) by (auto simp: owned_def)
  then obtain a' h' t where r: "r = Ok (Some a', h')" "moved h a h' a' t" "is_str w t"
    using assms(2) by (auto simp: gives_def)
  have "(cells h)(a := None) = c" using c(1,2) by (auto simp: fun_upd_idem)
  then have c': "cells h' = c(a' \<mapsto> SdsBlock t)" using r(2) by (simp add: moved_def)
  have n: "c a' = None" using r(2) c(1,2) by (auto simp: moved_def split: if_splits)
  have "heap_ok h'" "no_fail h'" using r(2) c(3) by (simp_all add: moved_def no_fail_def)
  then have "owned c h' a' w" unfolding owned_def using c' n r(3) by blast
  then show ?thesis using r(1) by blast
qed

lemma creates_owned:
  assumes "creates h v r" and "no_fail h"
  shows "\<exists>a h'. r = Ok (Some a, h') \<and> owned (cells h) h' a v"
  using assms unfolding creates_def owned_def by (auto simp: no_fail_def)

lemma free_owned: "owned c h a v \<Longrightarrow> \<exists>h'. sdsfree h (Some a) = Ok h' \<and> cells h' = c \<and> heap_ok h' \<and> no_fail h'"
  by (auto simp: owned_def sdsfree_def hfree_def heap_ok_def no_fail_def fun_upd_idem split: if_splits)

text \<open>The operations that a user calls with bytes of his own.\<close>

datatype sds_op =
    CatBytes bytes | CatString bytes | CpyBytes bytes | CpyString bytes | Clear | GrowZero nat | Trim bytes
  | Range int int | ToLower | ToUpper | MapChars bytes bytes | UpdateLen | MakeRoom nat | RemoveFreeSpace

fun sds_step :: "sds_op \<Rightarrow> sds_cell heap \<Rightarrow> addr \<Rightarrow> (addr option \<times> sds_cell heap) outcome" where
  "sds_step (CatBytes t) h a = sdscatlen h a (Bytes t) (length t)"
| "sds_step (CatString t) h a = sdscat h a (t @ [NUL])"
| "sds_step (CpyBytes t) h a = sdscpylen h a (Bytes t) (length t)"
| "sds_step (CpyString t) h a = sdscpy h a (t @ [NUL])"
| "sds_step Clear h a = bnd (sdsclear h a) (\<lambda>h. Ok (Some a, h))"
| "sds_step (GrowZero n) h a = sdsgrowzero h a n"
| "sds_step (Trim cset) h a = bnd (sdstrim h a cset) (\<lambda>h. Ok (Some a, h))"
| "sds_step (Range i j) h a = bnd (sdsrange h a i j) (\<lambda>h. Ok (Some a, h))"
| "sds_step ToLower h a = bnd (sdstolower h a) (\<lambda>h. Ok (Some a, h))"
| "sds_step ToUpper h a = bnd (sdstoupper h a) (\<lambda>h. Ok (Some a, h))"
| "sds_step (MapChars from to) h a = sdsmapchars h a from to (length from)"
| "sds_step UpdateLen h a = bnd (sdsupdatelen h a) (\<lambda>h. Ok (Some a, h))"
| "sds_step (MakeRoom n) h a = sdsMakeRoomFor h a n"
| "sds_step RemoveFreeSpace h a = sdsRemoveFreeSpace h a"

text \<open>What they mean for the text.\<close>

fun text_step :: "sds_op \<Rightarrow> bytes \<Rightarrow> bytes" where
  "text_step (CatBytes t) v = v @ t"
| "text_step (CatString t) v = v @ t"
| "text_step (CpyBytes t) v = t"
| "text_step (CpyString t) v = t"
| "text_step Clear v = []"
| "text_step (GrowZero n) v = v @ replicate (n - length v) NUL"
| "text_step (Trim cset) v = trim_text cset v"
| "text_step (Range i j) v = range_text i j v"
| "text_step ToLower v = map lower_char v"
| "text_step ToUpper v = map upper_char v"
| "text_step (MapChars from to) v = map (replacement from to) v"
| "text_step UpdateLen v = until_nul v"
| "text_step (MakeRoom n) v = v"
| "text_step RemoveFreeSpace v = v"

text \<open>The bound keeps all sizes clear of wrapping round. C strings have no NUL.\<close>

fun op_fits :: "sds_op \<Rightarrow> bytes \<Rightarrow> bool" where
  "op_fits (CatBytes t) v \<longleftrightarrow> length v + length t < 2 ^ 62"
| "op_fits (CatString t) v \<longleftrightarrow> length v + length t < 2 ^ 62 \<and> cstring t"
| "op_fits (CpyBytes t) v \<longleftrightarrow> length t < 2 ^ 62"
| "op_fits (CpyString t) v \<longleftrightarrow> length t < 2 ^ 62 \<and> cstring t"
| "op_fits (GrowZero n) v \<longleftrightarrow> n < 2 ^ 62"
| "op_fits (Range i j) v \<longleftrightarrow> length v < 2 ^ 62 \<and> - (2 ^ 63) \<le> i \<and> i < 2 ^ 63 \<and> - (2 ^ 63) \<le> j \<and> j < 2 ^ 63"
| "op_fits (MapChars from to) v \<longleftrightarrow> length from \<le> length to"
| "op_fits (MakeRoom n) v \<longleftrightarrow> length v + n < 2 ^ 62"
| "op_fits _ v \<longleftrightarrow> True"

lemma roomy_str: "sds_ok s \<Longrightarrow> roomy s n t \<Longrightarrow> is_str (sds_val s) t"
proof -
  assume s: "sds_ok s" and r: "roomy s n t"
  have e: "take (sdslen s + 1) (sbuf t) = take (sdslen s + 1) (sbuf s)" using r by (simp add: roomy_def)
  then have v: "take (sdslen s) (sbuf t) = take (sdslen s) (sbuf s)"
  proof -
    have "take n b = take n (take (n + 1) b)" for n and b :: bytes by simp
    then show ?thesis using e by metis
  qed
  have "sbuf t ! sdslen s = sbuf s ! sdslen s"
    using arg_cong [OF e, of "\<lambda>b. b ! sdslen s"] by simp
  then show ?thesis using s r v by (simp add: is_str_def sds_ok_def roomy_def sds_val_def)
qed

lemma cstr_NUL: "cstring t \<Longrightarrow> cstr_at (t @ [NUL]) 0 = Ok t"
  using cstr_at_append [of t "[]" "[]"] by simp

lemma zip_take_eq: "zip xs (take (length xs) ys) = zip xs ys"
  by (induction xs ys rule: list_induct2') auto

lemma replacement_short: "length from \<le> length to \<Longrightarrow> replacement from (take (length from) to) = replacement from to"
  by (simp add: replacement_def fun_eq_iff zip_take_eq)

lemma sds_step_gives:
  assumes "owned c h a v" and "op_fits p v"
  shows "gives h a (is_str (text_step p v)) (sds_step p h a)"
proof -
  obtain s where s: "cells h a = Some (SdsBlock s)" "sds_ok s" "sds_wf s" "sds_val s = v" "sdslen s = length v" "heap_ok h"
    using ownedE [OF assms(1)] by blast
  note in_place = updates_gives [OF s(1,6)]
  show ?thesis
  proof (cases p)
    case (CatBytes t)
    then show ?thesis using catlen_gives [OF s(1,3,6), of t "Bytes t"] assms(2) s(4,5) by simp
  next
    case (CatString t)
    then show ?thesis using catlen_gives [OF s(1,3,6), of t "Bytes (t @ [NUL])"] assms(2) s(4,5)
      by (simp add: sdscat_def cstr_NUL)
  next
    case (CpyBytes t)
    then show ?thesis using cpylen_gives [OF s(1,3,6), of t "Bytes t"] assms(2) by simp
  next
    case (CpyString t)
    then show ?thesis using cpylen_gives [OF s(1,3,6), of t "Bytes (t @ [NUL])"] assms(2)
      by (simp add: sdscpy_def cstr_NUL)
  next
    case Clear
    then show ?thesis using in_place [OF clear_updates [OF s(1,3)]] by simp
  next
    case (GrowZero n)
    then show ?thesis using growzero_gives [OF s(1,2,6), of n] assms(2) s(4,5) by simp
  next
    case (Trim cset)
    then show ?thesis using in_place [OF trim_updates [OF s(1,3)]] s(4) by simp
  next
    case (Range i j)
    then show ?thesis using in_place [OF range_updates [OF s(1,2), of i j]] assms(2) s(4,5) by simp
  next
    case ToLower
    then show ?thesis using in_place [OF change_updates [OF s(1,2), of _ lower_char]] s(4) by (simp add: sdstolower_def)
  next
    case ToUpper
    then show ?thesis using in_place [OF change_updates [OF s(1,2), of _ upper_char]] s(4) by (simp add: sdstoupper_def)
  next
    case (MapChars cs ds)
    have "map_char cs ds 0 (length cs) ch = Ok (replacement cs ds ch)" for ch
      using map_char_eq [of 0 "length cs" cs ds ch] assms(2) MapChars by (simp add: replacement_short)
    then show ?thesis using in_place [OF change_updates [OF s(1,2), of _ "replacement cs ds"]] s(4) MapChars
      by (simp add: sdsmapchars_def)
  next
    case UpdateLen
    then show ?thesis using in_place [OF updatelen_updates [OF s(1,2)]] s(4) by simp
  next
    case (MakeRoom n)
    have "gives h a (roomy s n) (sdsMakeRoomFor h a n)"
      using assms(2) MakeRoom s(5) by (intro make_room [OF s(1,3,6)]) simp
    then show ?thesis using MakeRoom roomy_str [OF s(2)] s(4) by (auto elim: gives_mono)
  next
    case RemoveFreeSpace
    then show ?thesis using remove_free_gives [OF s(1,2,6)] s(4) by simp
  qed
qed

interpretation tb: text_buffer "owned c" sds_step text_step op_fits for c
  by unfold_locales (rule gives_owned [OF _ sds_step_gives])

subsection \<open>Other operations\<close>

text \<open>A buffer of the caller in front of what it wants to give away.\<close>

lemma new_owned:
  assumes "heap_ok h" and "no_fail h" and "length v < 2 ^ 62"
  shows "\<exists>a h'. sdsnewlen h (Init (Bytes (v @ rest))) (length v) = Ok (Some a, h') \<and> owned (cells h) h' a v"
  using creates_owned [OF newlen_creates [OF assms(1,3), of "Init (Bytes (v @ rest))" "Bytes (v @ rest)"] assms(2)] by simp

lemma empty_owned:
  assumes "heap_ok h" and "no_fail h"
  shows "\<exists>a h'. sdsempty h = Ok (Some a, h') \<and> owned (cells h) h' a []"
  using new_owned [OF assms, of "[]" "[NUL]"] by (simp add: sdsempty_def)

lemma new_string_owned:
  assumes "heap_ok h" and "no_fail h" and "length v < 2 ^ 62" and "cstring v"
  shows "\<exists>a h'. sdsnew h (Some (v @ [NUL])) = Ok (Some a, h') \<and> owned (cells h) h' a v"
  using new_owned [OF assms(1-3), of "[NUL]"] by (simp add: sdsnew_def cstr_NUL [OF assms(4)])

lemma dup_owned:
  assumes "owned c h a v" and "length v < 2 ^ 62"
  shows "\<exists>b h'. sdsdup h a = Ok (Some b, h') \<and> owned (cells h) h' b v"
proof -
  obtain s where s: "cells h a = Some (SdsBlock s)" "sds_val s = v" "sdslen s = length v" "heap_ok h"
    using ownedE [OF assms(1)] by blast
  have "\<exists>rest. sbuf s = v @ rest"
    using s(2) append_take_drop_id [of "sdslen s" "sbuf s"] by (metis sds_val_def)
  moreover have "a \<noteq> calls h" using s(1,4) by (auto simp: heap_ok_def)
  ultimately have "reads h (calls h) (Chars a) v" using s(1) by auto
  then have "creates h v (sdsnewlen h (Init (Chars a)) (length v))"
    using newlen_creates [OF s(4) assms(2), of "Init (Chars a)" "Chars a"] by blast
  then show ?thesis
    using creates_owned assms(1) s(1,3) by (auto simp: sdsdup_def owned_def)
qed

text \<open>Another string is appended from its own block.\<close>

lemma catsds_owned:
  assumes "owned c h a v" and "length v + length w < 2 ^ 62" and "c b = Some (SdsBlock t)" "is_str w t"
  shows "\<exists>a' h'. sdscatsds h a b = Ok (Some a', h') \<and> owned c h' a' (v @ w)"
proof -
  obtain s where s: "cells h a = Some (SdsBlock s)" "sds_wf s" "sds_val s = v" "sdslen s = length v" "heap_ok h"
    using ownedE [OF assms(1)] by blast
  have b: "b \<noteq> a" "cells h b = Some (SdsBlock t)" using assms(1,3) by (auto simp: owned_def)
  have t: "sdslen t = length w" "sds_val t = w" using is_strE [OF assms(4)] by simp_all
  have "\<exists>rest. sbuf t = w @ rest"
    using t append_take_drop_id [of "sdslen t" "sbuf t"] by (metis sds_val_def)
  then have "gives h a (is_str (v @ w)) (sdscatlen h a (Chars b) (length w))"
    using catlen_gives [OF s(1,2,5), of w "Chars b"] assms(2) s(3,4) b by simp
  then show ?thesis using gives_owned [OF assms(1)] b(2) t(1) by (simp add: sdscatsds_def)
qed

text \<open>A string cannot be appended to itself when it has to grow: its old block is gone when it is read.\<close>

lemma grown_address:
  assumes "cells h a = Some (SdsBlock s)" and "no_fail h" and "sdsavail s < n"
    and "sdsMakeRoomFor h a n = Ok (Some b, g)"
  shows "b = calls h"
proof -
  have na: "\<not> n \<le> sdsavail s" using assms(3) by simp
  obtain p q c ty k l m where e: "sdsMakeRoomFor h a n =
      bnd (guard_or AssertFailed p) (\<lambda>_. bnd (guard_or OutOfBounds q) (\<lambda>_.
      bnd (if c then realloc_sds h a k else move_sds h a ty k l) (\<lambda>(r, h).
      case r of None \<Rightarrow> Ok (None, h) | Some a \<Rightarrow> bnd (update_sds h a (sdssetalloc m)) (\<lambda>h. Ok (Some a, h)))))"
    unfolding sdsMakeRoomFor_def load_Some [OF assms(1)] bnd.simps Let_def if_not_P [OF na] by blast
  obtain g' where "(if c then realloc_sds h a k else move_sds h a ty k l) = Ok (Some b, g')"
    using assms(4) [unfolded e bnd_Ok_iff] by (auto simp: bnd_Ok_iff split: option.splits prod.splits)
  then show ?thesis
    using assms(1,2)
    by (cases c) (auto simp: realloc_sds_def move_sds_def halloc_def no_fail_def bnd_Ok_iff split: option.splits)
qed

lemma self_append_fault:
  assumes "owned c h a v" and "length v + length v < 2 ^ 62" and "cells h a = Some (SdsBlock s)" and "sdsavail s < length v"
  shows "sdscatsds h a a = Fault UseAfterFree"
proof -
  obtain s' where s': "cells h a = Some (SdsBlock s')" "sds_ok s'" "sds_wf s'" "sds_val s' = v" "sdslen s' = length v" "heap_ok h"
    using ownedE [OF assms(1)] by blast
  then have ss: "s' = s" using assms(3) by simp
  note s = s' [unfolded ss]
  have nf: "no_fail h" using assms(1) by (simp add: owned_def)
  have "gives h a (roomy s (length v)) (sdsMakeRoomFor h a (length v))"
    using assms(2) s(5) by (intro make_room [OF s(1,3,6)]) simp
  then obtain a' h' t where r: "sdsMakeRoomFor h a (length v) = Ok (Some a', h')" "moved h a h' a' t"
    using nf by (auto simp: gives_def)
  have "a' \<noteq> a" using grown_address [OF s(1) nf assms(4) r(1)] heap_ok_fresh [OF s(6)] s(1) by auto
  then have "cells h' a = None" using r(2) by (simp add: moved_def)
  then have "read_source h' (Chars a) (length v) = Fault UseAfterFree"
    by (simp add: read_source_def load_sds_def)
  then show ?thesis using r(1) s(1,5) by (simp add: sdscatsds_def sdscatlen_def Let_def)
qed

section \<open>Properties\<close>


definition ex_ops :: "sds_op list" where
  "ex_ops = [CatString ''yyy'', Trim ''xy'', Range 1 (- 1), ToUpper]"


lemma compare_eq:
  "length xs = length ys \<Longrightarrow> (compare_bytes xs ys = 0 \<longleftrightarrow> xs = ys) \<and> (compare_bytes xs ys < 0 \<longleftrightarrow> xs < ys)"
  by (induction xs ys rule: list_induct2) (auto simp: less_char_def)

lemma less_prefix:
  fixes v w :: bytes
  shows "v < w \<longleftrightarrow> take (min (length v) (length w)) v < take (min (length v) (length w)) w
    \<or> take (min (length v) (length w)) v = take (min (length v) (length w)) w \<and> length v < length w"
  by (induction v w rule: list_induct2') auto

lemma eq_prefix:
  "v = w \<longleftrightarrow> take (min (length v) (length w)) v = take (min (length v) (length w)) w \<and> length v = length w"
  by auto

lemma cmp_sign:
  fixes c r :: int and p q v w :: bytes and m n :: nat
  assumes "r = (if c = 0 then (if m > n then 1 else if m < n then - 1 else 0) else c)"
    and "c = 0 \<longleftrightarrow> p = q" "c < 0 \<longleftrightarrow> p < q" and "v < w \<longleftrightarrow> p < q \<or> p = q \<and> m < n" "v = w \<longleftrightarrow> p = q \<and> m = n"
  shows "(r < 0 \<longleftrightarrow> v < w) \<and> (r = 0 \<longleftrightarrow> v = w) \<and> (r > 0 \<longleftrightarrow> v > w)"
proof -
  have "(r < 0 \<longleftrightarrow> v < w) \<and> (r = 0 \<longleftrightarrow> v = w)" unfolding assms(1,4,5) using assms(2,3) by auto
  moreover have "v > w \<longleftrightarrow> \<not> v < w \<and> \<not> v = w" by auto
  ultimately show ?thesis by linarith
qed

text \<open>C34: \<open>sdscmp\<close> decides the lexicographic order of the bytes, as unsigned numbers: its result is
  negative, zero or positive when the first string is below, equal to or above the second, a proper prefix
  being below.\<close>

theorem cmp_is_lexicographic:
  assumes "cells h a = Some (SdsBlock s)" "sds_ok s" and "cells h b = Some (SdsBlock t)" "sds_ok t"
  shows "\<exists>r. sdscmp h a b = Ok r \<and> (r < 0 \<longleftrightarrow> sds_val s < sds_val t) \<and> (r = 0 \<longleftrightarrow> sds_val s = sds_val t)
    \<and> (r > 0 \<longleftrightarrow> sds_val s > sds_val t)"
proof -
  let ?v = "sds_val s" and ?w = "sds_val t" and ?m = "min (sdslen s) (sdslen t)"
  have l: "length ?v = sdslen s" "length ?w = sdslen t" "sdslen s < length (sbuf s)" "sdslen t < length (sbuf t)"
    using assms(2,4) length_sds_val by (auto simp: sds_ok_def sds_wf_def)
  have m: "(if sdslen s < sdslen t then sdslen s else sdslen t) = ?m" by (simp add: min_def)
  have p: "take ?m (sbuf s) = take ?m ?v" "take ?m (sbuf t) = take ?m ?w" by (simp_all add: sds_val_def min_def)
  let ?c = "compare_bytes (take ?m ?v) (take ?m ?w)"
  define r where "r = (if ?c = 0 then (if sdslen s > sdslen t then 1 else if sdslen s < sdslen t then - 1 else 0) else ?c)"
  have "guard_or OutOfBounds (?m \<le> length (sbuf s) \<and> ?m \<le> length (sbuf t)) = Ok ()"
    using l(3,4) by (intro guard_or_True conjI) (simp_all add: min.strict_coboundedI1 min.strict_coboundedI2 less_imp_le)
  then have op: "sdscmp h a b = Ok r"
    unfolding sdscmp_def load_Some [OF assms(1)] load_Some [OF assms(3)] bnd.simps Let_def m p r_def by simp
  have "length (take ?m ?v) = length (take ?m ?w)" using l by simp
  note c = compare_eq [OF this]
  have "(r < 0 \<longleftrightarrow> ?v < ?w) \<and> (r = 0 \<longleftrightarrow> ?v = ?w) \<and> (r > 0 \<longleftrightarrow> ?v > ?w)"
    using r_def c [THEN conjunct1] c [THEN conjunct2] less_prefix [of ?v ?w, unfolded l(1,2)] eq_prefix [of ?v ?w, unfolded l(1,2)]
    by (rule cmp_sign)
  then show ?thesis using op by blast
qed

text \<open>Two strings of one heap.\<close>

definition ex_strings :: "sds_cell heap" where
  "ex_strings = \<lparr>cells = [0 \<mapsto> SdsBlock (new_header 1 2 ''foo'' \<lparr>sbuf := ''fo'' @ [NUL]\<rparr>),
                         1 \<mapsto> SdsBlock (new_header 1 3 (''foa'' @ [NUL]))], calls = 2, fails = (\<lambda>_. False)\<rparr>"

theorem cmp_is_lexicographic_witness:
  "\<exists>r. sdscmp ex_strings 0 1 = Ok r \<and> r < 0 \<and> ''fo'' < ''foa''"
proof -
  have ok: "sds_ok (new_header 1 2 ''foo'' \<lparr>sbuf := ''fo'' @ [NUL]\<rparr>)" "sds_ok (new_header 1 3 (''foa'' @ [NUL]))"
    by (simp_all add: sds_ok_def sds_wf_def new_header_def sds_type_def sdslen_def sdsalloc_def len_bits_def sds_consts)
  have v: "sds_val (new_header 1 2 ''foo'' \<lparr>sbuf := ''fo'' @ [NUL]\<rparr>) = ''fo''" "sds_val (new_header 1 3 (''foa'' @ [NUL])) = ''foa''"
    by (simp_all add: sds_val_def new_header_def sdslen_def sds_type_def len_bits_def sds_consts)
  show ?thesis
    using cmp_is_lexicographic [OF _ ok(1) _ ok(2), of ex_strings 0 1] unfolding v by (auto simp: ex_strings_def)
qed

text \<open>Sizes that wrap round are not caught. Asking for so much room that length and room together are 2 ^ 64
  passes the assertion meant to catch the overflow, and the string is cut to its terminator's byte
  while its header keeps the length.\<close>

lemma room_size_overflow:
  assumes "cells h a = Some (SdsBlock s)" and "sds_wf s" "sds_type s = SDS_TYPE_8" "0 < sdslen s"
    and "heap_ok h" and "\<not> fails h (calls h)"
  shows "\<exists>h' t. sdsMakeRoomFor h a (2 ^ 64 - sdslen s) = Ok (Some (calls h), h') \<and> cells h' (calls h) = Some (SdsBlock t)
    \<and> sdslen t = sdslen s \<and> sdsalloc t = 0 \<and> length (sbuf t) = 1"
proof -
  have b: "sdsalloc s < 256" "sdslen s \<le> sdsalloc s" "sdsalloc s < length (sbuf s)"
    using alloc_bounds(2) [OF assms(2)] assms(2,3) by (auto simp: sds_wf_def len_bits_def sds_consts)
  have na: "\<not> sdsavail s \<ge> 2 ^ 64 - sdslen s" using sdsavail_eq [OF assms(2)] b by simp
  have z: "to_size (int (sdslen s + (2 ^ 64 - sdslen s))) = 0" using b by (simp add: to_size_def)
  let ?t = "s\<lparr>sbuf := take 1 (sbuf s)\<rparr>" and ?g = "h\<lparr>calls := Suc (calls h), cells := (cells h)(a := None)\<rparr>"
  have ne: "calls h \<noteq> a" using assms(1,5) by (auto simp: heap_ok_def)
  have re: "realloc_sds h a 1 = Ok (Some (calls h), put ?g (calls h) ?t)"
    using assms(1,6) ne b
    by (auto simp: realloc_sds_def halloc_def hfree_def put_def fun_upd_twist min_def)
  have ty: "sds_type ?t = 1" "sdsHdrSize 1 = 3" using assms(3) by (simp_all add: sds_consts sdsHdrSize_def Let_def)
  have rt: "sdsReqType 0 = 0" by (simp add: sdsReqType_def sds_consts)
  have "sdsMakeRoomFor h a (2 ^ 64 - sdslen s) = Ok (Some (calls h), put ?g (calls h) (sdssetalloc 0 ?t))"
    unfolding sdsMakeRoomFor_def load_Some [OF assms(1)] bnd.simps Let_def if_not_P [OF na] z
    using re assms(3) ty(2) by (simp add: sds_consts rt)
  moreover have "sdslen (sdssetalloc 0 ?t) = sdslen s" "sdsalloc (sdssetalloc 0 ?t) = 0" "length (sbuf (sdssetalloc 0 ?t)) = 1"
    using ty(1) b assms(3) by (simp_all add: sdssetalloc_def sdslen_def sdsalloc_def sds_consts) (simp_all add: sds_type_def)
  ultimately show ?thesis by (intro exI [of _ "put ?g (calls h) (sdssetalloc 0 ?t)"] exI [of _ "sdssetalloc 0 ?t"]) simp
qed

lemma room_size_overflow_witness:
  "\<exists>h' t. sdsMakeRoomFor ex_strings 1 (2 ^ 64 - 3) = Ok (Some 2, h') \<and> cells h' 2 = Some (SdsBlock t)
    \<and> sdslen t = 3 \<and> sdsalloc t = 0 \<and> length (sbuf t) = 1"
proof -
  let ?s = "new_header 1 3 (''foa'' @ [NUL])"
  have s: "sds_wf ?s" "sds_type ?s = SDS_TYPE_8" "sdslen ?s = 3"
    by (simp_all add: sds_wf_def new_header_def sds_type_def sdslen_def sdsalloc_def len_bits_def sds_consts)
  have h: "cells ex_strings 1 = Some (SdsBlock ?s)" "heap_ok ex_strings" "calls ex_strings = 2" "\<not> fails ex_strings 2"
    by (auto simp: ex_strings_def heap_ok_def split: if_splits)
  show ?thesis using room_size_overflow [OF h(1) s(1,2) _ h(2)] s(3) h(3,4) by simp
qed

end
