(* ===== verification/Sds_Format.thy ===== *)
theory Sds_Format
  imports Sds_Text
begin

section \<open>Numbers and formats in dynamic strings\<close>

text \<open>
  The conversion of 64-bit numbers, and the two ways of appending formatted text: \<open>sdscatvprintf\<close>,
  which has the C library format into a buffer, and \<open>sdscatfmt\<close>, which formats by itself.
\<close>

subsection \<open>Numbers\<close>

definition SDS_LLSTR_SIZE :: nat where "SDS_LLSTR_SIZE = 21"

text \<open>The loop that writes the digits backwards, and the one that turns them round; \<open>p\<close> and \<open>s\<close> are offsets.\<close>

function digit_loop :: "bytes \<Rightarrow> nat \<Rightarrow> nat \<Rightarrow> (bytes \<times> nat) outcome" where
  "digit_loop b p v =
     bnd (write_at b p [char_of (48 + v mod 10)]) (\<lambda>b.
     if v div 10 \<noteq> 0 then digit_loop b (p + 1) (v div 10) else Ok (b, p + 1))"
  by pat_completeness auto
termination by (relation "measure (\<lambda>(b, p, v). v)") auto

function reverse_loop :: "bytes \<Rightarrow> nat \<Rightarrow> nat \<Rightarrow> bytes outcome" where
  "reverse_loop b s p =
     (if s < p then
        bnd (byte_at b s) (\<lambda>aux.
        bnd (byte_at b p) (\<lambda>c.
        bnd (write_at b s [c]) (\<lambda>b.
        bnd (write_at b p [aux]) (\<lambda>b. reverse_loop b (s + 1) (p - 1)))))
      else Ok b)"
  by pat_completeness auto
termination by (relation "measure (\<lambda>(b, s, p). p - s)") auto

declare digit_loop.simps [simp del] reverse_loop.simps [simp del]

definition sdsll2str :: "bytes \<Rightarrow> int \<Rightarrow> (nat \<times> bytes) outcome" where
  "sdsll2str s value =
     (let v = (if value < 0 then if value \<noteq> - (2 ^ 63) then to_size (- value) else (2 ^ 63 - 1) + 1
               else to_size value)
      in bnd (digit_loop s 0 v) (\<lambda>(s, p).
         bnd (if value < 0 then bnd (write_at s p ''-'') (\<lambda>s. Ok (s, p + 1)) else Ok (s, p)) (\<lambda>(s, p).
         bnd (write_at s p [NUL]) (\<lambda>s.
         bnd (reverse_loop s 0 (p - 1)) (\<lambda>s. Ok (p, s))))))"

definition sdsull2str :: "bytes \<Rightarrow> nat \<Rightarrow> (nat \<times> bytes) outcome" where
  "sdsull2str s v =
     bnd (digit_loop s 0 v) (\<lambda>(s, p).
     bnd (write_at s p [NUL]) (\<lambda>s.
     bnd (reverse_loop s 0 (p - 1)) (\<lambda>s. Ok (p, s))))"

text \<open>The contents of a local array are undefined; here they are NUL.\<close>

definition sdsfromlonglong :: "sds_cell heap \<Rightarrow> int \<Rightarrow> (addr option \<times> sds_cell heap) outcome" where
  "sdsfromlonglong h value =
     bnd (sdsll2str (replicate SDS_LLSTR_SIZE NUL) value) (\<lambda>(len, buf). sdsnewlen h (Init (Bytes buf)) len)"

subsection \<open>Formatting by the C library\<close>

text \<open>\<open>rendered\<close> is what \<open>vsnprintf\<close> makes of the format and the arguments, None for an error; a text of more than
  \<open>INT_MAX\<close> characters is one. A buffer is the static one (None) or a block of the heap.\<close>

definition write_buffer :: "sds_cell heap \<Rightarrow> bytes \<Rightarrow> addr option \<Rightarrow> bytes \<Rightarrow> (bytes \<times> sds_cell heap) outcome" where
  "write_buffer h staticbuf buf bs =
     (case buf of
        None \<Rightarrow> bnd (write_at staticbuf 0 bs) (\<lambda>b. Ok (b, h))
      | Some a \<Rightarrow> bnd (hload h a) (\<lambda>x. bnd (as_chars x) (\<lambda>b. bnd (write_at b 0 bs) (\<lambda>b.
                  bnd (hstore h a (CharBlock b)) (\<lambda>h. Ok (staticbuf, h))))))"

function vprintf_loop :: "sds_cell heap \<Rightarrow> bytes option \<Rightarrow> bytes \<Rightarrow> addr option \<Rightarrow> nat
    \<Rightarrow> ((nat \<times> bytes \<times> addr option) option \<times> sds_cell heap) outcome" where
  "vprintf_loop h rendered staticbuf buf buflen =
     (case rendered of
        None \<Rightarrow> bnd (hfree h buf) (\<lambda>h. Ok (None, h))
      | Some t \<Rightarrow>
          bnd (write_buffer h staticbuf buf (take (buflen - 1) t @ [NUL])) (\<lambda>(staticbuf, h).
          if length t \<ge> buflen then
            bnd (hfree h buf) (\<lambda>h.
            case halloc h (CharBlock (replicate (length t + 1) NUL)) of
              (None, h) \<Rightarrow> Ok (None, h)
            | (Some a, h) \<Rightarrow> vprintf_loop h rendered staticbuf (Some a) (length t + 1))
          else Ok (Some (length t, staticbuf, buf), h)))"
  by pat_completeness auto
termination
  by (relation "measure (\<lambda>(h, r, b, a, n). case r of None \<Rightarrow> 0 | Some t \<Rightarrow> length t + 1 - n)") auto

declare vprintf_loop.simps [simp del]

definition sdscatvprintf :: "sds_cell heap \<Rightarrow> addr \<Rightarrow> bytes \<Rightarrow> bytes option \<Rightarrow> (addr option \<times> sds_cell heap) outcome" where
  "sdscatvprintf h s fmt rendered =
     bnd (cstr_at fmt 0) (\<lambda>f.
     let buflen = to_size (int (length f * 2));
         staticbuf = replicate 1024 NUL;
         rendered = (case rendered of Some t \<Rightarrow> if length t < 2 ^ 31 then Some t else None | None \<Rightarrow> None);
         run = (\<lambda>h buf buflen.
           bnd (vprintf_loop h rendered staticbuf buf buflen) (\<lambda>(r, h).
           case r of
             None \<Rightarrow> Ok (None, h)
           | Some (bufstrlen, staticbuf, buf) \<Rightarrow>
               bnd (sdscatlen h s (case buf of None \<Rightarrow> Bytes staticbuf | Some a \<Rightarrow> Chars a) bufstrlen) (\<lambda>(t, h).
               bnd (hfree h buf) (\<lambda>h. Ok (t, h)))))
     in if buflen > 1024 then
          (case halloc h (CharBlock (replicate buflen NUL)) of
             (None, h) \<Rightarrow> Ok (None, h)
           | (Some a, h) \<Rightarrow> run h (Some a) buflen)
        else run h None 1024)"

definition sdscatprintf :: "sds_cell heap \<Rightarrow> addr \<Rightarrow> bytes \<Rightarrow> bytes option \<Rightarrow> (addr option \<times> sds_cell heap) outcome" where
  "sdscatprintf h s fmt rendered = sdscatvprintf h s fmt rendered"

subsection \<open>Formatting without it\<close>

text \<open>The variable arguments, by the type that \<open>va_arg\<close> asks for; another type is undefined.\<close>

datatype fmt_arg =
    FmtString bytes
  | FmtSds addr
  | FmtInt int
  | FmtLong int
  | FmtUInt nat
  | FmtULong nat

text \<open>The characters to append for a conversion, with their number.\<close>

fun fmt_source :: "sds_cell heap \<Rightarrow> char \<Rightarrow> fmt_arg list \<Rightarrow> (source \<times> nat \<times> fmt_arg list) outcome" where
  "fmt_source h next [] = Fault BadLibCall"
| "fmt_source h next (arg # args) =
     (case arg of
        FmtString str \<Rightarrow> bnd (guard_or BadLibCall (next = CHR ''s'')) (\<lambda>_.
          bnd (cstr_at str 0) (\<lambda>t. Ok (Bytes str, length t, args)))
      | FmtSds str \<Rightarrow> bnd (guard_or BadLibCall (next = CHR ''S'')) (\<lambda>_.
          bnd (load_sds h str) (\<lambda>s. Ok (Chars str, sdslen s, args)))
      | FmtInt num \<Rightarrow> bnd (guard_or BadLibCall (next = CHR ''i'')) (\<lambda>_.
          bnd (sdsll2str (replicate SDS_LLSTR_SIZE NUL) num) (\<lambda>(l, buf). Ok (Bytes buf, l, args)))
      | FmtLong num \<Rightarrow> bnd (guard_or BadLibCall (next = CHR ''I'')) (\<lambda>_.
          bnd (sdsll2str (replicate SDS_LLSTR_SIZE NUL) num) (\<lambda>(l, buf). Ok (Bytes buf, l, args)))
      | FmtUInt unum \<Rightarrow> bnd (guard_or BadLibCall (next = CHR ''u'')) (\<lambda>_.
          bnd (sdsull2str (replicate SDS_LLSTR_SIZE NUL) unum) (\<lambda>(l, buf). Ok (Bytes buf, l, args)))
      | FmtULong unum \<Rightarrow> bnd (guard_or BadLibCall (next = CHR ''U'')) (\<lambda>_.
          bnd (sdsull2str (replicate SDS_LLSTR_SIZE NUL) unum) (\<lambda>(l, buf). Ok (Bytes buf, l, args))))"

text \<open>A NULL from \<open>sdsMakeRoomFor\<close> is not checked before the string is written.\<close>

definition fmt_append :: "sds_cell heap \<Rightarrow> addr \<Rightarrow> nat \<Rightarrow> source \<Rightarrow> nat \<Rightarrow> (addr \<times> sds_cell heap) outcome" where
  "fmt_append h a i t l =
     bnd (load_sds h a) (\<lambda>s.
     bnd (if sdsavail s < l then sdsMakeRoomFor h a l else Ok (Some a, h)) (\<lambda>(r, h).
     bnd (deref r) (\<lambda>a.
     bnd (read_source h t l) (\<lambda>bs.
     bnd (write_sds h a i bs) (\<lambda>h.
     bnd (update_sds h a (sdsinclen l)) (\<lambda>h. Ok (a, h)))))))"

definition fmt_put :: "sds_cell heap \<Rightarrow> addr \<Rightarrow> nat \<Rightarrow> char \<Rightarrow> sds_cell heap outcome" where
  "fmt_put h a i c = bnd (write_sds h a i [c]) (\<lambda>h. update_sds h a (sdsinclen 1))"

definition fmt_room :: "sds_cell heap \<Rightarrow> addr \<Rightarrow> (addr \<times> sds_cell heap) outcome" where
  "fmt_room h a =
     bnd (load_sds h a) (\<lambda>s.
     bnd (if sdsavail s = 0 then sdsMakeRoomFor h a 1 else Ok (Some a, h)) (\<lambda>(r, h).
     bnd (deref r) (\<lambda>a. Ok (a, h))))"

text \<open>The loop over the format, from \<open>f\<close> to its terminator; \<open>i\<close> is the position in the string.\<close>

fun fmt_loop :: "sds_cell heap \<Rightarrow> addr \<Rightarrow> nat \<Rightarrow> bytes \<Rightarrow> fmt_arg list \<Rightarrow> (addr \<times> nat \<times> sds_cell heap) outcome" where
  "fmt_loop h a i [] args = Ok (a, i, h)"
| "fmt_loop h a i (c # f) args =
     bnd (fmt_room h a) (\<lambda>(a, h).
     if c = CHR ''%'' then
       (case f of
          [] \<Rightarrow> Ok (a, i, h)
        | next # f \<Rightarrow>
            if next \<in> set ''sSiIuU'' then
              bnd (fmt_source h next args) (\<lambda>(t, l, args).
              bnd (fmt_append h a i t l) (\<lambda>(a, h). fmt_loop h a (i + l) f args))
            else bnd (fmt_put h a i next) (\<lambda>h. fmt_loop h a (i + 1) f args))
     else bnd (fmt_put h a i c) (\<lambda>h. fmt_loop h a (i + 1) f args))"

definition sdscatfmt :: "sds_cell heap \<Rightarrow> addr \<Rightarrow> bytes \<Rightarrow> fmt_arg list \<Rightarrow> (addr \<times> sds_cell heap) outcome" where
  "sdscatfmt h a fmt args =
     bnd (load_sds h a) (\<lambda>s.
     bnd (cstr_at fmt 0) (\<lambda>f.
     bnd (sdsMakeRoomFor h a (to_size (int (sdslen s + length f * 2)))) (\<lambda>(r, h).
     bnd (deref r) (\<lambda>a.
     bnd (fmt_loop h a (sdslen s) f args) (\<lambda>(a, i, h).
     bnd (write_sds h a i [NUL]) (\<lambda>h. Ok (a, h)))))))"

subsection \<open>What the numbers look like\<close>

lemma length_digits_le: "2 \<le> b \<Longrightarrow> n < b ^ Suc k \<Longrightarrow> length (digits b n) \<le> Suc k"
proof (induction k arbitrary: n)
  case (Suc k)
  then have "n div b < b ^ Suc k" by (simp add: less_mult_imp_div_less mult.commute)
  then show ?case using Suc by (simp add: digits.simps [of b n])
qed (simp add: digits.simps)

lemma digit_char_ten:
  assumes "d < 10"
  shows "char_of (48 + d :: nat) = digit_char d"
proof -
  have "list_all (\<lambda>d. char_of (48 + d :: nat) = digit_char d) [0..<10]"
    by code_simp
  then show ?thesis using assms by (simp add: list_all_iff)
qed

lemma digit_loop_eq:
  "p + length (digits 10 v) \<le> length b \<Longrightarrow>
    digit_loop b p v = Ok (take p b @ rev (digits 10 v) @ drop (p + length (digits 10 v)) b, p + length (digits 10 v))"
proof (induction b p v rule: digit_loop.induct)
  case (1 b p v)
  let ?b = "take p b @ [char_of (48 + v mod 10)] @ drop (p + 1) b"
  have l: "0 < length (digits 10 v)" by (simp add: digits.simps [of 10 v])
  then have w: "write_at b p [char_of (48 + v mod 10)] = Ok ?b"
    using 1(2) by (simp add: write_at_def del: length_greater_0_conv)
  have c: "char_of (48 + v mod 10) = digit_char (v mod 10)" by (rule digit_char_ten) simp
  show ?case
  proof (cases "v div 10 = 0")
    case True
    then have "v < 10" by presburger
    then show ?thesis using w c by (simp add: digit_loop.simps [of b p v] digits.simps [of 10 v])
  next
    case False
    have "\<not> v < 10" using False by (intro notI) simp
    then have d: "digits 10 v = digits 10 (v div 10) @ [digit_char (v mod 10)]" by (simp add: digits.simps [of 10 v])
    have "p + 1 + length (digits 10 (v div 10)) \<le> length ?b" using 1(2) unfolding d by simp
    note ih = 1(1) [OF w _ this]
    have "digit_loop b p v = digit_loop ?b (p + 1) (v div 10)"
      using False w by (simp add: digit_loop.simps [of b p v])
    also have "... = Ok (take (p + 1) ?b @ rev (digits 10 (v div 10)) @ drop (p + 1 + length (digits 10 (v div 10))) ?b,
        p + 1 + length (digits 10 (v div 10)))"
      using ih False by blast
    also have "take (p + 1) ?b = take p b @ [digit_char (v mod 10)]" using 1(2) d c by simp
    also have "drop (p + 1 + length (digits 10 (v div 10))) ?b = drop (p + length (digits 10 v)) b"
      using 1(2) d by (simp add: add.commute)
    finally show ?thesis unfolding d by simp
  qed
qed

lemma reverse_loop_eq:
  "reverse_loop (pre @ mid @ post) (length pre) (length pre + length mid - 1) = Ok (pre @ rev mid @ post)"
proof (induction "length mid" arbitrary: pre mid post rule: less_induct)
  case less
  show ?case
  proof (cases "length mid < 2")
    case True
    then have "rev mid = mid" by (cases mid) auto
    moreover have "\<not> length pre < length pre + length mid - 1" using True by arith
    ultimately show ?thesis by (simp add: reverse_loop.simps)
  next
    case False
    then obtain x m y where mid: "mid = x # m @ [y]"
      by (cases mid; cases "tl mid" rule: rev_cases) auto
    let ?p = "length pre + length mid - 1"
    have p: "?p = length pre + length m + 1" by (simp add: mid)
    have e: "byte_at (pre @ mid @ post) (length pre) = Ok x" "byte_at (pre @ mid @ post) ?p = Ok y"
      unfolding p by (simp_all add: mid byte_at_def nth_append)
    have w1: "write_at (pre @ mid @ post) (length pre) [y] = Ok (pre @ (y # m @ [y]) @ post)"
      by (simp add: mid write_at_def)
    have w2: "write_at (pre @ (y # m @ [y]) @ post) ?p [x] = Ok ((pre @ [y]) @ m @ (x # post))"
      unfolding p by (simp add: write_at_def)
    have "reverse_loop (pre @ mid @ post) (length pre) ?p
        = reverse_loop ((pre @ [y]) @ m @ (x # post)) (length pre + 1) (?p - 1)"
      using e w1 w2 p by (subst reverse_loop.simps) simp
    also have "... = reverse_loop ((pre @ [y]) @ m @ (x # post)) (length (pre @ [y])) (length (pre @ [y]) + length m - 1)"
      unfolding p by simp
    also have "... = Ok ((pre @ [y]) @ rev m @ (x # post))"
      using less [of m "pre @ [y]" "x # post"] by (simp only: mid) simp
    finally show ?thesis by (simp add: mid)
  qed
qed

text \<open>Both conversions, from the digits on.\<close>

lemma finish_number:
  assumes "0 < length t" and "length t < length b"
  shows "bnd (write_at (rev t @ drop (length t) b) (length t) [NUL]) (\<lambda>s. bnd (reverse_loop s 0 (length t - 1)) (\<lambda>s. Ok (length t, s)))
    = Ok (length t, t @ NUL # drop (length t + 1) b)"
proof -
  have "write_at (rev t @ drop (length t) b) (length t) [NUL] = Ok ([] @ rev t @ (NUL # drop (length t + 1) b))"
    using assms(2) by (simp add: write_at_def)
  moreover have "reverse_loop ([] @ rev t @ (NUL # drop (length t + 1) b)) (length ([] :: bytes)) (length ([] :: bytes) + length (rev t) - 1)
      = Ok ([] @ rev (rev t) @ (NUL # drop (length t + 1) b))"
    by (rule reverse_loop_eq)
  ultimately show ?thesis by simp
qed

lemma digits_length: "0 < length (digits b n)"
  by (simp add: digits.simps [of b n])

lemma ull_text:
  assumes "length (digits 10 v) < length b"
  shows "sdsull2str b v = Ok (length (digits 10 v), digits 10 v @ NUL # drop (length (digits 10 v) + 1) b)"
  using assms digit_loop_eq [of 0 v b] finish_number [OF digits_length assms] by (simp add: sdsull2str_def)

lemma ll_text:
  assumes "length (print_signed v) < length b" and "- (2 ^ 63) \<le> v" "v < 2 ^ 63"
  shows "sdsll2str b v = Ok (length (print_signed v), print_signed v @ NUL # drop (length (print_signed v) + 1) b)"
proof -
  let ?n = "nat \<bar>v\<bar>" and ?t = "print_signed v"
  have abs: "(if v < 0 then if v \<noteq> - (2 ^ 63) then to_size (- v) else (2 ^ 63 - 1) + 1 else to_size v) = ?n"
    using assms(2,3) by (auto simp: to_size_nonneg)
  have l: "length (digits 10 ?n) \<le> length ?t" "0 < length ?t" using digits_length by (auto simp: print_signed_def)
  then have d: "digit_loop b 0 ?n = Ok (rev (digits 10 ?n) @ drop (length (digits 10 ?n)) b, length (digits 10 ?n))"
    using digit_loop_eq [of 0 ?n b] assms(1) by simp
  have s: "bnd (if v < 0 then bnd (write_at (rev (digits 10 ?n) @ drop (length (digits 10 ?n)) b) (length (digits 10 ?n)) ''-'')
        (\<lambda>s. Ok (s, length (digits 10 ?n) + 1)) else Ok (rev (digits 10 ?n) @ drop (length (digits 10 ?n)) b, length (digits 10 ?n))) k
      = k (rev ?t @ drop (length ?t) b, length ?t)" for k :: "bytes \<times> nat \<Rightarrow> (nat \<times> bytes) outcome"
    using assms(1) by (auto simp: print_signed_def write_at_def drop_Suc [symmetric])
  show ?thesis
    unfolding sdsll2str_def Let_def abs d bnd.simps prod.case s by (rule finish_number [OF l(2) assms(1)])
qed

lemma ll_length: "- (2 ^ 63) \<le> v \<Longrightarrow> v < 2 ^ 63 \<Longrightarrow> length (print_signed v) \<le> 20"
proof -
  assume v: "- (2 ^ 63) \<le> v" "v < 2 ^ 63"
  then have "nat \<bar>v\<bar> < 10 ^ Suc 18" by (simp add: nat_less_iff)
  then have "length (digits 10 (nat \<bar>v\<bar>)) \<le> Suc 18" by (intro length_digits_le) simp_all
  then show ?thesis by (cases "v < 0") (simp_all add: print_signed_def)
qed

lemma ull_length: "v < 2 ^ 64 \<Longrightarrow> length (digits 10 v) \<le> 20"
  using length_digits_le [of 10 v 19] by simp

subsection \<open>Formatting by the C library\<close>

text \<open>Whatever block the buffer is, its text can be read, and it can be freed.\<close>

definition buffer_ok :: "sds_cell heap \<Rightarrow> bytes \<Rightarrow> addr option \<Rightarrow> nat \<Rightarrow> bool" where
  "buffer_ok h st buf n \<longleftrightarrow> 0 < n \<and> (case buf of None \<Rightarrow> n \<le> length st | Some b \<Rightarrow> \<exists>bs. cells h b = Some (CharBlock bs) \<and> length bs = n)"

text \<open>The heap \<open>h'\<close> is \<open>h\<close> with at most the buffer more.\<close>

definition beside :: "sds_cell heap \<Rightarrow> sds_cell heap \<Rightarrow> addr option \<Rightarrow> bool" where
  "beside h h' buf \<longleftrightarrow> heap_ok h' \<and> fails h' = fails h
     \<and> (case buf of None \<Rightarrow> cells h' = cells h | Some b \<Rightarrow> cells h b = None \<and> (\<exists>x. cells h' = (cells h)(b \<mapsto> x)))"

lemma beside_free: "beside h h' buf \<Longrightarrow> \<exists>h''. hfree h' buf = Ok h'' \<and> beside h h'' None"
  by (auto simp: beside_def hfree_def heap_ok_def fun_upd_idem split: option.splits)

lemma beside_alloc:
  assumes "beside h h' None"
  shows "halloc h' x = (None, h'') \<Longrightarrow> beside h h'' None \<and> \<not> no_fail h"
    and "halloc h' x = (Some b, h'') \<Longrightarrow> beside h h'' (Some b) \<and> cells h'' b = Some x"
proof -
  have f: "cells h (calls h') = None" using assms heap_ok_fresh [of h'] by (simp add: beside_def)
  show "halloc h' x = (None, h'') \<Longrightarrow> beside h h'' None \<and> \<not> no_fail h"
    using assms by (auto simp: beside_def halloc_def no_fail_def heap_ok_def less_Suc_eq split: if_splits)
  show "halloc h' x = (Some b, h'') \<Longrightarrow> beside h h'' (Some b) \<and> cells h'' b = Some x"
    using assms f by (auto simp: beside_def halloc_def heap_ok_def less_Suc_eq split: if_splits)
qed

text \<open>\<open>t\<close> is at the start of the buffer.\<close>

definition buffer_holds :: "sds_cell heap \<Rightarrow> bytes \<Rightarrow> addr option \<Rightarrow> bytes \<Rightarrow> bool" where
  "buffer_holds h st buf t \<longleftrightarrow>
     (case buf of None \<Rightarrow> \<exists>rest. st = t @ rest | Some b \<Rightarrow> \<exists>rest. cells h b = Some (CharBlock (t @ rest)))"

lemma write_buffer_ok:
  assumes "beside h h' buf" and "buffer_ok h' st buf n" and "length bs \<le> n"
  shows "\<exists>st' h''. write_buffer h' st buf bs = Ok (st', h'') \<and> beside h h'' buf \<and> buffer_ok h'' st' buf n
    \<and> buffer_holds h'' st' buf bs \<and> length st' = length st"
  using assms
  by (cases buf) (auto simp: write_buffer_def write_at_def beside_def buffer_ok_def buffer_holds_def heap_ok_def hstore_def)

text \<open>The loop fits the text into its buffer, or runs out of memory; it changes nothing but the buffer.\<close>

lemma vprintf_loop_ok:
  assumes "beside h h' buf" and "buffer_ok h' st buf n"
  shows "(\<exists>h''. vprintf_loop h' (Some t) st buf n = Ok (None, h'') \<and> beside h h'' None \<and> \<not> no_fail h)
    \<or> (\<exists>st' buf' h''. vprintf_loop h' (Some t) st buf n = Ok (Some (length t, st', buf'), h'')
         \<and> beside h h'' buf' \<and> buffer_holds h'' st' buf' t)"
proof -
  have fits: "\<exists>st' h''. vprintf_loop h' (Some t) st buf n = Ok (Some (length t, st', buf), h'')
      \<and> beside h h'' buf \<and> buffer_holds h'' st' buf t"
    if "beside h h' buf" "buffer_ok h' st buf n" "length t < n" for h' st buf n
  proof -
    note p = that
    have "0 < n" using p(2) by (simp add: buffer_ok_def)
    then have "length (take (n - 1) t @ [NUL]) \<le> n" by simp
    then obtain st' h'' where w: "write_buffer h' st buf (take (n - 1) t @ [NUL]) = Ok (st', h'')" "beside h h'' buf"
      "buffer_holds h'' st' buf (take (n - 1) t @ [NUL])"
      using write_buffer_ok [OF p(1,2)] by blast
    have "take (n - 1) t = t" using p(3) by simp
    then have "buffer_holds h'' st' buf t" using w(3) by (auto simp: buffer_holds_def split: option.splits)
    then show ?thesis using w(1,2) p(3) by (simp add: vprintf_loop.simps [of h' "Some t" st buf n])
  qed
  show ?thesis
  proof (cases "length t < n")
    case True
    then show ?thesis using fits [OF assms] by blast
  next
    case False
    have "0 < n" using assms(2) by (simp add: buffer_ok_def)
    then have "length (take (n - 1) t @ [NUL]) \<le> n" by simp
    then obtain st' h1 where w: "write_buffer h' st buf (take (n - 1) t @ [NUL]) = Ok (st', h1)" "beside h h1 buf"
      using write_buffer_ok [OF assms] by blast
    obtain h2 where f: "hfree h1 buf = Ok h2" "beside h h2 None" using beside_free [OF w(2)] by blast
    let ?x = "CharBlock (replicate (length t + 1) NUL)"
    obtain r h3 where al: "halloc h2 ?x = (r, h3)" by fastforce
    have u: "vprintf_loop h' (Some t) st buf n =
        (case r of None \<Rightarrow> Ok (None, h3) | Some a \<Rightarrow> vprintf_loop h3 (Some t) st' (Some a) (length t + 1))"
      using False w(1) f(1) al by (subst vprintf_loop.simps) (simp split: option.splits)
    show ?thesis
    proof (cases r)
      case None
      then show ?thesis using u beside_alloc(1) [OF f(2)] al by auto
    next
      case (Some b)
      then have b: "beside h h3 (Some b)" "cells h3 b = Some ?x" using beside_alloc(2) [OF f(2)] al by simp_all
      then have "buffer_ok h3 st' (Some b) (length t + 1)" by (simp add: buffer_ok_def)
      then show ?thesis using fits [OF b(1)] u Some by fastforce
    qed
  qed
qed

lemma beside_gives:
  assumes "beside h h' buf" and "gives h' a P (r :: (addr option \<times> sds_cell heap) outcome)" and "cells h a \<noteq> None"
  shows "gives h a P (bnd r (\<lambda>(t, h). bnd (hfree h buf) (\<lambda>h. Ok (t, h))))"
proof (cases buf)
  case None
  then show ?thesis using assms by (auto simp: gives_def beside_def moved_def no_fail_def)
next
  case (Some b)
  then obtain x where x: "cells h' = (cells h)(b \<mapsto> x)" "cells h b = None" "fails h' = fails h" using assms(1) by (auto simp: beside_def)
  have ne: "a \<noteq> b" using x(2) assms(3) by auto
  show ?thesis
    using assms(2) unfolding gives_def
  proof (elim disjE exE conjE)
    fix g assume g: "r = Ok (None, g)" "cells g = cells h'" "heap_ok g" "fails g = fails h'" "\<not> no_fail h'"
    let ?g = "g\<lparr>cells := (cells g)(b := None)\<rparr>"
    have "hfree g (Some b) = Ok ?g" using g(2) x(1) by (simp add: hfree_def)
    moreover have "heap_ok ?g" using g(3) by (rule heap_ok_delete)
    moreover have "cells ?g = cells h" "fails ?g = fails h" "\<not> no_fail h"
      using g x by (auto simp: no_fail_def fun_upd_idem)
    ultimately have "bnd r (\<lambda>(t, h). bnd (hfree h buf) (\<lambda>h. Ok (t, h))) = Ok (None, ?g) \<and> cells ?g = cells h \<and> heap_ok ?g
        \<and> fails ?g = fails h \<and> \<not> no_fail h" using g(1) Some by simp
    then show "(\<exists>h'. bnd r (\<lambda>(t, h). bnd (hfree h buf) (\<lambda>h. Ok (t, h))) = Ok (None, h') \<and> cells h' = cells h \<and> heap_ok h'
          \<and> fails h' = fails h \<and> \<not> no_fail h)
        \<or> (\<exists>a' h' s. bnd r (\<lambda>(t, h). bnd (hfree h buf) (\<lambda>h. Ok (t, h))) = Ok (Some a', h') \<and> moved h a h' a' s \<and> P s)"
      by blast
  next
    fix a' g s assume g: "r = Ok (Some a', g)" "moved h' a g a' s" "P s"
    have nb: "a' \<noteq> b" using g(2) ne x(1) by (auto simp: moved_def)
    have c: "(cells g)(b := None) = ((cells h)(a := None))(a' \<mapsto> SdsBlock s)"
      using g(2) x(1,2) ne nb by (auto simp: moved_def fun_eq_iff)
    have fr: "hfree g (Some b) = Ok (g\<lparr>cells := (cells g)(b := None)\<rparr>)" using g(2) x(1) ne nb by (simp add: hfree_def moved_def)
    have "heap_ok (g\<lparr>cells := (cells g)(b := None)\<rparr>)" using g(2) by (intro heap_ok_delete) (simp add: moved_def)
    moreover have "a' = a \<or> cells h a' = None" "fails g = fails h"
      using g(2) x nb by (auto simp: moved_def split: if_splits)
    ultimately have "moved h a (g\<lparr>cells := (cells g)(b := None)\<rparr>) a' s"
      using c by (simp add: moved_def)
    then show "(\<exists>h'. bnd r (\<lambda>(t, h). bnd (hfree h buf) (\<lambda>h. Ok (t, h))) = Ok (None, h') \<and> cells h' = cells h \<and> heap_ok h'
          \<and> fails h' = fails h \<and> \<not> no_fail h)
        \<or> (\<exists>a' h' s. bnd r (\<lambda>(t, h). bnd (hfree h buf) (\<lambda>h. Ok (t, h))) = Ok (Some a', h') \<and> moved h a h' a' s \<and> P s)"
      using g fr Some by (intro disjI2) auto
  qed
qed

lemma beside_refl: "heap_ok h \<Longrightarrow> beside h h None"
  by (simp add: beside_def)

lemma vprintf_error:
  assumes "beside h h' buf"
  shows "\<exists>h''. vprintf_loop h' None st buf n = Ok (None, h'') \<and> beside h h'' None"
  using beside_free [OF assms] by (auto simp: vprintf_loop.simps [of h' None])

text \<open>From any buffer on.\<close>

lemma vprintf_cat:
  assumes "cells h a = Some (SdsBlock s)" and "sds_wf s" and "heap_ok h" and "sdslen s + length t < 2 ^ 62"
    and "beside h h' buf" and "buffer_ok h' st buf n"
  shows "gives h a (is_str (sds_val s @ t))
    (bnd (vprintf_loop h' (Some t) st buf n) (\<lambda>(r, h).
      case r of None \<Rightarrow> Ok (None, h)
      | Some (l, st, buf) \<Rightarrow> bnd (sdscatlen h a (case buf of None \<Rightarrow> Bytes st | Some b \<Rightarrow> Chars b) l) (\<lambda>(t, h).
          bnd (hfree h buf) (\<lambda>h. Ok (t, h)))))"
  using vprintf_loop_ok [OF assms(5,6), of t]
proof (elim disjE exE conjE)
  fix g assume "vprintf_loop h' (Some t) st buf n = Ok (None, g)" "beside h g None" "\<not> no_fail h"
  then show ?thesis by (auto simp: gives_def beside_def)
next
  fix st' buf' g assume l: "vprintf_loop h' (Some t) st buf n = Ok (Some (length t, st', buf'), g)"
    and b: "beside h g buf'" and t: "buffer_holds g st' buf' t"
  have ga: "cells g a = Some (SdsBlock s)" "heap_ok g" using b assms(1) by (auto simp: beside_def split: option.splits)
  have "reads g a (case buf' of None \<Rightarrow> Bytes st' | Some b \<Rightarrow> Chars b) t"
    using t ga(1) by (auto simp: buffer_holds_def split: option.splits)
  note catlen_gives [OF ga(1) assms(2) ga(2) assms(4) this]
  then show ?thesis using beside_gives [OF b] assms(1) l by simp
qed

lemma catvprintf_gives:
  assumes "cells h a = Some (SdsBlock s)" and "sds_wf s" and "heap_ok h" and "sdslen s + length t < 2 ^ 62"
    and "length t < 2 ^ 31" and "cstr_at fmt 0 = Ok f"
  shows "gives h a (is_str (sds_val s @ t)) (sdscatvprintf h a fmt (Some t))"
proof -
  define n where "n = to_size (int (length f * 2))"
  have r: "(case Some t of Some t \<Rightarrow> if length t < 2 ^ 31 then Some t else None | None \<Rightarrow> None) = Some t"
    using assms(5) by simp
  note go = vprintf_cat [OF assms(1-4)]
  have small: "buffer_ok h (replicate 1024 NUL) None 1024" by (simp add: buffer_ok_def)
  show ?thesis
  proof (cases "1024 < n")
    case False
    show ?thesis
      unfolding sdscatvprintf_def assms(6) bnd.simps Let_def n_def [symmetric] r if_not_P [OF False]
      by (rule go [OF beside_refl [OF assms(3)] small])
  next
    case True
    obtain p h' where al: "halloc h (CharBlock (replicate n NUL)) = (p, h')" by fastforce
    show ?thesis
    proof (cases p)
      case None
      have "beside h h' None \<and> \<not> no_fail h" using beside_alloc(1) [OF beside_refl [OF assms(3)]] al None by simp
      then have "gives h a (is_str (sds_val s @ t)) (Ok (None, h'))" by (auto simp: gives_def beside_def)
      then show ?thesis
        unfolding sdscatvprintf_def assms(6) bnd.simps Let_def n_def [symmetric] r if_P [OF True] al None
        by simp
    next
      case (Some b)
      have b: "beside h h' (Some b)" "cells h' b = Some (CharBlock (replicate n NUL))"
        using beside_alloc(2) [OF beside_refl [OF assms(3)]] al Some by simp_all
      have "buffer_ok h' (replicate 1024 NUL) (Some b) n" using b(2) True by (simp add: buffer_ok_def)
      note go [OF b(1) this]
      then show ?thesis
        unfolding sdscatvprintf_def assms(6) bnd.simps Let_def n_def [symmetric] r if_P [OF True] al Some prod.case option.case
          if_P [OF assms(5)] .
    qed
  qed
qed

subsection \<open>Formatting without it\<close>

text \<open>The text of an argument, and that of a format.\<close>

fun arg_text :: "(addr \<Rightarrow> sds_cell option) \<Rightarrow> fmt_arg \<Rightarrow> bytes" where
  "arg_text c (FmtString b) = until_nul b"
| "arg_text c (FmtSds t) = (case c t of Some (SdsBlock s) \<Rightarrow> sds_val s | _ \<Rightarrow> [])"
| "arg_text c (FmtInt i) = print_signed i"
| "arg_text c (FmtLong i) = print_signed i"
| "arg_text c (FmtUInt n) = digits 10 n"
| "arg_text c (FmtULong n) = digits 10 n"

fun fmt_text :: "(addr \<Rightarrow> sds_cell option) \<Rightarrow> bytes \<Rightarrow> fmt_arg list \<Rightarrow> bytes" where
  "fmt_text c [] args = []"
| "fmt_text c (ch # f) args =
     (if ch = CHR ''%'' then
        (case f of
           [] \<Rightarrow> []
         | next # f \<Rightarrow> if next \<in> set ''sSiIuU''
                     then (case args of [] \<Rightarrow> [] | x # args \<Rightarrow> arg_text c x @ fmt_text c f args)
                     else next # fmt_text c f args)
      else ch # fmt_text c f args)"

text \<open>An argument of the type that its conversion asks for.\<close>

fun arg_ok :: "(addr \<Rightarrow> sds_cell option) \<Rightarrow> char \<Rightarrow> fmt_arg \<Rightarrow> bool" where
  "arg_ok c ch (FmtString b) \<longleftrightarrow> ch = CHR ''s'' \<and> NUL \<in> set b"
| "arg_ok c ch (FmtSds t) \<longleftrightarrow> ch = CHR ''S'' \<and> (case c t of Some (SdsBlock s) \<Rightarrow> sds_wf s | _ \<Rightarrow> False)"
| "arg_ok c ch (FmtInt i) \<longleftrightarrow> ch = CHR ''i'' \<and> - (2 ^ 31) \<le> i \<and> i < 2 ^ 31"
| "arg_ok c ch (FmtLong i) \<longleftrightarrow> ch = CHR ''I'' \<and> - (2 ^ 63) \<le> i \<and> i < 2 ^ 63"
| "arg_ok c ch (FmtUInt n) \<longleftrightarrow> ch = CHR ''u'' \<and> n < 2 ^ 32"
| "arg_ok c ch (FmtULong n) \<longleftrightarrow> ch = CHR ''U'' \<and> n < 2 ^ 64"

fun args_ok :: "(addr \<Rightarrow> sds_cell option) \<Rightarrow> bytes \<Rightarrow> fmt_arg list \<Rightarrow> bool" where
  "args_ok c [] args = True"
| "args_ok c (ch # f) args =
     (if ch = CHR ''%'' then
        (case f of
           [] \<Rightarrow> True
         | next # f \<Rightarrow> if next \<in> set ''sSiIuU''
                     then (case args of [] \<Rightarrow> False | x # args \<Rightarrow> arg_ok c next x \<and> args_ok c f args)
                     else args_ok c f args)
      else args_ok c f args)"

text \<open>A string that is being written: its terminator is missing.\<close>

definition open_str :: "(addr \<Rightarrow> sds_cell option) \<Rightarrow> sds_cell heap \<Rightarrow> addr \<Rightarrow> bytes \<Rightarrow> sds_block \<Rightarrow> bool" where
  "open_str c h a v s \<longleftrightarrow> cells h = c(a \<mapsto> SdsBlock s) \<and> sds_wf s \<and> sds_val s = v \<and> c a = None \<and> heap_ok h \<and> no_fail h"

lemma open_strD:
  assumes "open_str c h a v s"
  shows "cells h a = Some (SdsBlock s)" "sdslen s = length v" "sds_wf s" "put h a s = h" "heap_ok h" "no_fail h"
  using assms length_sds_val [of s] by (auto simp: open_str_def intro: put_same)

lemma open_put: "open_str c h a v s \<Longrightarrow> sds_wf t \<Longrightarrow> sds_val t = w \<Longrightarrow> open_str c (put h a t) a w t"
  by (auto simp: open_str_def heap_ok_put no_fail_def)

lemma open_room:
  assumes "open_str c h a v s" and "length v + n < 2 ^ 62"
  shows "\<exists>a' h' t. sdsMakeRoomFor h a n = Ok (Some a', h') \<and> open_str c h' a' v t \<and> length v + n \<le> sdsalloc t"
proof -
  note s = open_strD [OF assms(1)]
  have "gives h a (roomy s n) (sdsMakeRoomFor h a n)" using s(2) assms(2) by (intro make_room [OF s(1,3,5)]) simp
  then obtain a' h' t where r: "sdsMakeRoomFor h a n = Ok (Some a', h')" "moved h a h' a' t" "roomy s n t"
    using s(6) by (auto simp: gives_def)
  have "take n b = take n (take (n + 1) b)" for n and b :: bytes by simp
  then have "sds_val t = v"
    using r(3) assms(1) unfolding roomy_def sds_val_def open_str_def by metis
  moreover have "cells h' = c(a' \<mapsto> SdsBlock t)" "c a' = None"
    using r(2) assms(1) by (auto simp: moved_def open_str_def fun_upd_idem split: if_splits)
  ultimately have "open_str c h' a' v t" using r s(6) by (simp add: open_str_def moved_def roomy_def no_fail_def)
  then show ?thesis using r s(2) by (auto simp: roomy_def)
qed

lemma sdsinclen_eq: "sds_type s \<le> 4 \<Longrightarrow> sdsinclen n s = sdssetlen (sdslen s + n) s"
  by (auto simp: sdsinclen_def sdssetlen_def sdslen_def sds_consts mod_simps mult.commute)

text \<open>Writing behind the last character and counting it.\<close>

lemma open_write:
  assumes "open_str c h a v s" and "length v + length bs \<le> sdsalloc s"
  shows "\<exists>t. bnd (write_sds h a (length v) bs) (\<lambda>h. update_sds h a (sdsinclen (length bs))) = Ok (put h a t)
    \<and> open_str c (put h a t) a (v @ bs) t \<and> sdsalloc t = (if sds_type s = 0 then length (v @ bs) else sdsalloc s)"
proof -
  note s = open_strD [OF assms(1)]
  let ?b = "take (length v) (sbuf s) @ bs @ drop (length v + length bs) (sbuf s)"
  have l: "length v + length bs \<le> length (sbuf s)" "sds_type s \<le> 4" using assms(2) s(3) by (auto simp: sds_wf_def)
  have w: "write_sds h a (length v) bs = Ok (put h a (s\<lparr>sbuf := ?b\<rparr>))"
    using write_put [of "length v" bs s h a] l(1) unfolding s(4) by simp
  let ?t = "sdssetlen (length v + length bs) (s\<lparr>sbuf := ?b\<rparr>)"
  have "sdsinclen (length bs) (s\<lparr>sbuf := ?b\<rparr>) = ?t" using l(2) s(2) by (simp add: sdsinclen_eq)
  then have e: "bnd (write_sds h a (length v) bs) (\<lambda>h. update_sds h a (sdsinclen (length bs))) = Ok (put h a ?t)"
    unfolding w bnd.simps update_put by simp
  note sl = sdssetlen_len [OF s(3) assms(2)]
  have lb: "length ?b = length (sbuf s)" using l(1) by simp
  have v: "take (length v) (sbuf s) = v" using assms(1) s(2) by (simp add: open_str_def sds_val_def)
  have lv: "length v \<le> length (sbuf s)" using l(1) by simp
  have "sds_wf ?t" "sds_val ?t = v @ bs"
    using sl lb lv by (simp_all add: sds_val_def v)
  then show ?thesis using e open_put [OF assms(1)] sl(2) by (intro exI [of _ ?t]) simp
qed

lemma open_append:
  assumes "open_str c h a v s" and "length v + length bs < 2 ^ 62" and "reads (h\<lparr>cells := c\<rparr>) a t bs"
  shows "\<exists>a' h' s'. fmt_append h a (length v) t (length bs) = Ok (a', h') \<and> open_str c h' a' (v @ bs) s'"
proof -
  note s = open_strD [OF assms(1)]
  have "\<exists>a1 h1 s1. (if sdsavail s < length bs then sdsMakeRoomFor h a (length bs) else Ok (Some a, h)) = Ok (Some a1, h1)
      \<and> open_str c h1 a1 v s1 \<and> length v + length bs \<le> sdsalloc s1"
  proof (cases "sdsavail s < length bs")
    case True
    then show ?thesis using open_room [OF assms(1,2)] by simp
  next
    case False
    then have "length v + length bs \<le> sdsalloc s" using sdsavail_eq [OF s(3)] s(2,3) by (auto simp: sds_wf_def)
    then show ?thesis using False assms(1) by auto
  qed
  then obtain a1 h1 s1 where r: "(if sdsavail s < length bs then sdsMakeRoomFor h a (length bs) else Ok (Some a, h)) = Ok (Some a1, h1)"
    "open_str c h1 a1 v s1" "length v + length bs \<le> sdsalloc s1" by blast
  have rd: "read_source h1 t (length bs) = Ok bs"
    using assms(3) r(2) by (cases t) (auto simp: read_source_def hload_def open_str_def)
  obtain s2 where w: "bnd (write_sds h1 a1 (length v) bs) (\<lambda>h. update_sds h a1 (sdsinclen (length bs))) = Ok (put h1 a1 s2)"
    "open_str c (put h1 a1 s2) a1 (v @ bs) s2" using open_write [OF r(2,3)] by blast
  have "fmt_append h a (length v) t (length bs) =
      bnd (bnd (write_sds h1 a1 (length v) bs) (\<lambda>h. update_sds h a1 (sdsinclen (length bs)))) (\<lambda>h. Ok (a1, h))"
    unfolding fmt_append_def load_Some [OF s(1)] bnd.simps r(1) prod.case deref_simps rd bnd_assoc ..
  then show ?thesis using w by auto
qed

lemma open_fmt_room:
  assumes "open_str c h a v s" and "length v + 1 < 2 ^ 62"
  shows "\<exists>a' h' s'. fmt_room h a = Ok (a', h') \<and> open_str c h' a' v s' \<and> length v < sdsalloc s'"
proof (cases "sdsavail s = 0")
  case True
  obtain a' h' t where r: "sdsMakeRoomFor h a 1 = Ok (Some a', h')" "open_str c h' a' v t" "length v + 1 \<le> sdsalloc t"
    using open_room [OF assms] by blast
  have "fmt_room h a = Ok (a', h')" using True r(1) open_strD(1) [OF assms(1)] by (simp add: fmt_room_def)
  then show ?thesis using r(2,3) by (intro exI [of _ a'] exI [of _ h'] exI [of _ t]) simp
next
  case False
  then have "length v < sdsalloc s" using sdsavail_eq [of s] open_strD [OF assms(1)] by simp
  then show ?thesis using False assms(1) open_strD(1) [OF assms(1)] by (auto simp: fmt_room_def)
qed

lemma open_fmt_put:
  assumes "open_str c h a v s" and "length v < sdsalloc s"
  shows "\<exists>h' s'. fmt_put h a (length v) ch = Ok h' \<and> open_str c h' a (v @ [ch]) s'"
  using open_write [OF assms(1), of "[ch]"] assms(2) by (auto simp: fmt_put_def)

lemma open_source:
  assumes "open_str c h a v s" and "arg_ok c ch x"
  shows "\<exists>t. fmt_source h ch (x # args) = Ok (t, length (arg_text c x), args) \<and> reads (h\<lparr>cells := c\<rparr>) a t (arg_text c x)"
proof (cases x)
  case (FmtString b)
  then obtain t rest where b: "b = t @ NUL # rest" "cstring t"
    using assms(2) split_list_first [of NUL b] by (auto simp: cstring_def)
  have "cstr_at b 0 = Ok t" using cstr_at_append [OF b(2), of "[]" rest] b(1) by simp
  then show ?thesis using FmtString assms(2) b by simp
next
  case (FmtSds p)
  then obtain u where u: "ch = CHR ''S''" "c p = Some (SdsBlock u)" "sds_wf u"
    using assms(2) by (auto split: option.splits sds_cell.splits)
  have p: "p \<noteq> a" "cells h p = Some (SdsBlock u)" using u(2) assms(1) by (auto simp: open_str_def)
  have "sbuf u = sds_val u @ drop (sdslen u) (sbuf u)" by (simp add: sds_val_def)
  then have "as_chars (SdsBlock u) = Ok (sds_val u @ drop (sdslen u) (sbuf u))" by simp
  then show ?thesis using FmtSds u p length_sds_val [OF u(3)] by fastforce
next
  case (FmtInt i)
  then have i: "- (2 ^ 63) \<le> i" "i < 2 ^ 63" "ch = CHR ''i''" using assms(2) by auto
  have "length (print_signed i) < length (replicate SDS_LLSTR_SIZE NUL)" using ll_length [OF i(1,2)] by (simp add: SDS_LLSTR_SIZE_def)
  then show ?thesis using ll_text [OF _ i(1,2)] FmtInt i(3) by simp
next
  case (FmtLong i)
  then have i: "- (2 ^ 63) \<le> i" "i < 2 ^ 63" "ch = CHR ''I''" using assms(2) by auto
  have "length (print_signed i) < length (replicate SDS_LLSTR_SIZE NUL)" using ll_length [OF i(1,2)] by (simp add: SDS_LLSTR_SIZE_def)
  then show ?thesis using ll_text [OF _ i(1,2)] FmtLong i(3) by simp
next
  case (FmtUInt n)
  then have n: "n < 2 ^ 64" "ch = CHR ''u''" using assms(2) by auto
  have "length (digits 10 n) < length (replicate SDS_LLSTR_SIZE NUL)" using ull_length [OF n(1)] by (simp add: SDS_LLSTR_SIZE_def)
  then show ?thesis using ull_text FmtUInt n(2) by simp
next
  case (FmtULong n)
  then have n: "n < 2 ^ 64" "ch = CHR ''U''" using assms(2) by auto
  have "length (digits 10 n) < length (replicate SDS_LLSTR_SIZE NUL)" using ull_length [OF n(1)] by (simp add: SDS_LLSTR_SIZE_def)
  then show ?thesis using ull_text FmtULong n(2) by simp
qed

lemma fmt_loop_text:
  assumes "open_str c h a v s" and "args_ok c f args" and "length v + length (fmt_text c f args) + 1 < 2 ^ 62"
  shows "\<exists>a' h' s'. fmt_loop h a (length v) f args = Ok (a', length (v @ fmt_text c f args), h')
    \<and> open_str c h' a' (v @ fmt_text c f args) s'"
  using assms
proof (induction f arbitrary: h a v s args rule: measure_induct_rule [of length])
  case (less f)
  show ?case
  proof (cases f)
    case Nil
    then show ?thesis using less.prems(1) by auto
  next
    case (Cons ch f1)
    have sz: "length v + 1 < 2 ^ 62" using less.prems(3) by simp
    obtain a1 h1 s1 where r: "fmt_room h a = Ok (a1, h1)" "open_str c h1 a1 v s1" "length v < sdsalloc s1"
      using open_fmt_room [OF less.prems(1) sz] by blast
    have lit: "\<exists>a' h' s'. bnd (fmt_put h1 a1 (length v) d) (\<lambda>h. fmt_loop h a1 (length v + 1) g args)
          = Ok (a', length (v @ d # fmt_text c g args), h') \<and> open_str c h' a' (v @ d # fmt_text c g args) s'"
      if "args_ok c g args" "length v + length (fmt_text c g args) + 2 < 2 ^ 62" "length g < length f" for d g
    proof -
      obtain h2 s2 where p: "fmt_put h1 a1 (length v) d = Ok h2" "open_str c h2 a1 (v @ [d]) s2"
        using open_fmt_put [OF r(2,3)] by blast
      show ?thesis using less.IH [OF that(3) p(2) that(1)] that(2) p(1) by simp
    qed
    show ?thesis
    proof (cases "ch = CHR ''%''")
      case False
      then show ?thesis using lit [of f1 ch] less.prems(2,3) Cons r(1) by simp
    next
      case True
      show ?thesis
      proof (cases f1)
        case Nil
        then show ?thesis using True Cons r(1,2) by auto
      next
        case f1: (Cons nx f2)
        show ?thesis
        proof (cases "nx \<in> set ''sSiIuU''")
          case False
          have "args_ok c f2 args" "fmt_text c f args = nx # fmt_text c f2 args"
            using False less.prems(2) True Cons f1 by simp_all
          then show ?thesis using lit [of f2 nx] less.prems(3) False True Cons f1 r(1) by simp
        next
          case conv: True
          obtain x args' where x: "args = x # args'" using less.prems(2) True Cons f1 conv by (cases args) auto
          have ok: "arg_ok c nx x" "args_ok c f2 args'" "fmt_text c f args = arg_text c x @ fmt_text c f2 args'"
            using less.prems(2) True Cons f1 conv x by simp_all
          obtain t where t: "fmt_source h1 nx (x # args') = Ok (t, length (arg_text c x), args')"
            "reads (h1\<lparr>cells := c\<rparr>) a1 t (arg_text c x)" using open_source [OF r(2) ok(1)] by blast
          have "length v + length (arg_text c x) < 2 ^ 62" using less.prems(3) ok(3) by simp
          then obtain a2 h2 s2 where p: "fmt_append h1 a1 (length v) t (length (arg_text c x)) = Ok (a2, h2)"
            "open_str c h2 a2 (v @ arg_text c x) s2" using open_append [OF r(2) _ t(2)] by blast
          have "fmt_loop h a (length v) f args = fmt_loop h2 a2 (length (v @ arg_text c x)) f2 args'"
            unfolding Cons f1 x fmt_loop.simps r(1) bnd.simps prod.case if_P [OF True] list.case if_P [OF conv] t(1) p(1) by simp
          then show ?thesis using less.IH [OF _ p(2) ok(2)] less.prems(3) ok(3) Cons f1 by simp
        qed
      qed
    qed
  qed
qed

lemma catfmt_owned:
  assumes "owned c h a v" and "cstring f" and "args_ok c f args"
    and "2 * (length v + length f) < 2 ^ 62" "length v + length (fmt_text c f args) + 1 < 2 ^ 62"
  shows "\<exists>a' h'. sdscatfmt h a (f @ NUL # rest) args = Ok (a', h') \<and> owned c h' a' (v @ fmt_text c f args)"
proof -
  obtain s where s: "open_str c h a v s" using assms(1) is_strE by (fastforce simp: owned_def open_str_def)
  note sd = open_strD [OF s]
  have n: "to_size (int (length v + length f * 2)) = length v + length f * 2"
    using assms(4) by (intro to_size_int) simp
  obtain a1 h1 s1 where r: "sdsMakeRoomFor h a (length v + length f * 2) = Ok (Some a1, h1)" "open_str c h1 a1 v s1"
    using open_room [OF s, of "length v + length f * 2"] assms(4) by auto
  obtain a2 h2 s2 where l: "fmt_loop h1 a1 (length v) f args = Ok (a2, length (v @ fmt_text c f args), h2)"
    "open_str c h2 a2 (v @ fmt_text c f args) s2" using fmt_loop_text [OF r(2) assms(3,5)] by blast
  let ?w = "v @ fmt_text c f args"
  note d = open_strD [OF l(2)]
  let ?b = "take (length ?w) (sbuf s2) @ [NUL] @ drop (length ?w + 1) (sbuf s2)"
  have lw: "length ?w < length (sbuf s2)" "sds_val s2 = ?w" using d(2,3) l(2) by (auto simp: sds_wf_def open_str_def)
  have w: "write_sds h2 a2 (length ?w) [NUL] = Ok (put h2 a2 (s2\<lparr>sbuf := ?b\<rparr>))"
    using write_put [of "length ?w" "[NUL]" s2 h2 a2] lw(1) unfolding d(4) by simp
  have f: "cstr_at (f @ NUL # rest) 0 = Ok f" using cstr_at_append [OF assms(2), of "[]" rest] by simp
  have "sdscatfmt h a (f @ NUL # rest) args = Ok (a2, put h2 a2 (s2\<lparr>sbuf := ?b\<rparr>))"
    unfolding sdscatfmt_def load_Some [OF sd(1)] f bnd.simps sd(2) n r(1) prod.case deref_simps l(1) w ..
  moreover have "is_str ?w (s2\<lparr>sbuf := ?b\<rparr>)"
  proof -
    have "sds_wf (s2\<lparr>sbuf := ?b\<rparr>)" using d(3) lw(1) by (subst sds_wf_sbuf) auto
    moreover have "take (length ?w) ?b = ?w" "?b ! length ?w = NUL"
      using lw d(2) by (simp_all add: sds_val_def nth_append)
    ultimately show ?thesis using d(2) by (simp add: is_str_def sds_ok_def sds_val_def)
  qed
  moreover have "cells (put h2 a2 (s2\<lparr>sbuf := ?b\<rparr>)) = c(a2 \<mapsto> SdsBlock (s2\<lparr>sbuf := ?b\<rparr>))" "c a2 = None"
    using l(2) by (simp_all add: open_str_def)
  moreover have "heap_ok (put h2 a2 (s2\<lparr>sbuf := ?b\<rparr>))" "no_fail (put h2 a2 (s2\<lparr>sbuf := ?b\<rparr>))"
    using d(1,5,6) by (simp_all add: heap_ok_put no_fail_def)
  ultimately show ?thesis unfolding owned_def by blast
qed

section \<open>Properties\<close>

text \<open>Both conversions write the decimal text of every 64-bit number, the smallest included, with its terminator into the 21 bytes
  meant for it, leave the bytes behind alone, and return its length.\<close>

lemma numbers_fit:
  assumes "SDS_LLSTR_SIZE \<le> length b" and "- (2 ^ 63) \<le> i" "i < 2 ^ 63" and "n < 2 ^ 64"
  shows "sdsll2str b i = Ok (length (print_signed i), print_signed i @ NUL # drop (length (print_signed i) + 1) b)
    \<and> sdsull2str b n = Ok (length (digits 10 n), digits 10 n @ NUL # drop (length (digits 10 n) + 1) b)"
proof -
  have b: "20 < length b" using assms(1) by (simp add: SDS_LLSTR_SIZE_def)
  have "length (print_signed i) < length b" "length (digits 10 n) < length b"
    using b ll_length [OF assms(2,3)] ull_length [OF assms(4)] by linarith+
  then show ?thesis using ll_text [OF _ assms(2,3)] ull_text by blast
qed

lemma numbers_fit_witness:
  "sdsll2str (replicate 21 CHR ''z'') (- (2 ^ 63)) = Ok (20, ''-9223372036854775808'' @ [NUL])
    \<and> sdsull2str (replicate 21 CHR ''z'') (2 ^ 64 - 1) = Ok (20, ''18446744073709551615'' @ [NUL])"
proof -
  have d: "digits 10 9223372036854775808 = ''9223372036854775808''" "digits 10 (2 ^ 64 - 1) = ''18446744073709551615''"
    by (simp_all add: digits.simps digit_char_def)
  have p: "print_signed (- (2 ^ 63)) = ''-9223372036854775808''" by (simp add: print_signed_def d)
  have l: "SDS_LLSTR_SIZE \<le> length (replicate 21 CHR ''z'')" "2 ^ 64 - 1 < (2 ^ 64 :: nat)" "- (2 ^ 63) < (2 ^ 63 :: int)"
    by (simp_all add: SDS_LLSTR_SIZE_def)
  have e: "length ''-9223372036854775808'' = 20" "length ''18446744073709551615'' = 20"
    "drop (20 + 1) (replicate 21 CHR ''z'') = []" by simp_all
  show ?thesis
    using numbers_fit [OF l(1) order.refl l(3,2)] unfolding p d e(1) e(2) e(3) .
qed

text \<open>C33: \<open>sdscatprintf\<close> appends the text that \<open>vsnprintf\<close> makes, whatever its length, or returns NULL because memory ran out or
  the format is wrong; then the string is unchanged. In every case the buffer is given back.\<close>

theorem printf_all_or_nothing:
  assumes "cells h a = Some (SdsBlock s)" "sds_ok s" "heap_ok h" and "cstr_at fmt 0 = Ok f"
    and "\<forall>t. rendered = Some t \<longrightarrow> length t < 2 ^ 31 \<and> sdslen s + length t < 2 ^ 62"
  shows "(\<exists>h'. sdscatprintf h a fmt rendered = Ok (None, h') \<and> cells h' = cells h \<and> (rendered = None \<or> \<not> no_fail h))
    \<or> (\<exists>a' h' s' t. sdscatprintf h a fmt rendered = Ok (Some a', h') \<and> rendered = Some t
         \<and> cells h' = ((cells h)(a := None))(a' \<mapsto> SdsBlock s') \<and> sds_ok s' \<and> sds_val s' = sds_val s @ t)"
proof (cases rendered)
  case None
  obtain p h' where al: "halloc h (CharBlock (replicate (to_size (int (length f * 2))) NUL)) = (p, h')" by fastforce
  have "\<exists>h''. sdscatprintf h a fmt None = Ok (None, h'') \<and> beside h h'' None"
  proof (cases "1024 < to_size (int (length f * 2))")
    case False
    obtain g where g: "vprintf_loop h None (replicate 1024 NUL) None 1024 = Ok (None, g)" "beside h g None"
      using vprintf_error [OF beside_refl [OF assms(3)]] by blast
    have "sdscatprintf h a fmt None = Ok (None, g)"
      unfolding sdscatprintf_def sdscatvprintf_def assms(4) bnd.simps Let_def if_not_P [OF False] option.case g(1) prod.case ..
    then show ?thesis using g(2) by blast
  next
    case True
    show ?thesis
    proof (cases p)
      case None
      then have "sdscatprintf h a fmt None = Ok (None, h')"
        unfolding sdscatprintf_def sdscatvprintf_def assms(4) bnd.simps Let_def if_P [OF True] al by simp
      then show ?thesis using beside_alloc(1) [OF beside_refl [OF assms(3)]] al None by blast
    next
      case (Some b)
      then have "beside h h' (Some b)" using beside_alloc(2) [OF beside_refl [OF assms(3)]] al by blast
      then obtain g where g: "vprintf_loop h' None (replicate 1024 NUL) (Some b) (to_size (int (length f * 2))) = Ok (None, g)"
        "beside h g None" using vprintf_error by blast
      have "sdscatprintf h a fmt None = Ok (None, g)"
        unfolding sdscatprintf_def sdscatvprintf_def assms(4) bnd.simps Let_def if_P [OF True] al Some option.case g(1) prod.case ..
      then show ?thesis using g(2) by blast
    qed
  qed
  then show ?thesis using None by (auto simp: beside_def)
next
  case (Some t)
  then have b: "sdslen s + length t < 2 ^ 62" "length t < 2 ^ 31" using assms(5) by auto
  have "sds_wf s" using assms(2) by (simp add: sds_ok_def)
  note g = catvprintf_gives [OF assms(1) this assms(3) b assms(4)]
  then show ?thesis using Some unfolding gives_def moved_def is_str_def sdscatprintf_def by blast
qed

theorem printf_all_or_nothing_witness:
  "(\<exists>a' h' s'. sdscatprintf ex_strings 1 (''%d'' @ [NUL]) (Some ''42'') = Ok (Some a', h')
      \<and> cells h' a' = Some (SdsBlock s') \<and> sds_val s' = ''foa42'')
    \<and> (\<exists>h'. sdscatprintf ex_strings 1 (''%d'' @ [NUL]) None = Ok (None, h') \<and> cells h' = cells ex_strings)"
proof -
  let ?s = "new_header 1 3 (''foa'' @ [NUL])" and ?fmt = "''%d'' @ [NUL]"
  have s: "sds_ok ?s" "sds_val ?s = ''foa''" "sdslen ?s = 3"
    by (simp_all add: sds_ok_def sds_wf_def sds_val_def new_header_def sds_type_def sdslen_def sdsalloc_def len_bits_def sds_consts)
  have h: "cells ex_strings 1 = Some (SdsBlock ?s)" "heap_ok ex_strings" "no_fail ex_strings"
    by (auto simp: ex_strings_def heap_ok_def no_fail_def split: if_splits)
  have c: "cstr_at ?fmt 0 = Ok ''%d''" by (simp add: cstr_at_def until_nul_def)
  have b: "\<forall>t. Some ''42'' = Some t \<longrightarrow> length t < 2 ^ 31 \<and> sdslen ?s + length t < 2 ^ 62"
    unfolding s(3) by simp
  have n: "\<forall>t. None = Some t \<longrightarrow> length t < 2 ^ 31 \<and> sdslen ?s + length t < 2 ^ 62" by simp
  note A = printf_all_or_nothing [OF h(1) s(1) h(2) c b] and B = printf_all_or_nothing [OF h(1) s(1) h(2) c n]
  obtain a' h' s' where r: "sdscatprintf ex_strings 1 ?fmt (Some ''42'') = Ok (Some a', h')"
    "cells h' = ((cells ex_strings)(1 := None))(a' \<mapsto> SdsBlock s')" "sds_val s' = sds_val ?s @ ''42''"
    using A h(3) by blast
  have "cells h' a' = Some (SdsBlock s')" "sds_val s' = ''foa42''" using r(2,3) s(2) by simp_all
  then show ?thesis using r(1) B by blast
qed

text \<open>C21: \<open>sdscatfmt\<close> appends the text of its format: the arguments at their conversions, a character behind any
  other percent sign as it is, and nothing for a percent sign at the end.\<close>

theorem catfmt_text:
  assumes "owned c h a v" and "cstring f" and "args_ok c f args"
    and "2 * (length v + length f) < 2 ^ 62" "length v + length (fmt_text c f args) + 1 < 2 ^ 62"
  shows "\<exists>a' h' s. sdscatfmt h a (f @ [NUL]) args = Ok (a', h') \<and> cells h' = c(a' \<mapsto> SdsBlock s)
    \<and> sds_ok s \<and> sds_val s = v @ fmt_text c f args"
  using catfmt_owned [OF assms, of "[]"] by (auto simp: owned_def is_str_def)

theorem catfmt_text_witness:
  "\<exists>h a a' h' s. sdsnewlen (empty_heap (\<lambda>_. False)) (Init (Bytes ''--'')) 2 = Ok (Some a, h)
    \<and> sdscatfmt h a (''Hello %s %I%%'' @ [NUL]) [FmtString (''Hi!'' @ [NUL]), FmtLong (- 12)] = Ok (a', h')
    \<and> cells h' = [a' \<mapsto> SdsBlock s] \<and> sds_ok s \<and> sds_val s = ''--Hello Hi! -12%''"
proof -
  let ?f = "''Hello %s %I%%''" and ?as = "[FmtString (''Hi!'' @ [NUL]), FmtLong (- 12)]"
  have h: "heap_ok (empty_heap (\<lambda>_. False))" "no_fail (empty_heap (\<lambda>_. False))" "cells (empty_heap (\<lambda>_. False)) = Map.empty"
    by (simp_all add: empty_heap_def heap_ok_def no_fail_def)
  have two: "length ''--'' < 2 ^ 62" by simp
  obtain a g where n: "sdsnewlen (empty_heap (\<lambda>_. False)) (Init (Bytes ''--'')) 2 = Ok (Some a, g)" "owned Map.empty g a ''--''"
    using new_owned [OF h(1,2) two, of "[]"] unfolding h(3) by (auto simp: numeral_2_eq_2)
  have t: "fmt_text Map.empty ?f ?as = ''Hello Hi! -12%''"
    by (simp add: until_nul_def print_signed_def digits.simps digit_char_def)
  have ok: "args_ok Map.empty ?f ?as" "cstring ?f" by simp_all
  have sz: "2 * (length ''--'' + length ?f) < 2 ^ 62" "length ''--'' + length (fmt_text Map.empty ?f ?as) + 1 < 2 ^ 62"
    unfolding t by simp_all
  show ?thesis using n(1) catfmt_text [OF n(2) ok(2,1) sz] unfolding t by fastforce
qed

end
