(* ===== verification/Sds_Split.thy ===== *)
theory Sds_Split
  imports Sds_Text
begin

section \<open>Splitting and joining dynamic strings\<close>

text \<open>
  \<open>sdssplitlen\<close> cuts a text at every separator into an array of new strings, \<open>sdsfreesplitres\<close> gives the array
  back, and the two join functions put texts together again. The array is a block of the heap that
  grows as the elements come.
\<close>

subsection \<open>The array\<close>

definition token_at :: "sds_cell heap \<Rightarrow> addr \<Rightarrow> nat \<Rightarrow> addr option outcome" where
  "token_at h a i =
     bnd (hload h a) (\<lambda>x. bnd (as_tokens x) (\<lambda>ts.
     bnd (guard_or OutOfBounds (i < length ts)) (\<lambda>_. Ok (ts ! i))))"

definition set_token :: "sds_cell heap \<Rightarrow> addr \<Rightarrow> nat \<Rightarrow> addr option \<Rightarrow> sds_cell heap outcome" where
  "set_token h a i t =
     bnd (hload h a) (\<lambda>x. bnd (as_tokens x) (\<lambda>ts.
     bnd (guard_or OutOfBounds (i < length ts)) (\<lambda>_. hstore h a (TokenBlock (ts[i := t])))))"

text \<open>\<open>realloc\<close> of the array; of NULL it is \<open>malloc\<close>.\<close>

definition realloc_tokens :: "sds_cell heap \<Rightarrow> addr option \<Rightarrow> nat \<Rightarrow> (addr option \<times> sds_cell heap) outcome" where
  "realloc_tokens h p n =
     bnd (case p of None \<Rightarrow> Ok [] | Some a \<Rightarrow> bnd (hload h a) as_tokens) (\<lambda>ts.
     case halloc h (TokenBlock (take n (ts @ replicate (n - length ts) None))) of
       (None, h) \<Rightarrow> Ok (None, h)
     | (Some b, h) \<Rightarrow> bnd (hfree h p) (\<lambda>h. Ok (Some b, h)))"

fun cleanup_tokens :: "sds_cell heap \<Rightarrow> addr \<Rightarrow> nat \<Rightarrow> nat \<Rightarrow> sds_cell heap outcome" where
  "cleanup_tokens h a i 0 = Ok h"
| "cleanup_tokens h a i (Suc left) =
     bnd (token_at h a i) (\<lambda>t. bnd (sdsfree h t) (\<lambda>h. cleanup_tokens h a (i + 1) left))"

fun free_tokens :: "sds_cell heap \<Rightarrow> addr \<Rightarrow> nat \<Rightarrow> sds_cell heap outcome" where
  "free_tokens h a 0 = Ok h"
| "free_tokens h a (Suc count) =
     bnd (token_at h a count) (\<lambda>t. bnd (sdsfree h t) (\<lambda>h. free_tokens h a count))"

definition sdsfreesplitres :: "sds_cell heap \<Rightarrow> addr option \<Rightarrow> nat \<Rightarrow> sds_cell heap outcome" where
  "sdsfreesplitres h tokens count =
     (case tokens of None \<Rightarrow> Ok h
      | Some a \<Rightarrow> bnd (free_tokens h a count) (\<lambda>h. hfree h (Some a)))"

subsection \<open>Splitting\<close>

text \<open>How the loop ends: with the array, the number of elements and the start of the last one, or with a jump
  to the cleanup.\<close>

datatype split_end = Finished addr nat nat | Cleanup addr nat

text \<open>The test for a separator at \<open>j\<close>.\<close>

definition at_separator :: "bytes \<Rightarrow> bytes \<Rightarrow> nat \<Rightarrow> nat \<Rightarrow> bool outcome" where
  "at_separator s sep seplen j =
     bnd (if seplen = 1 then bnd (byte_at s j) (\<lambda>c. bnd (byte_at sep 0) (\<lambda>d. Ok (c = d))) else Ok False) (\<lambda>b.
     if b then Ok True
     else bnd (guard_or OutOfBounds (j + seplen \<le> length s \<and> seplen \<le> length sep)) (\<lambda>_.
          Ok (take seplen (drop j s) = take seplen sep)))"

text \<open>\<open>slots\<close> and the number of elements are \<open>int\<close>. The text is memory that nothing changes meanwhile.\<close>

function split_loop :: "sds_cell heap \<Rightarrow> bytes \<Rightarrow> nat \<Rightarrow> bytes \<Rightarrow> nat \<Rightarrow> addr \<Rightarrow> nat \<Rightarrow> nat \<Rightarrow> nat \<Rightarrow> nat
    \<Rightarrow> (split_end \<times> sds_cell heap) outcome" where
  "split_loop h s len sep seplen tokens slots elements start j =
     (if int j < int len - (int seplen - 1) then
        bnd (if slots < elements + 2
             then bnd (guard_or Overflow (slots * 2 < 2 ^ 31)) (\<lambda>_.
                  bnd (realloc_tokens h (Some tokens) (slots * 2)) (\<lambda>(r, h). Ok (r, slots * 2, h)))
             else Ok (Some tokens, slots, h)) (\<lambda>(r, slots, h).
        case r of
          None \<Rightarrow> Ok (Cleanup tokens elements, h)
        | Some tokens \<Rightarrow>
            bnd (at_separator s sep seplen j) (\<lambda>found.
            if found then
              bnd (sdsnewlen h (Init (Bytes (drop start s))) (j - start)) (\<lambda>(t, h).
              bnd (set_token h tokens elements t) (\<lambda>h.
              case t of
                None \<Rightarrow> Ok (Cleanup tokens elements, h)
              | Some _ \<Rightarrow>
                  split_loop h s len sep seplen tokens slots (elements + 1) (j + seplen) (j + (seplen - 1) + 1)))
            else split_loop h s len sep seplen tokens slots elements start (j + 1)))
      else Ok (Finished tokens elements start, h))"
  by pat_completeness auto
termination
  by (relation "measure (\<lambda>(h, s, len, sep, seplen, tokens, slots, elements, start, j). len + 1 - j)") auto

declare split_loop.simps [simp del]

text \<open>The result with the value of \<open>*count\<close>; when the first allocation fails that is left as it was.\<close>

definition sdssplitlen :: "sds_cell heap \<Rightarrow> bytes \<Rightarrow> int \<Rightarrow> bytes \<Rightarrow> int \<Rightarrow> nat \<Rightarrow> ((addr option \<times> nat) \<times> sds_cell heap) outcome" where
  "sdssplitlen h s len sep seplen count =
     (if seplen < 1 \<or> len \<le> 0 then Ok ((None, 0), h)
      else
        let cleanup = (\<lambda>h tokens elements.
              bnd (cleanup_tokens h tokens 0 elements) (\<lambda>h.
              bnd (hfree h (Some tokens)) (\<lambda>h. Ok ((None, 0), h))))
        in case halloc h (TokenBlock (replicate 5 None)) of
             (None, h) \<Rightarrow> Ok ((None, count), h)
           | (Some tokens, h) \<Rightarrow>
               bnd (split_loop h s (nat len) sep (nat seplen) tokens 5 0 0 0) (\<lambda>(e, h).
               case e of
                 Cleanup tokens elements \<Rightarrow> cleanup h tokens elements
               | Finished tokens elements start \<Rightarrow>
                   bnd (sdsnewlen h (Init (Bytes (drop start s))) (nat len - start)) (\<lambda>(t, h).
                   bnd (set_token h tokens elements t) (\<lambda>h.
                   case t of
                     None \<Rightarrow> cleanup h tokens elements
                   | Some _ \<Rightarrow> Ok ((Some tokens, elements + 1), h)))))"

subsection \<open>Joining\<close>

text \<open>A NULL from an allocation is passed on to the next call, which follows it.\<close>

fun join_loop :: "sds_cell heap \<Rightarrow> addr option \<Rightarrow> bytes list \<Rightarrow> bytes \<Rightarrow> (addr option \<times> sds_cell heap) outcome" where
  "join_loop h join [] sep = Ok (join, h)"
| "join_loop h join (arg # argv) sep =
     bnd (deref join) (\<lambda>a. bnd (sdscat h a arg) (\<lambda>(join, h).
     bnd (if argv \<noteq> [] then bnd (deref join) (\<lambda>a. sdscat h a sep) else Ok (join, h)) (\<lambda>(join, h).
     join_loop h join argv sep)))"

definition sdsjoin :: "sds_cell heap \<Rightarrow> bytes list \<Rightarrow> bytes \<Rightarrow> (addr option \<times> sds_cell heap) outcome" where
  "sdsjoin h argv sep = bnd (sdsempty h) (\<lambda>(join, h). join_loop h join argv sep)"

fun joinsds_loop :: "sds_cell heap \<Rightarrow> addr option \<Rightarrow> addr list \<Rightarrow> source \<Rightarrow> nat \<Rightarrow> (addr option \<times> sds_cell heap) outcome" where
  "joinsds_loop h join [] sep seplen = Ok (join, h)"
| "joinsds_loop h join (arg # argv) sep seplen =
     bnd (deref join) (\<lambda>a. bnd (sdscatsds h a arg) (\<lambda>(join, h).
     bnd (if argv \<noteq> [] then bnd (deref join) (\<lambda>a. sdscatlen h a sep seplen) else Ok (join, h)) (\<lambda>(join, h).
     joinsds_loop h join argv sep seplen)))"

definition sdsjoinsds :: "sds_cell heap \<Rightarrow> addr list \<Rightarrow> source \<Rightarrow> nat \<Rightarrow> (addr option \<times> sds_cell heap) outcome" where
  "sdsjoinsds h argv sep seplen = bnd (sdsempty h) (\<lambda>(join, h). joinsds_loop h join argv sep seplen)"

subsection \<open>The pieces of a text\<close>

text \<open>\<open>acc\<close> is the piece that has been begun.\<close>

function split_text :: "bytes \<Rightarrow> bytes \<Rightarrow> bytes \<Rightarrow> bytes list" where
  "split_text sep acc v =
     (if sep \<noteq> [] \<and> take (length sep) v = sep then acc # split_text sep [] (drop (length sep) v)
      else case v of [] \<Rightarrow> [acc] | c # cs \<Rightarrow> split_text sep (acc @ [c]) cs)"
  by pat_completeness auto
termination
proof (relation "measure (\<lambda>(sep, acc, v). length v)")
  fix sep acc v :: bytes
  assume "sep \<noteq> [] \<and> take (length sep) v = sep"
  then have "sep \<noteq> []" "v \<noteq> []" by auto
  then show "((sep, [], drop (length sep) v), sep, acc, v) \<in> measure (\<lambda>(sep, acc, v). length v)" by simp
qed auto

declare split_text.simps [simp del]

text \<open>Text between which a separator is put.\<close>

fun join_text :: "bytes \<Rightarrow> bytes list \<Rightarrow> bytes" where
  "join_text sep [] = []"
| "join_text sep [p] = p"
| "join_text sep (p # ps) = p @ sep @ join_text sep ps"

lemma split_text_not_Nil: "split_text sep acc v \<noteq> []"
  by (induction sep acc v rule: split_text.induct) (subst split_text.simps, auto split: list.splits)

lemma join_Cons: "ps \<noteq> [] \<Longrightarrow> join_text sep (p # ps) = p @ sep @ join_text sep ps"
  by (cases ps) auto

lemma join_split: "join_text sep (split_text sep acc v) = acc @ v"
proof (induction sep acc v rule: split_text.induct)
  case (1 sep acc v)
  show ?case
  proof (cases "sep \<noteq> [] \<and> take (length sep) v = sep")
    case True
    then have "sep @ drop (length sep) v = v" using append_take_drop_id [of "length sep" v] by simp
    then show ?thesis
      using 1(1) [OF True] True by (simp add: split_text.simps [of sep acc v] join_Cons split_text_not_Nil)
  next
    case False
    show ?thesis
    proof (cases v)
      case Nil
      then have "split_text sep acc v = [acc]" unfolding split_text.simps [of sep acc v] if_not_P [OF False] by simp
      then show ?thesis using Nil by simp
    next
      case (Cons c cs)
      then have "split_text sep acc v = split_text sep (acc @ [c]) cs"
        unfolding split_text.simps [of sep acc v] if_not_P [OF False] by simp
      then show ?thesis using 1(2) [OF False Cons] Cons by simp
    qed
  qed
qed

lemma split_short:
  assumes "length v < length sep"
  shows "split_text sep acc v = [acc @ v]"
  using assms
proof (induction v arbitrary: acc)
  case Nil
  then show ?case by (auto simp: split_text.simps [of sep acc "[]"])
next
  case (Cons c cs)
  then have "take (length sep) (c # cs) \<noteq> sep" by (metis length_take min_less_iff_conj nat_less_le)
  then show ?case using Cons by (simp add: split_text.simps [of sep acc "c # cs"])
qed

subsection \<open>What the array holds\<close>

text \<open>The heap consists of the cells \<open>c\<close>, of the array at \<open>a\<close> and of the strings \<open>as\<close> with the texts \<open>ps\<close>; \<open>free\<close> are
  the slots left.\<close>

definition held :: "(addr \<Rightarrow> sds_cell option) \<Rightarrow> sds_cell heap \<Rightarrow> addr \<Rightarrow> addr list \<Rightarrow> bytes list \<Rightarrow> addr option list \<Rightarrow> bool" where
  "held c h a as ps free \<longleftrightarrow> distinct (a # as) \<and> (\<forall>b \<in> set (a # as). c b = None)
     \<and> cells h a = Some (TokenBlock (map Some as @ free))
     \<and> list_all2 (\<lambda>b p. \<exists>s. cells h b = Some (SdsBlock s) \<and> is_str p s) as ps
     \<and> (\<forall>b. b \<notin> set (a # as) \<longrightarrow> cells h b = c b) \<and> heap_ok h"

lemma heldD:
  assumes "held c h a as ps free"
  shows "cells h a = Some (TokenBlock (map Some as @ free))" "distinct (a # as)" "length as = length ps" "heap_ok h"
    "b \<in> set as \<Longrightarrow> \<exists>s. cells h b = Some (SdsBlock s)"
proof -
  have l: "list_all2 (\<lambda>b p. \<exists>s. cells h b = Some (SdsBlock s) \<and> is_str p s) as ps" using assms by (simp add: held_def)
  show "length as = length ps" using l by (rule list_all2_lengthD)
  show "b \<in> set as \<Longrightarrow> \<exists>s. cells h b = Some (SdsBlock s)"
    using l by (induction rule: list_all2_induct) auto
qed (use assms in \<open>simp_all add: held_def\<close>)

lemma held_fresh: "held c h a as ps free \<Longrightarrow> cells h b = None \<Longrightarrow> b \<notin> set (a # as) \<and> c b = None"
proof -
  assume h: "held c h a as ps free" and n: "cells h b = None"
  have "b \<noteq> a" using heldD(1) [OF h] n by auto
  moreover have "b \<notin> set as" using heldD(5) [OF h, of b] n by auto
  ultimately show ?thesis using h n by (auto simp: held_def)
qed

lemma held_set:
  assumes "held c h a as ps (x # free)"
  shows "\<exists>h'. set_token h a (length as) None = Ok h' \<and> held c h' a as ps (None # free) \<and> fails h' = fails h"
proof -
  note d = heldD [OF assms]
  let ?h = "h\<lparr>cells := (cells h)(a \<mapsto> TokenBlock (map Some as @ None # free))\<rparr>"
  have "set_token h a (length as) None = Ok ?h"
    using d(1) by (simp add: set_token_def list_update_append)
  moreover have "list_all2 (\<lambda>b p. \<exists>s. cells ?h b = Some (SdsBlock s) \<and> is_str p s) as ps"
  proof (rule list.rel_mono_strong)
    show "list_all2 (\<lambda>b p. \<exists>s. cells h b = Some (SdsBlock s) \<and> is_str p s) as ps" using assms by (simp add: held_def)
  qed (use d(2) in auto)
  then have "held c ?h a as ps (None # free)"
    using assms d(1) by (auto simp: held_def heap_ok_def)
  ultimately show ?thesis by auto
qed

text \<open>A new string becomes the next element.\<close>

lemma held_add:
  assumes "held c h a as ps (x # free)" and "cells h1 = (cells h)(b \<mapsto> SdsBlock s)" "cells h b = None" "heap_ok h1" "is_str p s"
  shows "\<exists>h'. set_token h1 a (length as) (Some b) = Ok h' \<and> held c h' a (as @ [b]) (ps @ [p]) free \<and> fails h' = fails h1"
proof -
  note d = heldD [OF assms(1)]
  have b: "b \<noteq> a" "b \<notin> set as" "c b = None" using held_fresh [OF assms(1,3)] by auto
  let ?h = "h1\<lparr>cells := (cells h1)(a \<mapsto> TokenBlock (map Some (as @ [b]) @ free))\<rparr>"
  have "set_token h1 a (length as) (Some b) = Ok ?h"
    using d(1) b(1) assms(2) by (simp add: set_token_def list_update_append)
  moreover have "list_all2 (\<lambda>b p. \<exists>s. cells ?h b = Some (SdsBlock s) \<and> is_str p s) as ps"
  proof (rule list.rel_mono_strong)
    show "list_all2 (\<lambda>b p. \<exists>s. cells h b = Some (SdsBlock s) \<and> is_str p s) as ps" using assms(1) by (simp add: held_def)
  qed (use d(2) b assms(2) in auto)
  then have "list_all2 (\<lambda>b p. \<exists>s. cells ?h b = Some (SdsBlock s) \<and> is_str p s) (as @ [b]) (ps @ [p])"
    using b(1) assms(2,5) by (intro list_all2_appendI) auto
  moreover have "distinct (a # as @ [b])" using d(2) b by auto
  moreover have "\<forall>e. e \<notin> set (a # as @ [b]) \<longrightarrow> cells ?h e = c e" using assms(1,2) by (auto simp: held_def)
  moreover have "\<forall>e \<in> set (a # as @ [b]). c e = None" using assms(1) b(3) by (auto simp: held_def)
  moreover have "heap_ok ?h" using d(1) b(1) assms(2,4) by (auto simp: heap_ok_def)
  ultimately have "held c ?h a (as @ [b]) (ps @ [p]) free" unfolding held_def by simp
  then show ?thesis using \<open>set_token h1 a (length as) (Some b) = Ok ?h\<close> by auto
qed

lemma held_realloc:
  assumes "held c h a as ps free" and "length as \<le> n"
  shows "(\<exists>h'. realloc_tokens h (Some a) n = Ok (None, h') \<and> held c h' a as ps free \<and> fails h' = fails h \<and> \<not> no_fail h)
    \<or> (\<exists>b h' free'. realloc_tokens h (Some a) n = Ok (Some b, h') \<and> held c h' b as ps free'
         \<and> length as + length free' = n \<and> fails h' = fails h)"
proof (cases "fails h (calls h)")
  case True
  let ?h = "h\<lparr>calls := Suc (calls h)\<rparr>"
  have "realloc_tokens h (Some a) n = Ok (None, ?h)" using True heldD(1) [OF assms(1)] by (simp add: realloc_tokens_def halloc_def)
  moreover have "held c ?h a as ps free" using assms(1) by (simp add: held_def heap_ok_def less_Suc_eq)
  ultimately show ?thesis using True by (auto simp: no_fail_def)
next
  case False
  note d = heldD [OF assms(1)]
  let ?b = "calls h"
  have n: "cells h ?b = None" using d(4) by (rule heap_ok_fresh)
  note fr = held_fresh [OF assms(1) n]
  define free' where "free' = take (n - length as) (free @ replicate (n - length (map Some as @ free)) None)"
  have ts: "take n ((map Some as @ free) @ replicate (n - length (map Some as @ free)) None) = map Some as @ free'"
    using assms(2) by (simp add: free'_def)
  have l: "length as + length free' = n" using assms(2) by (auto simp: free'_def min_def)
  let ?h = "h\<lparr>calls := Suc (calls h), cells := ((cells h)(?b \<mapsto> TokenBlock (map Some as @ free')))(a := None)\<rparr>"
  have r: "realloc_tokens h (Some a) n = Ok (Some ?b, ?h)"
    using False d(1) fr ts by (auto simp: realloc_tokens_def halloc_def hfree_def)
  have "list_all2 (\<lambda>b p. \<exists>s. cells ?h b = Some (SdsBlock s) \<and> is_str p s) as ps"
  proof (rule list.rel_mono_strong)
    show "list_all2 (\<lambda>b p. \<exists>s. cells h b = Some (SdsBlock s) \<and> is_str p s) as ps" using assms(1) by (simp add: held_def)
  qed (use d(2) fr in auto)
  moreover have "heap_ok ?h" using d(4) by (auto simp: heap_ok_def less_Suc_eq)
  ultimately have "held c ?h ?b as ps free'" using assms(1) fr by (auto simp: held_def)
  then show ?thesis using r l by auto
qed

subsection \<open>Giving everything back\<close>

declare without_without [simp]

lemma free_without: "cells h b = Some x \<Longrightarrow> sdsfree h (Some b) = Ok (without h {b})"
  unfolding sdsfree_def by (rule hfree_without) simp

lemma cleanup_tokens_ok:
  assumes "cells h a = Some (TokenBlock (map Some (done @ as) @ free))" "distinct (a # as)" and "\<forall>b \<in> set as. cells h b \<noteq> None"
  shows "cleanup_tokens h a (length done) (length as) = Ok (without h (set as))"
  using assms
proof (induction as arbitrary: h "done")
  case (Cons b as)
  obtain x where x: "cells h b = Some x" using Cons.prems(3) by auto
  have t: "token_at h a (length done) = Ok (Some b)"
    using Cons.prems(1) by (simp add: token_at_def nth_append)
  let ?h = "without h {b}"
  have "cells ?h a = Some (TokenBlock (map Some ((done @ [b]) @ as) @ free))" "distinct (a # as)" "\<forall>e \<in> set as. cells ?h e \<noteq> None"
    using Cons.prems by auto
  from Cons.IH [OF this] show ?case
    using t free_without [OF x] by simp
qed simp

lemma free_tokens_ok:
  assumes "cells h a = Some (TokenBlock (map Some as @ free))" "distinct (a # as)" and "\<forall>b \<in> set as. cells h b \<noteq> None"
  shows "free_tokens h a (length as) = Ok (without h (set as))"
  using assms
proof (induction as arbitrary: h free rule: rev_induct)
  case (snoc b as)
  obtain x where x: "cells h b = Some x" using snoc.prems(3) by auto
  have t: "token_at h a (length as) = Ok (Some b)"
    using snoc.prems(1) by (simp add: token_at_def nth_append)
  let ?h = "without h {b}"
  have "cells ?h a = Some (TokenBlock (map Some as @ Some b # free))" "distinct (a # as)" "\<forall>e \<in> set as. cells ?h e \<noteq> None"
    using snoc.prems by auto
  from snoc.IH [OF this] show ?case
    using t free_without [OF x] by simp
qed simp

lemma held_wiped:
  assumes "held c h a as ps free"
  shows "\<exists>h'. hfree (without h (set as)) (Some a) = Ok h' \<and> cells h' = c \<and> heap_ok h' \<and> fails h' = fails h"
proof -
  note d = heldD [OF assms]
  have a: "cells (without h (set as)) a = Some (TokenBlock (map Some as @ free))" using d(1,2) by simp
  let ?h = "(without h (set as))\<lparr>cells := (cells (without h (set as)))(a := None)\<rparr>"
  have "hfree (without h (set as)) (Some a) = Ok ?h" using a by (simp add: hfree_def)
  moreover have "cells ?h = c" using assms by (auto simp: held_def fun_eq_iff)
  moreover have "heap_ok ?h" using heap_ok_delete [OF heap_ok_without [OF d(4)]] .
  ultimately show ?thesis by auto
qed

lemma held_cleanup:
  assumes "held c h a as ps free"
  shows "\<exists>h'. bnd (cleanup_tokens h a 0 (length as)) (\<lambda>h. bnd (hfree h (Some a)) (\<lambda>h. Ok ((None, 0), h))) = Ok ((None, 0), h')
    \<and> cells h' = c \<and> heap_ok h' \<and> fails h' = fails h"
proof -
  note d = heldD [OF assms]
  have "cleanup_tokens h a (length ([] :: addr list)) (length as) = Ok (without h (set as))"
    using d(1,2) heldD(5) [OF assms] by (intro cleanup_tokens_ok) auto
  then show ?thesis using held_wiped [OF assms] by auto
qed

lemma held_free:
  assumes "held c h a as ps free"
  shows "\<exists>h'. sdsfreesplitres h (Some a) (length as) = Ok h' \<and> cells h' = c \<and> heap_ok h' \<and> fails h' = fails h"
proof -
  note d = heldD [OF assms]
  have "free_tokens h a (length as) = Ok (without h (set as))"
    using d(1,2) heldD(5) [OF assms] by (intro free_tokens_ok) auto
  then show ?thesis using held_wiped [OF assms] by (simp add: sdsfreesplitres_def)
qed

subsection \<open>The loop\<close>

text \<open>Making an element of a part of the text.\<close>

lemma held_new:
  assumes "held c h a as ps (x # free)" and "start + n \<le> length s" "n < 2 ^ 62"
  shows "(\<exists>h1 h2. sdsnewlen h (Init (Bytes (drop start s))) n = Ok (None, h1) \<and> set_token h1 a (length as) None = Ok h2
        \<and> held c h2 a as ps (None # free) \<and> fails h2 = fails h \<and> \<not> no_fail h)
    \<or> (\<exists>b h1 h2. sdsnewlen h (Init (Bytes (drop start s))) n = Ok (Some b, h1) \<and> set_token h1 a (length as) (Some b) = Ok h2
        \<and> held c h2 a (as @ [b]) (ps @ [take n (drop start s)]) free \<and> fails h2 = fails h)"
proof -
  let ?v = "take n (drop start s)"
  have l: "length ?v = n" using assms(2) by simp
  have r: "reads h (calls h) (Bytes (drop start s)) ?v" by (simp, metis append_take_drop_id)
  have "creates h ?v (sdsnewlen h (Init (Bytes (drop start s))) (length ?v))"
    using newlen_creates [OF heldD(4) [OF assms(1)], of ?v "Init (Bytes (drop start s))" "Bytes (drop start s)"] r l assms(3)
    by simp
  then show ?thesis
    unfolding l creates_def
  proof (elim disjE exE conjE)
    fix h1 assume h1: "sdsnewlen h (Init (Bytes (drop start s))) n = Ok (None, h1)" "cells h1 = cells h" "heap_ok h1" "fails h1 = fails h"
      "\<not> no_fail h"
    have "held c h1 a as ps (x # free)" using assms(1) h1(2,3) by (simp add: held_def)
    then obtain h2 where "set_token h1 a (length as) None = Ok h2" "held c h2 a as ps (None # free)" "fails h2 = fails h1"
      using held_set by blast
    then show ?thesis using h1 by simp
  next
    fix b h1 u assume h1: "sdsnewlen h (Init (Bytes (drop start s))) n = Ok (Some b, h1)" "cells h1 = (cells h)(b \<mapsto> SdsBlock u)"
      "cells h b = None" "heap_ok h1" "fails h1 = fails h" "is_str ?v u"
    obtain h2 where "set_token h1 a (length as) (Some b) = Ok h2" "held c h2 a (as @ [b]) (ps @ [?v]) free" "fails h2 = fails h1"
      using held_add [OF assms(1) h1(2-4,6)] by blast
    then show ?thesis using h1 by simp
  qed
qed

lemma at_separator_eq:
  assumes "j + seplen \<le> length s" "seplen \<le> length sep" "0 < seplen"
  shows "at_separator s sep seplen j = Ok (take seplen (drop j s) = take seplen sep)"
proof (cases "seplen = 1")
  case True
  then have "take seplen (drop j s) = [s ! j]" "take seplen sep = [sep ! 0]"
    using assms by (simp_all add: take_Suc_conv_app_nth) (cases sep, simp_all)
  moreover have "j < length s" "0 < length sep" using True assms by linarith+
  ultimately show ?thesis using True assms by (simp add: at_separator_def byte_at_def)
qed (use assms in \<open>simp add: at_separator_def\<close>)

lemma split_loop_ok:
  assumes "held c h a as ps free" and "free \<noteq> []" and "length as \<le> j" "start \<le> j" "j \<le> len" "len \<le> length s" "len < 2 ^ 30 - 1"
    and "0 < seplen" "seplen \<le> length sep"
  shows "(\<exists>a' as' ps' free' start' h'.
        split_loop h s len sep seplen a (length as + length free) (length as) start j = Ok (Finished a' (length as') start', h')
        \<and> held c h' a' as' ps' free' \<and> free' \<noteq> [] \<and> fails h' = fails h \<and> start' \<le> len
        \<and> ps' @ [drop start' (take len s)]
          = ps @ split_text (take seplen sep) (take (j - start) (drop start s)) (drop j (take len s)))
    \<or> (\<exists>a' as' ps' free' h'.
        split_loop h s len sep seplen a (length as + length free) (length as) start j = Ok (Cleanup a' (length as'), h')
        \<and> held c h' a' as' ps' free' \<and> fails h' = fails h \<and> \<not> no_fail h)"
  using assms(1-5)
proof (induction "len - j" arbitrary: h a as ps free start j rule: less_induct)
  case less
  let ?sp = "take seplen sep" and ?v = "take len s"
  let ?acc = "take (j - start) (drop start s)"
  have lsp: "length ?sp = seplen" using assms(9) by simp
  show ?case
  proof (cases "j + seplen \<le> len")
    case False
    then have "\<not> int j < int len - (int seplen - 1)" by linarith
    then have "split_loop h s len sep seplen a (length as + length free) (length as) start j = Ok (Finished a (length as) start, h)"
      by (simp add: split_loop.simps [of h])
    moreover have "split_text ?sp ?acc (drop j ?v) = [?acc @ drop j ?v]"
      using False lsp assms(6) less.prems(5) by (intro split_short) (unfold lsp, simp)
    moreover have "?acc @ drop j ?v = drop start ?v"
    proof -
      have "?acc = take (j - start) (drop start ?v)" using less.prems(4,5) assms(6) by (simp add: drop_take)
      moreover have "drop j ?v = drop (j - start) (drop start ?v)" using less.prems(4) by (simp add: drop_drop)
      ultimately show ?thesis by (metis append_take_drop_id)
    qed
    ultimately show ?thesis using less.prems by (intro disjI1) fastforce
  next
    case True
    let ?loop = "split_loop h s len sep seplen a (length as + length free) (length as) start j"
    have c: "int j < int len - (int seplen - 1)" using True by linarith
    define room where "room = (if length as + length free < length as + 2
             then bnd (guard_or Overflow ((length as + length free) * 2 < 2 ^ 31)) (\<lambda>_.
                  bnd (realloc_tokens h (Some a) ((length as + length free) * 2)) (\<lambda>(r, h). Ok (r, (length as + length free) * 2, h)))
             else Ok (Some a, length as + length free, h))"
    define after where "after = (\<lambda>tokens slots h.
            bnd (at_separator s sep seplen j) (\<lambda>found.
            if found then
              bnd (sdsnewlen h (Init (Bytes (drop start s))) (j - start)) (\<lambda>(t, h).
              bnd (set_token h tokens (length as) t) (\<lambda>h.
              case t of
                None \<Rightarrow> Ok (Cleanup tokens (length as), h)
              | Some _ \<Rightarrow>
                  split_loop h s len sep seplen tokens slots (length as + 1) (j + seplen) (j + (seplen - 1) + 1)))
            else split_loop h s len sep seplen tokens slots (length as) start (j + 1)))"
    have u: "?loop = bnd room (\<lambda>(r, slots, h). case r of None \<Rightarrow> Ok (Cleanup a (length as), h) | Some tokens \<Rightarrow> after tokens slots h)"
      unfolding split_loop.simps [of h] if_P [OF c] room_def after_def ..
    have "(\<exists>h1 n. room = Ok (None, n, h1) \<and> held c h1 a as ps free \<and> fails h1 = fails h \<and> \<not> no_fail h)
      \<or> (\<exists>b h1 free1. room = Ok (Some b, length as + length free1, h1) \<and> held c h1 b as ps free1 \<and> 2 \<le> length free1 \<and> fails h1 = fails h)"
    proof (cases "length free < 2")
      case True
      then have l: "length free = 1" using less.prems(2) by (cases free) auto
      have n: "(length as + length free) * 2 < 2 ^ 31" using l less.prems(3,5) assms(7) by simp
      have "room = bnd (realloc_tokens h (Some a) ((length as + length free) * 2)) (\<lambda>(r, h). Ok (r, (length as + length free) * 2, h))"
        using True n unfolding room_def by simp
      moreover have "length as \<le> (length as + length free) * 2" by simp
      moreover have "2 \<le> length free1" if "length as + length free1 = (length as + length free) * 2" for free1 :: "addr option list"
        using that l by simp
      ultimately show ?thesis
        using held_realloc [OF less.prems(1), of "(length as + length free) * 2"] by fastforce
    next
      case False
      then have "room = Ok (Some a, length as + length free, h)" by (simp add: room_def)
      then show ?thesis using False less.prems(1) by auto
    qed
    then show ?thesis
    proof (elim disjE exE conjE)
      fix h1 n assume "room = Ok (None, n, h1)" "held c h1 a as ps free" "fails h1 = fails h" "\<not> no_fail h"
      then show ?thesis using u by (intro disjI2) fastforce
    next
      fix b h1 free1
      assume r: "room = Ok (Some b, length as + length free1, h1)" "held c h1 b as ps free1" "2 \<le> length free1" "fails h1 = fails h"
      then obtain x free2 where f: "free1 = x # free2" "free2 \<noteq> []" by (cases free1; cases "tl free1") auto
      have lp: "?loop = after b (length as + length free1) h1" using u r(1) by simp
      have nf: "no_fail h1 = no_fail h" using r(4) by (simp add: no_fail_def)
      have sepj: "at_separator s sep seplen j = Ok (take seplen (drop j s) = ?sp)"
        using True assms(6,8,9) by (intro at_separator_eq) linarith+
      have tk: "take (length ?sp) (drop j ?v) = take seplen (drop j s)"
        using True lsp by (simp add: drop_take min_def)
      show ?thesis
      proof (cases "take seplen (drop j s) = ?sp")
        case ne: False
        have a: "?loop = split_loop h1 s len sep seplen b (length as + length free1) (length as) start (j + 1)"
          using lp sepj ne by (simp add: after_def)
        have dj: "drop j ?v = s ! j # drop (j + 1) ?v"
          using True assms(6,8) by (simp add: Cons_nth_drop_Suc [symmetric])
        have acc: "take (j + 1 - start) (drop start s) = ?acc @ [s ! j]"
          using True less.prems(4) assms(6,8) by (simp add: Suc_diff_le take_Suc_conv_app_nth)
        have sp: "split_text ?sp ?acc (drop j ?v) = split_text ?sp (take (j + 1 - start) (drop start s)) (drop (j + 1) ?v)"
          using ne tk unfolding split_text.simps [of ?sp ?acc] acc by (simp add: dj)
        have "len - (j + 1) < len - j" "length as \<le> j + 1" "start \<le> j + 1" "j + 1 \<le> len" "free1 \<noteq> []"
          using True assms(8) less.prems(3,4) f by auto
        from less.hyps [OF this(1) r(2) this(5,2,3,4)] show ?thesis
          unfolding a sp r(4) nf .
      next
        case eq: True
        have bound: "start + (j - start) \<le> length s" "j - start < 2 ^ 62" using less.prems(4,5) assms(6,7) by auto
        have sp: "split_text ?sp ?acc (drop j ?v) = ?acc # split_text ?sp [] (drop (j + seplen) ?v)"
          using eq tk lsp assms(8) by (subst split_text.simps) (auto simp: add.commute)
        show ?thesis
          using held_new [OF r(2) [unfolded f(1)] bound]
        proof (elim disjE exE conjE)
          fix h2 h3
          assume "sdsnewlen h1 (Init (Bytes (drop start s))) (j - start) = Ok (None, h2)" "set_token h2 b (length as) None = Ok h3"
            "held c h3 b as ps (None # free2)" "fails h3 = fails h1" "\<not> no_fail h1"
          then show ?thesis using lp sepj eq r(4) nf by (intro disjI2) (fastforce simp: after_def)
        next
          fix d h2 h3
          assume n: "sdsnewlen h1 (Init (Bytes (drop start s))) (j - start) = Ok (Some d, h2)"
            "set_token h2 b (length as) (Some d) = Ok h3"
            "held c h3 b (as @ [d]) (ps @ [?acc]) free2" "fails h3 = fails h1"
          have e: "j + (seplen - 1) + 1 = j + seplen" using assms(8) by simp
          have a: "?loop = split_loop h3 s len sep seplen b (length (as @ [d]) + length free2) (length (as @ [d])) (j + seplen) (j + seplen)"
            using lp sepj eq n(1,2) e f(1) by (simp add: after_def)
          have k: "len - (j + seplen) < len - j" "length (as @ [d]) \<le> j + seplen" "j + seplen \<le> len"
            using True assms(8) less.prems(3) by auto
          have "take (j + seplen - (j + seplen)) (drop (j + seplen) s) = []" by simp
          moreover have "(ps @ [?acc]) @ split_text ?sp [] (drop (j + seplen) ?v) = ps @ split_text ?sp ?acc (drop j ?v)"
            unfolding sp by simp
          moreover have "fails h3 = fails h" "no_fail h3 = no_fail h" using n(4) r(4) nf by (simp_all add: no_fail_def)
          ultimately show ?thesis
            using less.hyps [OF k(1) n(3) f(2) k(2) order.refl k(3)] unfolding a by simp
        qed
      qed
    qed
  qed
qed

lemma split_text_free_of_sep:
  assumes "sep \<noteq> []" and "\<And>x y. acc @ v = x @ sep @ y \<Longrightarrow> length acc \<le> length x" and "p \<in> set (split_text sep acc v)"
  shows "p \<noteq> x @ sep @ y"
  using assms
proof (induction sep acc v arbitrary: x y rule: split_text.induct)
  case (1 sep acc v)
  have no_acc: "acc \<noteq> x @ sep @ y" for x y
  proof
    assume "acc = x @ sep @ y"
    then show False using 1(4) [of x "y @ v"] 1(3) by simp
  qed
  show ?case
  proof (cases "sep \<noteq> [] \<and> take (length sep) v = sep")
    case True
    then have "split_text sep acc v = acc # split_text sep [] (drop (length sep) v)" by (simp add: split_text.simps [of sep acc v])
    then show ?thesis using 1(1) [OF True 1(3)] 1(5) no_acc by auto
  next
    case False
    show ?thesis
    proof (cases v)
      case Nil
      then have "split_text sep acc v = [acc]" unfolding split_text.simps [of sep acc v] if_not_P [OF False] by simp
      then show ?thesis using 1(5) no_acc by simp
    next
      case (Cons c cs)
      have s: "split_text sep acc v = split_text sep (acc @ [c]) cs"
        unfolding split_text.simps [of sep acc v] if_not_P [OF False] by (simp add: Cons)
      have shift: "length (acc @ [c]) \<le> length x" if e: "(acc @ [c]) @ cs = x @ sep @ y" for x y
      proof (rule ccontr)
        assume "\<not> length (acc @ [c]) \<le> length x"
        moreover have "length acc \<le> length x" using 1(4) [of x y] e Cons by simp
        ultimately have "length acc = length x" by simp
        then have "v = sep @ y" using e Cons by simp
        then show False using False 1(3) by simp
      qed
      show ?thesis by (rule 1(2) [OF False Cons 1(3) shift 1(5) [unfolded s]])
    qed
  qed
qed

lemma splitlen_held:
  assumes "heap_ok h" and "0 < len" "len \<le> length s" "len < 2 ^ 30 - 1" and "0 < seplen" "seplen \<le> length sep"
  shows "(\<exists>n h'. sdssplitlen h s (int len) sep (int seplen) count = Ok ((None, n), h') \<and> cells h' = cells h \<and> heap_ok h'
        \<and> fails h' = fails h \<and> \<not> no_fail h)
    \<or> (\<exists>a as free h'. sdssplitlen h s (int len) sep (int seplen) count = Ok ((Some a, length as), h')
        \<and> held (cells h) h' a as (split_text (take seplen sep) [] (take len s)) free \<and> fails h' = fails h)"
proof (cases "fails h (calls h)")
  case True
  then show ?thesis using assms
    by (intro disjI1) (auto simp: sdssplitlen_def halloc_def no_fail_def heap_ok_def less_Suc_eq)
next
  case False
  let ?a = "calls h" and ?h = "h\<lparr>cells := (cells h)(calls h \<mapsto> TokenBlock (replicate 5 None)), calls := Suc (calls h)\<rparr>"
  have al: "halloc h (TokenBlock (replicate 5 None)) = (Some ?a, ?h)" using False by (simp add: halloc_def)
  have ne: "\<not> (int seplen < 1 \<or> int len \<le> 0)" using assms(2,5) by simp
  define clean where "clean = (\<lambda>h tokens elements.
              bnd (cleanup_tokens h tokens 0 elements) (\<lambda>h.
              bnd (hfree h (Some tokens)) (\<lambda>h. Ok ((None :: addr option, 0 :: nat), h))))"
  have u: "sdssplitlen h s (int len) sep (int seplen) count =
      bnd (split_loop ?h s len sep seplen ?a 5 0 0 0) (\<lambda>(e, h).
               case e of
                 Cleanup tokens elements \<Rightarrow> clean h tokens elements
               | Finished tokens elements start \<Rightarrow>
                   bnd (sdsnewlen h (Init (Bytes (drop start s))) (len - start)) (\<lambda>(t, h).
                   bnd (set_token h tokens elements t) (\<lambda>h.
                   case t of
                     None \<Rightarrow> clean h tokens elements
                   | Some _ \<Rightarrow> Ok ((Some tokens, elements + 1), h))))"
    unfolding sdssplitlen_def if_not_P [OF ne] Let_def al prod.case option.case nat_int clean_def ..
  have hd: "held (cells h) ?h ?a [] [] (replicate 5 None)"
    using assms(1) heap_ok_fresh [OF assms(1)] by (auto simp: held_def heap_ok_def less_Suc_eq)
  have clean: "\<exists>h''. clean h' a (length as) = Ok ((None, 0), h'') \<and> cells h'' = cells h \<and> heap_ok h'' \<and> fails h'' = fails h'"
    if "held (cells h) h' a as ps free" for h' a as ps free
    using held_cleanup [OF that] unfolding clean_def .
  have "replicate 5 (None :: addr option) \<noteq> []" by simp
  note loop = split_loop_ok [OF hd this _ order.refl _ assms(3,4,5,6), of 0, simplified]
  then show ?thesis
  proof (elim disjE exE conjE)
    fix a' as' ps' free' start' h1
    assume l: "split_loop ?h s len sep seplen ?a 5 0 0 0 = Ok (Finished a' (length as') start', h1)"
      and h1: "held (cells h) h1 a' as' ps' free'" "free' \<noteq> []" "fails h1 = fails h" "start' \<le> len"
      and ps: "ps' @ [drop start' (take len s)] = split_text (take seplen sep) [] (take len s)"
    obtain x free2 where f: "free' = x # free2" using h1(2) by (cases free') auto
    have b: "start' + (len - start') \<le> length s" "len - start' < 2 ^ 62" using h1(4) assms(3,4) by auto
    have pc: "take (len - start') (drop start' s) = drop start' (take len s)" by (simp add: drop_take)
    show ?thesis
      using held_new [OF h1(1) [unfolded f] b]
    proof (elim disjE exE conjE)
      fix h2 h3
      assume n: "sdsnewlen h1 (Init (Bytes (drop start' s))) (len - start') = Ok (None, h2)" "set_token h2 a' (length as') None = Ok h3"
        "held (cells h) h3 a' as' ps' (None # free2)" "fails h3 = fails h1" "\<not> no_fail h1"
      obtain h4 where c: "clean h3 a' (length as') = Ok ((None, 0), h4)" "cells h4 = cells h" "heap_ok h4" "fails h4 = fails h3"
        using clean [OF n(3)] by blast
      have "sdssplitlen h s (int len) sep (int seplen) count = Ok ((None, 0), h4)"
        unfolding u l bnd.simps prod.case split_end.case n(1,2) option.case c(1) ..
      then show ?thesis using c n(4,5) h1(3) by (intro disjI1) (auto simp: no_fail_def)
    next
      fix d h2 h3
      assume n: "sdsnewlen h1 (Init (Bytes (drop start' s))) (len - start') = Ok (Some d, h2)" "set_token h2 a' (length as') (Some d) = Ok h3"
        "held (cells h) h3 a' (as' @ [d]) (ps' @ [take (len - start') (drop start' s)]) free2" "fails h3 = fails h1"
      have "sdssplitlen h s (int len) sep (int seplen) count = Ok ((Some a', length (as' @ [d])), h3)"
        unfolding u l bnd.simps prod.case split_end.case n(1,2) option.case by simp
      moreover have "held (cells h) h3 a' (as' @ [d]) (split_text (take seplen sep) [] (take len s)) free2"
        using n(3) unfolding pc ps .
      ultimately show ?thesis using n(4) h1(3) by (intro disjI2) (metis)
    qed
  next
    fix a' as' ps' free' h1
    assume l: "split_loop ?h s len sep seplen ?a 5 0 0 0 = Ok (Cleanup a' (length as'), h1)"
      and h1: "held (cells h) h1 a' as' ps' free'" "fails h1 = fails h" "\<not> no_fail ?h"
    obtain h4 where c: "clean h1 a' (length as') = Ok ((None, 0), h4)" "cells h4 = cells h" "heap_ok h4" "fails h4 = fails h1"
      using clean [OF h1(1)] by blast
    have "sdssplitlen h s (int len) sep (int seplen) count = Ok ((None, 0), h4)"
      unfolding u l bnd.simps prod.case split_end.case c(1) ..
    then show ?thesis using c h1(2,3) by (intro disjI1) (auto simp: no_fail_def)
  qed
qed

subsection \<open>Joining\<close>

lemma cat_owned:
  assumes "owned c h a v" and "length v + length bs < 2 ^ 62"
  shows "\<exists>a' h'. sdscatlen h a (Bytes (bs @ rest)) (length bs) = Ok (Some a', h') \<and> owned c h' a' (v @ bs)"
proof -
  obtain s where s: "cells h a = Some (SdsBlock s)" "sds_wf s" "sds_val s = v" "sdslen s = length v" "heap_ok h"
    using ownedE [OF assms(1)] by blast
  have "gives h a (is_str (v @ bs)) (sdscatlen h a (Bytes (bs @ rest)) (length bs))"
    using catlen_gives [OF s(1,2,5), of bs "Bytes (bs @ rest)"] assms(2) s(3,4) by simp
  then show ?thesis by (rule gives_owned [OF assms(1)])
qed

lemma joinsds_loop_owned:
  assumes "owned c h a v" and "list_all2 (\<lambda>b p. \<exists>t. c b = Some (SdsBlock t) \<and> is_str p t) as ps"
    and "length v + length (join_text sep ps) < 2 ^ 62"
  shows "\<exists>a' h'. joinsds_loop h (Some a) as (Bytes (sep @ rest)) (length sep) = Ok (Some a', h') \<and> owned c h' a' (v @ join_text sep ps)"
  using assms(2,1,3)
proof (induction as ps arbitrary: h a v rule: list_all2_induct)
  case Nil
  then show ?case by auto
next
  case (Cons b as p ps)
  obtain t where t: "c b = Some (SdsBlock t)" "is_str p t" using Cons.hyps(1) by blast
  have "length v + length p < 2 ^ 62" using Cons.prems(2) by (cases ps) auto
  then obtain a1 h1 where r: "sdscatsds h a b = Ok (Some a1, h1)" "owned c h1 a1 (v @ p)"
    using catsds_owned [OF Cons.prems(1) _ t] by blast
  have e: "as = [] \<longleftrightarrow> ps = []" using Cons.hyps(2) by (auto dest: list_all2_lengthD)
  show ?case
  proof (cases "ps = []")
    case True
    then show ?thesis using r e by auto
  next
    case False
    have b: "length (v @ p) + length sep < 2 ^ 62" "length ((v @ p) @ sep) + length (join_text sep ps) < 2 ^ 62"
      using Cons.prems(2) by (simp_all add: join_Cons [OF False])
    obtain a2 h2 where s: "sdscatlen h1 a1 (Bytes (sep @ rest)) (length sep) = Ok (Some a2, h2)" "owned c h2 a2 ((v @ p) @ sep)"
      using cat_owned [OF r(2) b(1)] by blast
    show ?thesis using Cons.IH [OF s(2) b(2)] r(1) s(1) e False by (simp add: join_Cons)
  qed
qed

lemma joinsds_owned:
  assumes "heap_ok h" "no_fail h" and "list_all2 (\<lambda>b p. \<exists>t. cells h b = Some (SdsBlock t) \<and> is_str p t) as ps"
    and "length (join_text sep ps) < 2 ^ 62"
  shows "\<exists>a h'. sdsjoinsds h as (Bytes (sep @ rest)) (length sep) = Ok (Some a, h') \<and> owned (cells h) h' a (join_text sep ps)"
proof -
  obtain a h1 where e: "sdsempty h = Ok (Some a, h1)" "owned (cells h) h1 a []" using empty_owned [OF assms(1,2)] by blast
  show ?thesis using joinsds_loop_owned [OF e(2) assms(3), of sep rest] assms(4) e(1) by (simp add: sdsjoinsds_def)
qed

lemma join_loop_owned:
  assumes "owned c h a v" and "\<forall>p \<in> set ps. cstring p" "cstring sep" and "length v + length (join_text sep ps) < 2 ^ 62"
  shows "\<exists>a' h'. join_loop h (Some a) (map (\<lambda>p. p @ [NUL]) ps) (sep @ [NUL]) = Ok (Some a', h') \<and> owned c h' a' (v @ join_text sep ps)"
  using assms(1,2,4)
proof (induction ps arbitrary: h a v)
  case (Cons p ps)
  have "op_fits (CatString p) v" using Cons.prems(2,3) by (cases ps) auto
  then obtain a1 h1 where r: "sdscat h a (p @ [NUL]) = Ok (Some a1, h1)" "owned c h1 a1 (v @ p)"
    using tb.step [OF Cons.prems(1)] by fastforce
  show ?case
  proof (cases "ps = []")
    case True
    then show ?thesis using r by simp
  next
    case False
    have b: "op_fits (CatString sep) (v @ p)" "length ((v @ p) @ sep) + length (join_text sep ps) < 2 ^ 62" "\<forall>p \<in> set ps. cstring p"
      using Cons.prems(2,3) assms(3) by (simp_all add: join_Cons [OF False])
    obtain a2 h2 where s: "sdscat h1 a1 (sep @ [NUL]) = Ok (Some a2, h2)" "owned c h2 a2 ((v @ p) @ sep)"
      using tb.step [OF r(2) b(1)] by fastforce
    show ?thesis using Cons.IH [OF s(2) b(3,2)] r(1) s(1) False by (simp add: join_Cons)
  qed
qed auto

lemma join_owned:
  assumes "heap_ok h" "no_fail h" and "\<forall>p \<in> set ps. cstring p" "cstring sep" and "length (join_text sep ps) < 2 ^ 62"
  shows "\<exists>a h'. sdsjoin h (map (\<lambda>p. p @ [NUL]) ps) (sep @ [NUL]) = Ok (Some a, h') \<and> owned (cells h) h' a (join_text sep ps)"
proof -
  obtain a h1 where e: "sdsempty h = Ok (Some a, h1)" "owned (cells h) h1 a []" using empty_owned [OF assms(1,2)] by blast
  show ?thesis using join_loop_owned [OF e(2) assms(3,4)] assms(5) e(1) by (simp add: sdsjoin_def)
qed

section \<open>Properties\<close>

text \<open>C19: \<open>sdssplitlen\<close> returns new strings that hold the pieces of the text between the separators, found from left to
  right, with their number, and freeing the result gives all memory back; or memory runs out, and it returns NULL and
  leaves nothing behind.\<close>

theorem split_exact:
  assumes "heap_ok h" and "0 < len" "len \<le> length s" "len < 2 ^ 30 - 1" and "0 < seplen" "seplen \<le> length sep"
  shows "(\<exists>n h'. sdssplitlen h s (int len) sep (int seplen) count = Ok ((None, n), h') \<and> cells h' = cells h \<and> \<not> no_fail h)
    \<or> (\<exists>a as h' h''. sdssplitlen h s (int len) sep (int seplen) count = Ok ((Some a, length as), h')
        \<and> (\<exists>free. cells h' a = Some (TokenBlock (map Some as @ free)))
        \<and> list_all2 (\<lambda>b p. \<exists>t. cells h' b = Some (SdsBlock t) \<and> sds_ok t \<and> sds_val t = p) as
            (split_text (take seplen sep) [] (take len s))
        \<and> (\<forall>b. cells h b \<noteq> None \<longrightarrow> cells h' b = cells h b)
        \<and> sdsfreesplitres h' (Some a) (length as) = Ok h'' \<and> cells h'' = cells h)"
  using splitlen_held [OF assms, of count]
proof (elim disjE exE conjE)
  fix a as free h'
  assume r: "sdssplitlen h s (int len) sep (int seplen) count = Ok ((Some a, length as), h')"
    and hd: "held (cells h) h' a as (split_text (take seplen sep) [] (take len s)) free"
  obtain h'' where f: "sdsfreesplitres h' (Some a) (length as) = Ok h''" "cells h'' = cells h" using held_free [OF hd] by blast
  have o: "\<forall>b. cells h b \<noteq> None \<longrightarrow> cells h' b = cells h b"
  proof (intro allI impI)
    fix b assume b: "cells h b \<noteq> None"
    have n: "\<forall>e \<in> set (a # as). cells h e = None" and o: "\<forall>e. e \<notin> set (a # as) \<longrightarrow> cells h' e = cells h e"
      using hd by (simp_all add: held_def)
    from n b have "b \<notin> set (a # as)" by (metis)
    then show "cells h' b = cells h b" using o by (metis)
  qed
  have l: "list_all2 (\<lambda>b p. \<exists>t. cells h' b = Some (SdsBlock t) \<and> sds_ok t \<and> sds_val t = p) as
      (split_text (take seplen sep) [] (take len s))" using hd by (simp add: held_def is_str_def)
  show ?thesis using r heldD(1) [OF hd] o l f by blast
qed blast

theorem split_exact_witness:
  "\<exists>a as h'. sdssplitlen (empty_heap (\<lambda>_. False)) ''foo_-_bar'' 9 ''_-_'' 3 7 = Ok ((Some a, 2), h')
    \<and> list_all2 (\<lambda>b p. \<exists>t. cells h' b = Some (SdsBlock t) \<and> sds_ok t \<and> sds_val t = p) as [''foo'', ''bar'']"
proof -
  have h: "heap_ok (empty_heap (\<lambda>_. False))" "no_fail (empty_heap (\<lambda>_. False))"
    by (simp_all add: empty_heap_def heap_ok_def no_fail_def)
  have s: "split_text (take 3 ''_-_'') [] (take 9 ''foo_-_bar'') = [''foo'', ''bar'']"
    by (simp add: split_text.simps)
  obtain a as h' where r: "sdssplitlen (empty_heap (\<lambda>_. False)) ''foo_-_bar'' (int 9) ''_-_'' (int 3) 7 = Ok ((Some a, length as), h')"
    "list_all2 (\<lambda>b p. \<exists>t. cells h' b = Some (SdsBlock t) \<and> sds_ok t \<and> sds_val t = p) as [''foo'', ''bar'']"
    using split_exact [OF h(1), of 9 "''foo_-_bar''" 3 "''_-_''" 7] h(2) unfolding s by fastforce
  have "length as = 2" using list_all2_lengthD [OF r(2)] by simp
  then show ?thesis using r by auto
qed

text \<open>C20: Splitting and joining are inverse: the pieces do not contain the separator, and \<open>sdsjoinsds\<close> puts them
  together to the text that was split.\<close>

theorem split_join_roundtrip:
  assumes "heap_ok h" "no_fail h" and "0 < len" "len \<le> length s" "len < 2 ^ 30 - 1" and "0 < seplen" "seplen \<le> length sep"
  shows "\<exists>a as h1 j h2 t. sdssplitlen h s (int len) sep (int seplen) count = Ok ((Some a, length as), h1)
    \<and> (\<forall>b \<in> set as. \<exists>u. cells h1 b = Some (SdsBlock u) \<and> (\<forall>x y. sds_val u \<noteq> x @ take seplen sep @ y))
    \<and> sdsjoinsds h1 as (Bytes sep) seplen = Ok (Some j, h2)
    \<and> cells h2 = (cells h1)(j \<mapsto> SdsBlock t) \<and> sds_ok t \<and> sds_val t = take len s"
proof -
  let ?sp = "take seplen sep" and ?v = "take len s"
  have ne: "?sp \<noteq> []" using assms(6,7) by auto
  obtain a as free h1 where r: "sdssplitlen h s (int len) sep (int seplen) count = Ok ((Some a, length as), h1)"
    "held (cells h) h1 a as (split_text ?sp [] ?v) free" "fails h1 = fails h"
    using splitlen_held [OF assms(1,3-7)] assms(2) by blast
  have l: "list_all2 (\<lambda>b p. \<exists>s. cells h1 b = Some (SdsBlock s) \<and> is_str p s) as (split_text ?sp [] ?v)"
    using r(2) by (simp add: held_def)
  have free_sep: "\<forall>p \<in> set (split_text ?sp [] ?v). \<forall>x y. p \<noteq> x @ ?sp @ y"
    by (intro ballI allI split_text_free_of_sep [OF ne, of "[]" ?v]) simp_all
  have "\<exists>u. cells h1 b = Some (SdsBlock u) \<and> (\<forall>x y. sds_val u \<noteq> x @ ?sp @ y)" if "b \<in> set as" for b
    using l that free_sep by (induction rule: list_all2_induct) (auto simp: is_str_def)
  then have pieces: "\<forall>b \<in> set as. \<exists>u. cells h1 b = Some (SdsBlock u) \<and> (\<forall>x y. sds_val u \<noteq> x @ ?sp @ y)" by blast
  have nf: "no_fail h1" using r(3) assms(2) by (simp add: no_fail_def)
  have j: "join_text ?sp (split_text ?sp [] ?v) = ?v" using join_split [of ?sp "[]"] by simp
  have lv: "length (join_text ?sp (split_text ?sp [] ?v)) < 2 ^ 62" unfolding j using assms(5) by simp
  have src: "?sp @ drop seplen sep = sep" "length ?sp = seplen" using assms(7) by simp_all
  obtain j h2 where r2: "sdsjoinsds h1 as (Bytes sep) seplen = Ok (Some j, h2)" "owned (cells h1) h2 j ?v"
    using joinsds_owned [OF heldD(4) [OF r(2)] nf l lv, of "drop seplen sep"] unfolding j src by blast
  obtain t where "cells h2 = (cells h1)(j \<mapsto> SdsBlock t)" "sds_ok t" "sds_val t = ?v" using r2(2) by (auto simp: owned_def is_str_def)
  then show ?thesis using r(1) pieces r2(1) by blast
qed

theorem split_join_roundtrip_witness:
  "\<exists>a as h1 j h2 t. sdssplitlen (empty_heap (\<lambda>_. False)) ''a--b-c--'' 8 ''--'' 2 0 = Ok ((Some a, length as), h1)
    \<and> sdsjoinsds h1 as (Bytes ''--'') 2 = Ok (Some j, h2) \<and> cells h2 j = Some (SdsBlock t) \<and> sds_val t = ''a--b-c--''"
proof -
  have h: "heap_ok (empty_heap (\<lambda>_. False))" "no_fail (empty_heap (\<lambda>_. False))"
    by (simp_all add: empty_heap_def heap_ok_def no_fail_def)
  have v: "take 8 ''a--b-c--'' = ''a--b-c--''" by simp
  obtain a as h1 j h2 t where r: "sdssplitlen (empty_heap (\<lambda>_. False)) ''a--b-c--'' (int 8) ''--'' (int 2) 0 = Ok ((Some a, length as), h1)"
    "sdsjoinsds h1 as (Bytes ''--'') 2 = Ok (Some j, h2)" "cells h2 = (cells h1)(j \<mapsto> SdsBlock t)" "sds_val t = ''a--b-c--''"
    using split_join_roundtrip [OF h, of 8 "''a--b-c--''" 2 "''--''" 0] unfolding v by fastforce
  then have "cells h2 j = Some (SdsBlock t)" by simp
  then show ?thesis using r(1,2,4) by auto
qed

end
