(* ===== verification/Sds_Quote.thy ===== *)
theory Sds_Quote
  imports Sds_Format Sds_Split
begin

section \<open>Quoting and splitting arguments\<close>

text \<open>
  \<open>sdscatrepr\<close> appends a text in quotes, with escapes for what cannot be printed; \<open>sdssplitargs\<close> reads a line of
  such arguments, of plain ones and of ones in single quotes into an array of strings. Characters are
  classified as in the C locale.
\<close>

abbreviation BACKSLASH :: char where "BACKSLASH \<equiv> CHR 0x5C"
abbreviation DQUOTE :: char where "DQUOTE \<equiv> CHR 0x22"
abbreviation SQUOTE :: char where "SQUOTE \<equiv> CHR 0x27"

definition is_print :: "char \<Rightarrow> bool" where
  "is_print c \<longleftrightarrow> 32 \<le> (of_char c :: nat) \<and> (of_char c :: nat) \<le> 126"

subsection \<open>Quoting\<close>

text \<open>The text of \<open>%02x\<close> for a byte.\<close>

definition hex_byte :: "char \<Rightarrow> bytes" where
  "hex_byte c = [digit_char (of_char c div 16), digit_char (of_char c mod 16)]"

definition repr_char :: "sds_cell heap \<Rightarrow> addr \<Rightarrow> char \<Rightarrow> (addr option \<times> sds_cell heap) outcome" where
  "repr_char h s c =
     (if c = BACKSLASH \<or> c = DQUOTE
      then sdscatprintf h s [BACKSLASH, CHR ''%'', CHR ''c'', NUL] (Some [BACKSLASH, c])
      else if c = CHR 0x0A then sdscatlen h s (Bytes [BACKSLASH, CHR ''n'', NUL]) 2
      else if c = CHR 0x0D then sdscatlen h s (Bytes [BACKSLASH, CHR ''r'', NUL]) 2
      else if c = CHR 0x09 then sdscatlen h s (Bytes [BACKSLASH, CHR ''t'', NUL]) 2
      else if c = CHR 0x07 then sdscatlen h s (Bytes [BACKSLASH, CHR ''a'', NUL]) 2
      else if c = CHR 0x08 then sdscatlen h s (Bytes [BACKSLASH, CHR ''b'', NUL]) 2
      else if is_print c then sdscatprintf h s (''%c'' @ [NUL]) (Some [c])
      else sdscatprintf h s (BACKSLASH # ''x%02x'' @ [NUL]) (Some (BACKSLASH # CHR ''x'' # hex_byte c)))"

fun repr_loop :: "sds_cell heap \<Rightarrow> addr option \<Rightarrow> bytes \<Rightarrow> nat \<Rightarrow> nat \<Rightarrow> (addr option \<times> sds_cell heap) outcome" where
  "repr_loop h s p i 0 = Ok (s, h)"
| "repr_loop h s p i (Suc len) =
     bnd (byte_at p i) (\<lambda>c.
     bnd (deref s) (\<lambda>a.
     bnd (repr_char h a c) (\<lambda>(s, h). repr_loop h s p (i + 1) len)))"

definition sdscatrepr :: "sds_cell heap \<Rightarrow> addr \<Rightarrow> bytes \<Rightarrow> nat \<Rightarrow> (addr option \<times> sds_cell heap) outcome" where
  "sdscatrepr h s p len =
     bnd (sdscatlen h s (Bytes [DQUOTE, NUL]) 1) (\<lambda>(s, h).
     bnd (repr_loop h s p 0 len) (\<lambda>(s, h).
     bnd (deref s) (\<lambda>a. sdscatlen h a (Bytes [DQUOTE, NUL]) 1)))"

subsection \<open>Hexadecimal digits\<close>

definition is_hex_digit :: "char \<Rightarrow> bool" where
  "is_hex_digit c \<longleftrightarrow>
     (let n = (of_char c :: nat) in (48 \<le> n \<and> n \<le> 57) \<or> (97 \<le> n \<and> n \<le> 102) \<or> (65 \<le> n \<and> n \<le> 70))"

text \<open>The cases of the switch, each label with its value.\<close>

definition hex_labels :: "(char \<times> nat) list" where
  "hex_labels = zip ''0123456789abcdef'' [0..<16] @ zip ''ABCDEF'' [10..<16]"

definition hex_digit_to_int :: "char \<Rightarrow> nat" where
  "hex_digit_to_int c = (case map_of hex_labels c of Some n \<Rightarrow> n | None \<Rightarrow> 0)"

subsection \<open>One argument\<close>

text \<open>What one turn of the inner loop does, with the position of \<open>*p\<close> at its end: append a character, open a quote, finish
  the argument, or jump to the error.\<close>

datatype scan = Append char nat | OpenQuote bool bool | Done | Err

definition hex_escape :: "bytes \<Rightarrow> nat \<Rightarrow> bool outcome" where
  "hex_escape line p =
     bnd (byte_at line p) (\<lambda>c. if c \<noteq> BACKSLASH then Ok False else
     bnd (byte_at line (p + 1)) (\<lambda>c. if c \<noteq> CHR ''x'' then Ok False else
     bnd (byte_at line (p + 2)) (\<lambda>c. if \<not> is_hex_digit c then Ok False else
     bnd (byte_at line (p + 3)) (\<lambda>c. Ok (is_hex_digit c)))))"

definition unescape :: "char \<Rightarrow> char" where
  "unescape c =
     (if c = CHR ''n'' then CHR 0x0A else if c = CHR ''r'' then CHR 0x0D else if c = CHR ''t'' then CHR 0x09
      else if c = CHR ''b'' then CHR 0x08 else if c = CHR ''a'' then CHR 0x07 else c)"

text \<open>A closing quote must be followed by a space or nothing at all.\<close>

definition close_quote :: "bytes \<Rightarrow> nat \<Rightarrow> scan outcome" where
  "close_quote line p =
     bnd (byte_at line (p + 1)) (\<lambda>c. Ok (if c \<noteq> NUL \<and> \<not> is_space c then Err else Done))"

definition scan_double :: "bytes \<Rightarrow> nat \<Rightarrow> char \<Rightarrow> scan outcome" where
  "scan_double line p c =
     bnd (hex_escape line p) (\<lambda>hex.
     if hex then
       bnd (byte_at line (p + 2)) (\<lambda>a. bnd (byte_at line (p + 3)) (\<lambda>b.
       Ok (Append (char_of ((hex_digit_to_int a * 16 + hex_digit_to_int b) mod 256)) (p + 3))))
     else
       bnd (if c = BACKSLASH then bnd (byte_at line (p + 1)) (\<lambda>d. Ok (d \<noteq> NUL)) else Ok False) (\<lambda>esc.
       if esc then bnd (byte_at line (p + 1)) (\<lambda>d. Ok (Append (unescape d) (p + 1)))
       else if c = DQUOTE then close_quote line p
       else if c = NUL then Ok Err
       else Ok (Append c p)))"

definition scan_single :: "bytes \<Rightarrow> nat \<Rightarrow> char \<Rightarrow> scan outcome" where
  "scan_single line p c =
     bnd (if c = BACKSLASH then bnd (byte_at line (p + 1)) (\<lambda>d. Ok (d = SQUOTE)) else Ok False) (\<lambda>esc.
     if esc then Ok (Append SQUOTE (p + 1))
     else if c = SQUOTE then close_quote line p
     else if c = NUL then Ok Err
     else Ok (Append c p))"

definition scan_plain :: "nat \<Rightarrow> char \<Rightarrow> scan" where
  "scan_plain p c =
     (if c = CHR '' '' \<or> c = CHR 0x0A \<or> c = CHR 0x0D \<or> c = CHR 0x09 \<or> c = NUL then Done
      else if c = DQUOTE then OpenQuote True False
      else if c = SQUOTE then OpenQuote False True
      else Append c p)"

definition scan_step :: "bytes \<Rightarrow> nat \<Rightarrow> bool \<Rightarrow> bool \<Rightarrow> scan outcome" where
  "scan_step line p inq insq =
     bnd (byte_at line p) (\<lambda>c.
     if inq then scan_double line p c
     else if insq then scan_single line p c
     else Ok (scan_plain p c))"

definition advance :: "bytes \<Rightarrow> nat \<Rightarrow> nat outcome" where
  "advance line p = bnd (byte_at line p) (\<lambda>c. Ok (if c \<noteq> NUL then p + 1 else p))"

text \<open>The current string is NULL when memory has run out; the next append follows it.\<close>

datatype token_end = Token nat "addr option" | BadToken "addr option"

lemma hex_escape_True: "hex_escape line p = Ok True \<Longrightarrow> \<exists>b. byte_at line (p + 3) = Ok b \<and> is_hex_digit b"
  by (auto simp: hex_escape_def bnd_Ok_iff split: if_splits)

lemma hex_not_NUL: "is_hex_digit c \<Longrightarrow> c \<noteq> NUL"
  by (auto simp: is_hex_digit_def)

lemma close_quote_cases: "close_quote line p = Ok r \<Longrightarrow> r = Done \<or> r = Err"
  by (auto simp: close_quote_def bnd_Ok_iff split: if_splits)

lemma close_or_append:
  assumes "(if c = k then close_quote line p else if c = NUL then Ok Err else Ok (Append c p)) = Ok r" and "byte_at line p = Ok c"
  shows "r = Done \<or> r = Err \<or> (\<exists>d p'. r = Append d p' \<and> p \<le> p' \<and> byte_at line p' \<noteq> Ok NUL)"
proof (cases "c = k")
  case True
  then show ?thesis using assms(1) close_quote_cases [of line p r] by auto
next
  case False
  then show ?thesis using assms by (cases "c = NUL") auto
qed

text \<open>Each turn that goes on has looked at a character of the line.\<close>

lemma scan_double_progress:
  assumes "scan_double line p c = Ok r" and "byte_at line p = Ok c"
  shows "r = Done \<or> r = Err \<or> (\<exists>d p'. r = Append d p' \<and> p \<le> p' \<and> byte_at line p' \<noteq> Ok NUL)"
proof -
  obtain hex where h: "hex_escape line p = Ok hex" using assms(1) by (auto simp: scan_double_def bnd_Ok_iff)
  show ?thesis
  proof (cases hex)
    case True
    then have "hex_escape line p = Ok True" using h by simp
    then obtain b where b: "byte_at line (p + 3) = Ok b" "is_hex_digit b" using hex_escape_True by blast
    obtain d where "r = Append d (p + 3)" using assms(1) h True by (auto simp: scan_double_def bnd_Ok_iff)
    then show ?thesis using b hex_not_NUL [OF b(2)] by simp
  next
    case False
    obtain esc where e: "(if c = BACKSLASH then bnd (byte_at line (p + 1)) (\<lambda>d. Ok (d \<noteq> NUL)) else Ok False) = Ok esc"
      using assms(1) h False by (auto simp: scan_double_def bnd_Ok_iff)
    have r: "(if esc then bnd (byte_at line (p + 1)) (\<lambda>d. Ok (Append (unescape d) (p + 1)))
       else if c = DQUOTE then close_quote line p else if c = NUL then Ok Err else Ok (Append c p)) = Ok r"
      using assms(1) False unfolding scan_double_def h bnd.simps e by simp
    show ?thesis
    proof (cases esc)
      case True
      then have "c = BACKSLASH" using e by (cases "c = BACKSLASH") auto
      then obtain d where d: "byte_at line (p + 1) = Ok d" "d \<noteq> NUL" using e True by (auto simp: bnd_Ok_iff)
      then have "r = Append (unescape d) (p + 1)" using r True by simp
      then show ?thesis using d by simp
    next
      case False
      then show ?thesis using close_or_append [OF _ assms(2)] r by simp
    qed
  qed
qed

lemma scan_single_progress:
  assumes "scan_single line p c = Ok r" and "byte_at line p = Ok c"
  shows "r = Done \<or> r = Err \<or> (\<exists>d p'. r = Append d p' \<and> p \<le> p' \<and> byte_at line p' \<noteq> Ok NUL)"
proof -
  obtain esc where e: "(if c = BACKSLASH then bnd (byte_at line (p + 1)) (\<lambda>d. Ok (d = SQUOTE)) else Ok False) = Ok esc"
    using assms(1) by (auto simp: scan_single_def bnd_Ok_iff)
  have r: "(if esc then Ok (Append SQUOTE (p + 1)) else if c = SQUOTE then close_quote line p
      else if c = NUL then Ok Err else Ok (Append c p)) = Ok r"
    using assms(1) unfolding scan_single_def e bnd.simps .
  show ?thesis
  proof (cases esc)
    case True
    then have "c = BACKSLASH" using e by (cases "c = BACKSLASH") auto
    then have "byte_at line (p + 1) = Ok SQUOTE" using e True by (simp add: bnd_Ok_iff)
    moreover have "r = Append SQUOTE (p + 1)" using r True by simp
    ultimately show ?thesis by simp
  next
    case False
    then show ?thesis using close_or_append [OF _ assms(2)] r by simp
  qed
qed

lemma scan_step_progress:
  assumes "scan_step line p inq insq = Ok r"
  shows "r = Done \<or> r = Err \<or> ((\<exists>d e. r = OpenQuote d e) \<and> byte_at line p \<noteq> Ok NUL)
    \<or> (\<exists>d p'. r = Append d p' \<and> p \<le> p' \<and> byte_at line p' \<noteq> Ok NUL)"
proof -
  obtain c where c: "byte_at line p = Ok c" using assms by (auto simp: scan_step_def bnd_Ok_iff)
  consider "inq" | "\<not> inq" "insq" | "\<not> inq" "\<not> insq" by blast
  then show ?thesis
  proof cases
    case 1
    then have "scan_double line p c = Ok r" using assms c by (simp add: scan_step_def)
    from scan_double_progress [OF this c] show ?thesis by blast
  next
    case 2
    then have "scan_single line p c = Ok r" using assms c by (simp add: scan_step_def)
    from scan_single_progress [OF this c] show ?thesis by blast
  next
    case 3
    then have r: "r = scan_plain p c" using assms c by (simp add: scan_step_def)
    show ?thesis
    proof (cases "c = CHR '' '' \<or> c = CHR 0x0A \<or> c = CHR 0x0D \<or> c = CHR 0x09 \<or> c = NUL")
      case True
      then have "r = Done" unfolding r scan_plain_def by (rule if_P)
      then show ?thesis by blast
    next
      case F: False
      then have n: "c \<noteq> NUL" by blast
      show ?thesis
      proof (cases "c = DQUOTE \<or> c = SQUOTE")
        case True
        then have "\<exists>d e. r = OpenQuote d e" unfolding r scan_plain_def if_not_P [OF F] by (cases "c = DQUOTE") auto
        then show ?thesis using c n by simp
      next
        case False
        then have "r = Append c p" unfolding r scan_plain_def if_not_P [OF F] by simp
        then show ?thesis using c n by simp
      qed
    qed
  qed
qed

lemma advance_progress: "advance line p = Ok p' \<Longrightarrow> p \<le> p' \<and> p' \<le> p + 1 \<and> p < length line \<and> (byte_at line p \<noteq> Ok NUL \<longrightarrow> p' = p + 1)"
  by (auto simp: advance_def byte_at_def split: if_splits)

function token_loop :: "sds_cell heap \<Rightarrow> bytes \<Rightarrow> nat \<Rightarrow> bool \<Rightarrow> bool \<Rightarrow> addr option \<Rightarrow> (token_end \<times> sds_cell heap) outcome" where
  "token_loop h line p inq insq current =
     bnd (scan_step line p inq insq) (\<lambda>r.
     case r of
       Append c p' \<Rightarrow>
         bnd (deref current) (\<lambda>a.
         bnd (sdscatlen h a (Bytes [c]) 1) (\<lambda>(current, h).
         bnd (advance line p') (\<lambda>q. token_loop h line q inq insq current)))
     | OpenQuote inq insq \<Rightarrow> bnd (advance line p) (\<lambda>q. token_loop h line q inq insq current)
     | Done \<Rightarrow> bnd (advance line p) (\<lambda>q. Ok (Token q current, h))
     | Err \<Rightarrow> Ok (BadToken current, h))"
  by pat_completeness auto
termination
proof (relation "measure (\<lambda>(h, line, p, inq, insq, current). length line - p)")
  fix h :: "sds_cell heap" and line p inq insq current r c p' a ch and current' :: "addr option" and h' q
  assume "scan_step line p inq insq = Ok r" "r = Append c p'" "advance line p' = Ok q"
  then have "p \<le> p'" "q = p' + 1" "p' < length line"
    using scan_step_progress [of line p inq insq r] advance_progress [of line p' q] by auto
  then show "((h', line, q, inq, insq, current'), (h, line, p, inq, insq, current))
    \<in> measure (\<lambda>(h, line, p, inq, insq, current). length line - p)" by simp
next
  fix h :: "sds_cell heap" and line p inq insq and current :: "addr option" and r d e q
  assume "scan_step line p inq insq = Ok r" "r = OpenQuote d e" "advance line p = Ok q"
  then have "q = p + 1" "p < length line"
    using scan_step_progress [of line p inq insq r] advance_progress [of line p q] by auto
  then show "((h, line, q, d, e, current), (h, line, p, inq, insq, current))
    \<in> measure (\<lambda>(h, line, p, inq, insq, current). length line - p)" by simp
qed simp

declare token_loop.simps [simp del]

subsection \<open>The line\<close>

function skip_blanks :: "bytes \<Rightarrow> nat \<Rightarrow> nat outcome" where
  "skip_blanks line p =
     bnd (byte_at line p) (\<lambda>c. if c \<noteq> NUL \<and> is_space c then skip_blanks line (p + 1) else Ok p)"
  by pat_completeness auto
termination
  by (relation "measure (\<lambda>(line, p). length line - p)") (auto simp: byte_at_def split: if_splits)

declare skip_blanks.simps [simp del]

lemma skip_blanks_progress:
  "skip_blanks line p = Ok q \<Longrightarrow> p \<le> q \<and> q < length line"
proof (induction line p rule: skip_blanks.induct)
  case (1 line p)
  obtain c where c: "byte_at line p = Ok c" using 1(2) by (auto simp: skip_blanks.simps [of line p] bnd_Ok_iff)
  then have l: "p < length line" by (auto simp: byte_at_def split: if_splits)
  show ?case
  proof (cases "c \<noteq> NUL \<and> is_space c")
    case True
    then have "skip_blanks line (p + 1) = Ok q" using 1(2) c by (simp add: skip_blanks.simps [of line p])
    then show ?thesis using 1(1) [OF c True] by simp
  next
    case False
    then show ?thesis using 1(2) c l by (auto simp: skip_blanks.simps [of line p])
  qed
qed

lemma token_loop_progress:
  "token_loop h line p inq insq current = Ok (Token q r, h') \<Longrightarrow> p \<le> q \<and> (byte_at line p \<noteq> Ok NUL \<longrightarrow> p < q)"
proof (induction h line p inq insq current rule: token_loop.induct)
  case (1 h line p inq insq current)
  obtain e where e: "scan_step line p inq insq = Ok e"
    using 1(3) [unfolded token_loop.simps [of h line p inq insq current] bnd_Ok_iff] by blast
  note pr = scan_step_progress [OF e]
  note run = 1(3) [unfolded token_loop.simps [of h line p inq insq current] e bnd.simps]
  show ?case
  proof (cases e)
    case (Append c p')
    obtain a b g q' where g: "deref current = Ok a" "sdscatlen h a (Bytes [c]) 1 = Ok (b, g)" "advance line p' = Ok q'"
      "token_loop g line q' inq insq b = Ok (Token q r, h')"
      using run unfolding Append scan.case by (auto simp: bnd_Ok_iff)
    have "q' \<le> q" using 1(1) [OF e Append g(1,2) _ g(3,4)] by simp
    moreover have "p \<le> p'" "q' = p' + 1" using pr Append advance_progress [OF g(3)] by auto
    ultimately show ?thesis by simp
  next
    case (OpenQuote d f)
    obtain q' where g: "advance line p = Ok q'" "token_loop h line q' d f current = Ok (Token q r, h')"
      using run unfolding OpenQuote scan.case by (auto simp: bnd_Ok_iff)
    have "q' \<le> q" using 1(2) [OF e OpenQuote g(1,2)] by simp
    moreover have "q' = p + 1" using pr OpenQuote advance_progress [OF g(1)] by auto
    ultimately show ?thesis by simp
  next
    case Done
    then have "advance line p = Ok q" using run by (auto simp: bnd_Ok_iff)
    then show ?thesis using advance_progress by fastforce
  next
    case Err
    then show ?thesis using run by simp
  qed
qed

text \<open>The jump to the error: the arguments so far, their array and the argument that was begun.\<close>

definition drop_args :: "sds_cell heap \<Rightarrow> addr option \<Rightarrow> nat \<Rightarrow> addr option \<Rightarrow> sds_cell heap outcome" where
  "drop_args h vector argc current =
     bnd (if argc = 0 then Ok h else bnd (deref vector) (\<lambda>v. free_tokens h v argc)) (\<lambda>h.
     bnd (hfree h vector) (\<lambda>h. sdsfree h current))"

text \<open>The number of arguments is an \<open>int\<close>. That \<open>realloc\<close> may return NULL is not checked.\<close>

function args_loop :: "sds_cell heap \<Rightarrow> bytes \<Rightarrow> nat \<Rightarrow> addr option \<Rightarrow> nat \<Rightarrow> ((addr option \<times> nat) \<times> sds_cell heap) outcome" where
  "args_loop h line p vector argc =
     bnd (skip_blanks line p) (\<lambda>p.
     bnd (byte_at line p) (\<lambda>c.
     if c \<noteq> NUL then
       bnd (sdsempty h) (\<lambda>(current, h).
       bnd (token_loop h line p False False current) (\<lambda>(e, h).
       case e of
         BadToken current \<Rightarrow> bnd (drop_args h vector argc current) (\<lambda>h. Ok ((None, 0), h))
       | Token q current \<Rightarrow>
           bnd (guard_or Overflow (argc + 1 < 2 ^ 31)) (\<lambda>_.
           bnd (realloc_tokens h vector (argc + 1)) (\<lambda>(vector, h).
           bnd (deref vector) (\<lambda>v.
           bnd (set_token h v argc current) (\<lambda>h. args_loop h line q (Some v) (argc + 1)))))))
     else
       (case vector of
          None \<Rightarrow> (case halloc h (TokenBlock [None]) of (v, h) \<Rightarrow> Ok ((v, argc), h))
        | Some v \<Rightarrow> Ok ((Some v, argc), h))))"
  by pat_completeness auto
termination
proof (relation "measure (\<lambda>(h, line, p, vector, argc). length line - p)")
  fix h :: "sds_cell heap" and line p and vector :: "addr option" and argc p1 c current h1 r e h2 q cur v
    and g :: "sds_cell heap"
  assume "skip_blanks line p = Ok p1" "byte_at line p1 = Ok c" "c \<noteq> NUL"
    and t: "token_loop h1 line p1 False False current = Ok r" "(e, h2) = r" "e = Token q cur"
  then have "p \<le> p1" "p1 < length line" "p1 < q"
    using skip_blanks_progress [of line p p1] token_loop_progress [of h1 line p1 False False current q cur h2] by auto
  then show "((g, line, q, Some v, argc + 1), (h, line, p, vector, argc))
    \<in> measure (\<lambda>(h, line, p, vector, argc). length line - p)" by simp
qed simp

declare args_loop.simps [simp del]

definition sdssplitargs :: "sds_cell heap \<Rightarrow> bytes \<Rightarrow> ((addr option \<times> nat) \<times> sds_cell heap) outcome" where
  "sdssplitargs h line = args_loop h line 0 None 0"

subsection \<open>What a line means\<close>

text \<open>The grammar of one argument: \<open>acc\<close> is what has been read of it, the result what it is and what is left of the
  line, or None for a quote that is not closed or not followed by a space.\<close>

definition hex_char :: "char \<Rightarrow> char \<Rightarrow> char" where
  "hex_char a b = char_of (hex_digit_to_int a * 16 + hex_digit_to_int b)"

definition ends :: "bytes \<Rightarrow> bool" where
  "ends cs \<longleftrightarrow> cs = [] \<or> is_space (hd cs)"

fun token_text :: "bool \<Rightarrow> bool \<Rightarrow> bytes \<Rightarrow> bytes \<Rightarrow> (bytes \<times> bytes) option" where
  "token_text inq insq acc [] = (if inq \<or> insq then None else Some (acc, []))"
| "token_text inq insq acc (c # cs) =
     (if inq then
        if c = BACKSLASH then
          (case cs of
             [] \<Rightarrow> None
           | d # cs \<Rightarrow>
               if d = CHR ''x'' \<and> 2 \<le> length cs \<and> is_hex_digit (cs ! 0) \<and> is_hex_digit (cs ! 1)
               then token_text inq insq (acc @ [hex_char (cs ! 0) (cs ! 1)]) (drop 2 cs)
               else token_text inq insq (acc @ [unescape d]) cs)
        else if c = DQUOTE then (if ends cs then Some (acc, cs) else None)
        else token_text inq insq (acc @ [c]) cs
      else if insq then
        if c = BACKSLASH \<and> cs \<noteq> [] \<and> hd cs = SQUOTE then token_text inq insq (acc @ [SQUOTE]) (tl cs)
        else if c = SQUOTE then (if ends cs then Some (acc, cs) else None)
        else token_text inq insq (acc @ [c]) cs
      else if c \<in> {CHR '' '', CHR 0x0A, CHR 0x0D, CHR 0x09} then Some (acc, cs)
      else if c = DQUOTE then token_text True False acc cs
      else if c = SQUOTE then token_text False True acc cs
      else token_text inq insq (acc @ [c]) cs)"

declare token_text.simps [simp del]

text \<open>What is left of the line at \<open>p\<close>.\<close>

definition rest_of :: "bytes \<Rightarrow> nat \<Rightarrow> bytes \<Rightarrow> bool" where
  "rest_of line p cs \<longleftrightarrow> cstring cs \<and> (\<exists>rest. drop p line = cs @ NUL # rest)"

lemma rest_Nil: "rest_of line p [] \<Longrightarrow> byte_at line p = Ok NUL"
proof -
  assume "rest_of line p []"
  then obtain rest where d: "drop p line = NUL # rest" by (auto simp: rest_of_def)
  then have "p < length line" by (metis drop_all list.distinct(1) not_le)
  then show ?thesis using d by (simp add: byte_at_def Cons_nth_drop_Suc [symmetric])
qed

lemma rest_Cons:
  assumes "rest_of line p (c # cs)"
  shows "byte_at line p = Ok c" "c \<noteq> NUL" "rest_of line (p + 1) cs"
proof -
  obtain rest where d: "drop p line = c # cs @ NUL # rest" using assms by (auto simp: rest_of_def)
  then have l: "p < length line" by (metis drop_all list.distinct(1) not_le)
  then have "line ! p = c" "drop (Suc p) line = cs @ NUL # rest" using d by (simp_all add: Cons_nth_drop_Suc [symmetric])
  then show "byte_at line p = Ok c" "c \<noteq> NUL" "rest_of line (p + 1) cs"
    using l assms by (auto simp: byte_at_def rest_of_def)
qed

text \<open>The character behind.\<close>

lemma rest_head: "rest_of line p cs \<Longrightarrow> byte_at line p = Ok (case cs of [] \<Rightarrow> NUL | d # _ \<Rightarrow> d)"
  using rest_Nil rest_Cons(1) by (cases cs) auto

lemma close_text:
  assumes "rest_of line p (c # cs)"
  shows "close_quote line p = Ok (if ends cs then Done else Err)"
  using rest_head [OF rest_Cons(3) [OF assms]] rest_Cons(2) [of line "p + 1"] rest_Cons(3) [OF assms]
  by (cases cs) (auto simp: close_quote_def ends_def)

lemma hex_escape_text:
  assumes "rest_of line p (c # cs)"
  shows "hex_escape line p = Ok (c = BACKSLASH \<and> 3 \<le> length cs \<and> cs ! 0 = CHR ''x'' \<and> is_hex_digit (cs ! 1) \<and> is_hex_digit (cs ! 2))"
proof -
  have nz: "\<not> is_hex_digit NUL" using hex_not_NUL by blast
  note r1 = rest_Cons(3) [OF assms]
  show ?thesis
  proof (cases cs)
    case Nil
    then show ?thesis using rest_Cons(1) [OF assms] rest_Nil [of line "p + 1"] r1 by (simp add: hex_escape_def)
  next
    case c1: (Cons d cs1)
    note r2 = rest_Cons(3) [OF r1 [unfolded c1]]
    show ?thesis
    proof (cases cs1)
      case Nil
      then show ?thesis using rest_Cons(1) [OF assms] rest_Cons(1) [OF r1 [unfolded c1]] rest_Nil [of line "p + 2"] r2 c1 nz
        by (simp add: hex_escape_def)
    next
      case c2: (Cons e cs2)
      note r3 = rest_Cons(3) [OF r2 [unfolded c2]]
      have b: "byte_at line p = Ok c" "byte_at line (p + 1) = Ok d" "byte_at line (p + 2) = Ok e"
        "byte_at line (p + 3) = Ok (case cs2 of [] \<Rightarrow> NUL | f # _ \<Rightarrow> f)"
        using rest_Cons(1) [OF assms] rest_Cons(1) [OF r1 [unfolded c1]] rest_Cons(1) [OF r2 [unfolded c2]] rest_head [OF r3]
        by (simp_all add: eval_nat_numeral)
      show ?thesis
        unfolding hex_escape_def b bnd.simps using nz c1 c2 by (cases cs2) (simp_all add: eval_nat_numeral)
    qed
  qed
qed

text \<open>One turn of the loop on a string that is owned.\<close>

lemma token_append:
  assumes "scan_step line p inq insq = Ok (Append c p')" and "byte_at line p' = Ok d" "d \<noteq> NUL"
    and "owned cc h a acc" "length acc + 1 < 2 ^ 62"
  shows "\<exists>a' h'. token_loop h line p inq insq (Some a) = token_loop h' line (p' + 1) inq insq (Some a') \<and> owned cc h' a' (acc @ [c])"
proof -
  obtain a' h' where s: "sdscatlen h a (Bytes [c]) 1 = Ok (Some a', h')" "owned cc h' a' (acc @ [c])"
    using cat_owned [OF assms(4), of "[c]" "[]"] assms(5) by auto
  have "advance line p' = Ok (p' + 1)" using assms(2,3) by (simp add: advance_def)
  then have "token_loop h line p inq insq (Some a) = token_loop h' line (p' + 1) inq insq (Some a')"
    unfolding token_loop.simps [of h line p] assms(1) bnd.simps scan.case deref_simps s(1) prod.case by simp
  then show ?thesis using s(2) by blast
qed

lemma token_open:
  assumes "scan_step line p inq insq = Ok (OpenQuote d e)" and "byte_at line p = Ok c" "c \<noteq> NUL"
  shows "token_loop h line p inq insq current = token_loop h line (p + 1) d e current"
  unfolding token_loop.simps [of h line p inq] assms(1) bnd.simps scan.case using assms(2,3) by (simp add: advance_def)

lemma token_done:
  assumes "scan_step line p inq insq = Ok Done"
  shows "token_loop h line p inq insq current = bnd (advance line p) (\<lambda>q. Ok (Token q current, h))"
  unfolding token_loop.simps [of h line p inq] assms(1) bnd.simps scan.case ..

lemma token_err:
  assumes "scan_step line p inq insq = Ok Err"
  shows "token_loop h line p inq insq current = Ok (BadToken current, h)"
  unfolding token_loop.simps [of h line p inq] assms(1) bnd.simps scan.case ..

text \<open>The result of the inner loop.\<close>

definition token_result :: "(addr \<Rightarrow> sds_cell option) \<Rightarrow> bytes \<Rightarrow> (bytes \<times> bytes) option \<Rightarrow> (token_end \<times> sds_cell heap) outcome \<Rightarrow> bool" where
  "token_result cc line t r \<longleftrightarrow>
     (case t of
        None \<Rightarrow> \<exists>a h w. r = Ok (BadToken (Some a), h) \<and> owned cc h a w
      | Some (v, cs) \<Rightarrow> \<exists>q a h. r = Ok (Token q (Some a), h) \<and> owned cc h a v \<and> rest_of line q cs)"

lemma scan_plain_text:
  assumes "byte_at line p = Ok c" "c \<noteq> NUL"
  shows "c \<in> {CHR '' '', CHR 0x0A, CHR 0x0D, CHR 0x09} \<Longrightarrow> scan_step line p False False = Ok Done"
    and "c \<notin> {CHR '' '', CHR 0x0A, CHR 0x0D, CHR 0x09} \<Longrightarrow> c = DQUOTE \<Longrightarrow> scan_step line p False False = Ok (OpenQuote True False)"
    and "c \<notin> {CHR '' '', CHR 0x0A, CHR 0x0D, CHR 0x09} \<Longrightarrow> c \<noteq> DQUOTE \<Longrightarrow> c = SQUOTE \<Longrightarrow> scan_step line p False False = Ok (OpenQuote False True)"
    and "c \<notin> {CHR '' '', CHR 0x0A, CHR 0x0D, CHR 0x09} \<Longrightarrow> c \<noteq> DQUOTE \<Longrightarrow> c \<noteq> SQUOTE \<Longrightarrow> scan_step line p False False = Ok (Append c p)"
  using assms by (simp_all add: scan_step_def scan_plain_def)

lemma scan_single_text:
  assumes "rest_of line p (c # cs)"
  shows "scan_step line p False True = Ok (if c = BACKSLASH \<and> cs \<noteq> [] \<and> hd cs = SQUOTE then Append SQUOTE (p + 1)
    else if c = SQUOTE then if ends cs then Done else Err else Append c p)"
proof -
  note b = rest_Cons [OF assms]
  have "(if c = BACKSLASH then bnd (byte_at line (p + 1)) (\<lambda>d. Ok (d = SQUOTE)) else Ok False)
      = Ok (c = BACKSLASH \<and> cs \<noteq> [] \<and> hd cs = SQUOTE)"
    using rest_head [OF b(3)] by (cases cs) auto
  then show ?thesis
    unfolding scan_step_def b(1) bnd.simps scan_single_def close_text [OF assms] using b(2) by simp
qed

lemma scan_double_text:
  assumes "rest_of line p (c # cs)" and "inq"
  shows "c = BACKSLASH \<Longrightarrow> 3 \<le> length cs \<Longrightarrow> cs ! 0 = CHR ''x'' \<Longrightarrow> is_hex_digit (cs ! 1) \<Longrightarrow> is_hex_digit (cs ! 2)
      \<Longrightarrow> scan_step line p inq insq = Ok (Append (hex_char (cs ! 1) (cs ! 2)) (p + 3))"
    and "c = BACKSLASH \<Longrightarrow> cs = d # ds \<Longrightarrow> \<not> (d = CHR ''x'' \<and> 2 \<le> length ds \<and> is_hex_digit (ds ! 0) \<and> is_hex_digit (ds ! 1))
      \<Longrightarrow> scan_step line p inq insq = Ok (Append (unescape d) (p + 1))"
    and "c = BACKSLASH \<Longrightarrow> cs = [] \<Longrightarrow> scan_step line p inq insq = Ok (Append BACKSLASH p)"
    and "c \<noteq> BACKSLASH \<Longrightarrow> c = DQUOTE \<Longrightarrow> scan_step line p inq insq = Ok (if ends cs then Done else Err)"
    and "c \<noteq> BACKSLASH \<Longrightarrow> c \<noteq> DQUOTE \<Longrightarrow> scan_step line p inq insq = Ok (Append c p)"
proof -
  note b = rest_Cons [OF assms(1)] and hx = hex_escape_text [OF assms(1)]
  show "scan_step line p inq insq = Ok (Append (hex_char (cs ! 1) (cs ! 2)) (p + 3))"
    if h: "c = BACKSLASH" "3 \<le> length cs" "cs ! 0 = CHR ''x''" "is_hex_digit (cs ! 1)" "is_hex_digit (cs ! 2)"
  proof -
    obtain x y z ds where cs: "cs = x # y # z # ds" using h(2) by (auto simp: numeral_3_eq_3 Suc_le_length_iff)
    note r2 = rest_Cons(3) [OF b(3) [unfolded cs]]
    have "byte_at line (p + 2) = Ok y" "byte_at line (p + 3) = Ok z"
      using rest_Cons(1) [OF r2] rest_Cons(1) [OF rest_Cons(3) [OF r2]] by (simp_all add: eval_nat_numeral)
    moreover have "char_of ((hex_digit_to_int y * 16 + hex_digit_to_int z) mod 256) = hex_char y z"
      by (simp add: hex_char_def)
    ultimately show ?thesis using b(1) hx h cs assms(2) by (simp add: scan_step_def scan_double_def)
  qed
  show "scan_step line p inq insq = Ok (Append (unescape d) (p + 1))"
    if h: "c = BACKSLASH" "cs = d # ds" "\<not> (d = CHR ''x'' \<and> 2 \<le> length ds \<and> is_hex_digit (ds ! 0) \<and> is_hex_digit (ds ! 1))"
  proof -
    have n: "hex_escape line p = Ok False" using hx h by (auto simp: eval_nat_numeral)
    have d: "byte_at line (p + 1) = Ok d" "d \<noteq> NUL" using rest_Cons(1,2) [OF b(3) [unfolded h(2)]] by simp_all
    show ?thesis unfolding scan_step_def b(1) bnd.simps if_P [OF assms(2)] scan_double_def n if_False if_P [OF h(1)] d(1) using d(2) by simp
  qed
  show "scan_step line p inq insq = Ok (Append BACKSLASH p)" if h: "c = BACKSLASH" "cs = []"
  proof -
    have n: "hex_escape line p = Ok False" using hx h by simp
    have d: "byte_at line (p + 1) = Ok NUL" using rest_Nil b(3) h(2) by simp
    show ?thesis unfolding scan_step_def b(1) bnd.simps if_P [OF assms(2)] scan_double_def n if_False if_P [OF h(1)] d using b(2) h(1) by simp
  qed
  show "scan_step line p inq insq = Ok (if ends cs then Done else Err)" if h: "c \<noteq> BACKSLASH" "c = DQUOTE"
  proof -
    have n: "hex_escape line p = Ok False" using hx h by simp
    show ?thesis unfolding scan_step_def b(1) bnd.simps if_P [OF assms(2)] scan_double_def n if_False if_not_P [OF h(1)] if_P [OF h(2)]
        close_text [OF assms(1)] ..
  qed
  show "scan_step line p inq insq = Ok (Append c p)" if h: "c \<noteq> BACKSLASH" "c \<noteq> DQUOTE"
  proof -
    have n: "hex_escape line p = Ok False" using hx h by simp
    show ?thesis unfolding scan_step_def b(1) bnd.simps if_P [OF assms(2)] scan_double_def n if_False if_not_P [OF h(1)] if_not_P [OF h(2)]
        if_not_P [OF b(2)] ..
  qed
qed

lemma scan_end:
  assumes "rest_of line p []"
  shows "scan_step line p inq insq = Ok (if inq \<or> insq then Err else Done)"
  using rest_Nil [OF assms] by (simp add: scan_step_def scan_double_def scan_single_def scan_plain_def hex_escape_def)

lemma token_loop_text:
  "owned cc h a acc \<Longrightarrow> rest_of line p cs \<Longrightarrow> length acc + length cs < 2 ^ 62 \<Longrightarrow>
    token_result cc line (token_text inq insq acc cs) (token_loop h line p inq insq (Some a))"
proof (induction "length cs" arbitrary: h a acc p cs inq insq rule: less_induct)
  case less
  note own = less.prems(1) and rest = less.prems(2)
  show ?case
  proof (cases cs)
    case Nil
    have r: "rest_of line p []" using rest Nil by simp
    have "advance line p = Ok p" using rest_Nil [OF r] by (simp add: advance_def)
    then show ?thesis using token_err [of line p inq insq h] token_done [of line p inq insq h] scan_end [OF r, of inq insq] own r Nil
      by (auto simp: token_result_def token_text.simps)
  next
    case (Cons c ds)
    have rc: "rest_of line p (c # ds)" using rest Cons by simp
    note b = rest_Cons [OF rc]
    have sz: "length acc + 1 < 2 ^ 62" "length acc + Suc (length ds) < 2 ^ 62" using less.prems(3) Cons by auto
    have adv: "advance line p = Ok (p + 1)" using b(1,2) by (simp add: advance_def)
    have more: "token_result cc line (token_text inq insq (acc @ [x]) es) (token_loop h line p inq insq (Some a))"
      if "scan_step line p inq insq = Ok (Append x p')" "byte_at line p' = Ok y" "y \<noteq> NUL" "rest_of line (p' + 1) es"
        "length es \<le> length ds" for x y p' es
    proof -
      note th = that
      obtain a' h' where t: "token_loop h line p inq insq (Some a) = token_loop h' line (p' + 1) inq insq (Some a')"
        "owned cc h' a' (acc @ [x])" using token_append [OF th(1-3) own sz(1)] by blast
      have "length es < length cs" "length (acc @ [x]) + length es < 2 ^ 62" using th(5) Cons sz(2) by auto
      then show ?thesis using less.hyps [OF _ t(2) th(4)] t(1) by simp
    qed
    have closing: "token_result cc line (if ends ds then Some (acc, ds) else None) (token_loop h line p inq insq (Some a))"
      if "scan_step line p inq insq = Ok (if ends ds then Done else Err)"
    proof (cases "ends ds")
      case True
      then have "scan_step line p inq insq = Ok Done" using that by simp
      then show ?thesis using token_done adv own b(3) True by (simp add: token_result_def)
    next
      case False
      then have "scan_step line p inq insq = Ok Err" using that by simp
      then show ?thesis using token_err own False by (auto simp: token_result_def)
    qed
    have opens: "token_result cc line (token_text d e acc ds) (token_loop h line p inq insq (Some a))"
      if "scan_step line p inq insq = Ok (OpenQuote d e)" for d e
      using token_open [OF that b(1,2)] less.hyps [OF _ own b(3)] sz(2) Cons by simp
    have plain: "token_result cc line (token_text inq insq (acc @ [c]) ds) (token_loop h line p inq insq (Some a))"
      if "scan_step line p inq insq = Ok (Append c p)" using more [OF that b(1,2,3)] by simp
    note tt = token_text.simps(2) [of inq insq acc c ds]
    consider "inq" "c = BACKSLASH" | "inq" "c \<noteq> BACKSLASH" | "\<not> inq" "insq" | "\<not> inq" "\<not> insq" by blast
    then show ?thesis
    proof cases
      case 1
      note double = scan_double_text [OF rc 1(1)]
      show ?thesis
      proof (cases ds)
        case Nil
        have r: "rest_of line (p + 1) []" using b(3) Nil by simp
        have "token_result cc line (token_text inq insq (acc @ [BACKSLASH]) []) (token_loop h line p inq insq (Some a))"
          using more [OF double(3) [OF 1(2) Nil] b(1,2) r] by simp
        then show ?thesis unfolding Cons tt using 1 Nil by (simp add: token_text.simps(1))
      next
        case ds: (Cons d es)
        have r1: "rest_of line (p + 1) (d # es)" using b(3) ds by simp
        note b1 = rest_Cons [OF r1]
        show ?thesis
        proof (cases "d = CHR ''x'' \<and> 2 \<le> length es \<and> is_hex_digit (es ! 0) \<and> is_hex_digit (es ! 1)")
          case False
          have "token_result cc line (token_text inq insq (acc @ [unescape d]) es) (token_loop h line p inq insq (Some a))"
            using more [OF double(2) [OF 1(2) ds False] b1] ds by simp
          then show ?thesis unfolding Cons tt unfolding ds list.case if_P [OF 1(1)] if_P [OF 1(2)] if_not_P [OF False] .
        next
          case True
          then obtain x y fs where es: "es = x # y # fs" by (cases es; cases "tl es") auto
          have r2: "rest_of line (p + 1 + 1) (x # y # fs)" using b1(3) es by simp
          note r3 = rest_Cons(3) [OF r2]
          have "byte_at line (p + 3) = Ok y" "y \<noteq> NUL" "rest_of line (p + 3 + 1) fs"
            using rest_Cons [OF r3] by (simp_all add: eval_nat_numeral)
          moreover have "scan_step line p inq insq = Ok (Append (hex_char x y) (p + 3))"
            using double(1) [OF 1(2)] ds es True by simp
          ultimately have "token_result cc line (token_text inq insq (acc @ [hex_char x y]) fs) (token_loop h line p inq insq (Some a))"
            using more ds es by simp
          then show ?thesis unfolding Cons tt unfolding ds list.case if_P [OF 1(1)] if_P [OF 1(2)] if_P [OF True] by (simp add: es)
        qed
      qed
    next
      case 2
      note double = scan_double_text [OF rc 2(1)]
      show ?thesis
        unfolding Cons tt if_P [OF 2(1)] if_not_P [OF 2(2)]
        using closing [OF double(4) [OF 2(2)]] plain [OF double(5) [OF 2(2)]] by (cases "c = DQUOTE") simp_all
    next
      case 3
      have s: "scan_step line p inq insq = Ok (if c = BACKSLASH \<and> ds \<noteq> [] \<and> hd ds = SQUOTE then Append SQUOTE (p + 1)
          else if c = SQUOTE then if ends ds then Done else Err else Append c p)"
        using scan_single_text [OF rc] 3 by simp
      show ?thesis
      proof (cases "c = BACKSLASH \<and> ds \<noteq> [] \<and> hd ds = SQUOTE")
        case True
        then obtain es where ds: "ds = SQUOTE # es" by (cases ds) auto
        have r1: "rest_of line (p + 1) (SQUOTE # es)" using b(3) ds by simp
        have "scan_step line p inq insq = Ok (Append SQUOTE (p + 1))" unfolding s if_P [OF True] ..
        then have "token_result cc line (token_text inq insq (acc @ [SQUOTE]) es) (token_loop h line p inq insq (Some a))"
          using more [OF _ rest_Cons [OF r1]] ds by simp
        then show ?thesis unfolding Cons tt if_not_P [OF 3(1)] if_P [OF 3(2)] if_P [OF True] using ds by simp
      next
        case False
        show ?thesis
          unfolding Cons tt if_not_P [OF 3(1)] if_P [OF 3(2)] if_not_P [OF False]
          using closing plain s False by (cases "c = SQUOTE") simp_all
      qed
    next
      case 4
      show ?thesis
      proof (cases "c \<in> {CHR '' '', CHR 0x0A, CHR 0x0D, CHR 0x09}")
        case True
        have "scan_step line p inq insq = Ok Done" using scan_plain_text(1) [OF b(1,2) True] 4 by simp
        then show ?thesis unfolding Cons tt if_not_P [OF 4(1)] if_not_P [OF 4(2)] if_P [OF True]
          using token_done adv own b(3) by (simp add: token_result_def)
      next
        case False
        show ?thesis unfolding Cons tt if_not_P [OF 4(1)] if_not_P [OF 4(2)] if_not_P [OF False]
          using opens [of True False] opens [of False True] plain scan_plain_text(2-4) [OF b(1,2) False] 4
          by (cases "c = DQUOTE"; cases "c = SQUOTE") simp_all
      qed
    qed
  qed
qed

lemma token_text_shorter:
  "token_text inq insq acc cs = Some (t, rest) \<Longrightarrow> length rest \<le> length cs \<and> (cs \<noteq> [] \<longrightarrow> length rest < length cs)"
proof (induction "length cs" arbitrary: inq insq acc cs rule: less_induct)
  case less
  show ?case
  proof (cases cs)
    case Nil
    then show ?thesis using less.prems by (simp add: token_text.simps(1) split: if_splits)
  next
    case (Cons c ds)
    have shorter: "length rest < length cs" if "token_text i j w es = Some (t, rest)" "length es \<le> length ds" for i j w es
      using less.hyps [OF _ that(1)] that(2) Cons by (fastforce)
    note run = less.prems [unfolded Cons token_text.simps(2)]
    have closed: "length rest < length cs" if "(if ends ds then Some (acc, ds) else None) = Some (t, rest)"
      using that Cons by (simp split: if_splits)
    show ?thesis
    proof (cases "inq")
      case True
      show ?thesis
      proof (cases "c = BACKSLASH")
        case b: True
        note run = run [unfolded if_P [OF True] if_P [OF b]]
        show ?thesis
        proof (cases ds)
          case ds: (Cons d es)
          note run = run [unfolded ds list.case]
          have "length rest < length cs"
          proof (cases "d = CHR ''x'' \<and> 2 \<le> length es \<and> is_hex_digit (es ! 0) \<and> is_hex_digit (es ! 1)")
            case True
            show ?thesis using shorter [OF run [unfolded if_P [OF True]]] ds by simp
          next
            case False
            show ?thesis using shorter [OF run [unfolded if_not_P [OF False]]] ds by simp
          qed
          then show ?thesis by simp
        qed (use run in simp)
      next
        case False
        note run = run [unfolded if_P [OF True] if_not_P [OF False]]
        have "length rest < length cs"
        proof (cases "c = DQUOTE")
          case True
          show ?thesis by (rule closed [OF run [unfolded if_P [OF True]]])
        next
          case False
          show ?thesis by (rule shorter [OF run [unfolded if_not_P [OF False]] order.refl])
        qed
        then show ?thesis by simp
      qed
    next
      case nq: False
      show ?thesis
      proof (cases "insq")
        case True
        note run = run [unfolded if_not_P [OF nq] if_P [OF True]]
        show ?thesis
        proof (cases "c = BACKSLASH \<and> ds \<noteq> [] \<and> hd ds = SQUOTE")
          case b: True
          note run = run [unfolded if_P [OF b]]
          show ?thesis using shorter [OF run] by simp
        next
          case False
          note run = run [unfolded if_not_P [OF False]]
          have "length rest < length cs"
          proof (cases "c = SQUOTE")
            case True
            show ?thesis by (rule closed [OF run [unfolded if_P [OF True]]])
          next
            case False
            show ?thesis by (rule shorter [OF run [unfolded if_not_P [OF False]] order.refl])
          qed
          then show ?thesis by simp
        qed
      next
        case False
        note run = run [unfolded if_not_P [OF nq] if_not_P [OF False]]
        show ?thesis
        proof (cases "c \<in> {CHR '' '', CHR 0x0A, CHR 0x0D, CHR 0x09}")
          case b: True
          show ?thesis using run [unfolded if_P [OF b]] Cons by simp
        next
          case b: False
          note run = run [unfolded if_not_P [OF b]]
          have "\<exists>i j w. token_text i j w ds = Some (t, rest)"
            using run by (cases "c = DQUOTE"; cases "c = SQUOTE") auto
          then have "length rest < length cs" using shorter [OF _ order.refl] by blast
          then show ?thesis by simp
        qed
      qed
    qed
  qed
qed

text \<open>All arguments of a line.\<close>

function args_text :: "bytes \<Rightarrow> bytes list option" where
  "args_text cs =
     (case dropWhile is_space cs of
        [] \<Rightarrow> Some []
      | d # ds \<Rightarrow>
          (case token_text False False [] (d # ds) of
             None \<Rightarrow> None
           | Some (t, rest) \<Rightarrow> map_option (\<lambda>ts. t # ts) (args_text rest)))"
  by pat_completeness auto
termination
proof (relation "measure length")
  fix cs :: bytes and d ds x t rest
  assume "dropWhile is_space cs = d # ds" "token_text False False [] (d # ds) = Some x" "(t, rest) = x"
  then have "length rest < length (dropWhile is_space cs)" using token_text_shorter by fastforce
  then show "(rest, cs) \<in> measure length" using length_dropWhile_le [of is_space cs] by simp
qed simp

declare args_text.simps [simp del]

subsection \<open>The array of arguments\<close>

definition args_held :: "(addr \<Rightarrow> sds_cell option) \<Rightarrow> sds_cell heap \<Rightarrow> addr option \<Rightarrow> addr list \<Rightarrow> bytes list \<Rightarrow> bool" where
  "args_held c h vector as ps \<longleftrightarrow>
     (case vector of None \<Rightarrow> as = [] \<and> ps = [] \<and> cells h = c \<and> heap_ok h | Some v \<Rightarrow> held c h v as ps [])"

lemma held_beside:
  assumes "held c h a as ps free" and "cells h1 = (cells h)(d \<mapsto> x)" "cells h d = None" "heap_ok h1"
  shows "held (c(d \<mapsto> x)) h1 a as ps free"
proof -
  have d: "d \<noteq> a" "d \<notin> set as" "c d = None" using held_fresh [OF assms(1,3)] by auto
  have "list_all2 (\<lambda>b p. \<exists>s. cells h1 b = Some (SdsBlock s) \<and> is_str p s) as ps"
  proof (rule list.rel_mono_strong)
    show "list_all2 (\<lambda>b p. \<exists>s. cells h b = Some (SdsBlock s) \<and> is_str p s) as ps" using assms(1) by (simp add: held_def)
  qed (use d assms(2) in auto)
  then show ?thesis using assms d by (auto simp: held_def)
qed

lemma held_adopt:
  assumes "held (c(d \<mapsto> SdsBlock s)) h a as ps (x # free)" and "c d = None" and "is_str p s"
  shows "\<exists>h'. set_token h a (length as) (Some d) = Ok h' \<and> held c h' a (as @ [d]) (ps @ [p]) free \<and> fails h' = fails h"
proof -
  have d: "d \<noteq> a" "d \<notin> set as" using assms(1) by (auto simp: held_def split: if_splits)
  then have cd: "cells h d = Some (SdsBlock s)" using assms(1) by (simp add: held_def)
  let ?h = "h\<lparr>cells := (cells h)(d := None)\<rparr>"
  have "list_all2 (\<lambda>b p. \<exists>s. cells ?h b = Some (SdsBlock s) \<and> is_str p s) as ps"
  proof (rule list.rel_mono_strong)
    show "list_all2 (\<lambda>b p. \<exists>s. cells h b = Some (SdsBlock s) \<and> is_str p s) as ps" using assms(1) by (simp add: held_def)
  qed (use d in auto)
  moreover have "heap_ok ?h" using heldD(4) [OF assms(1)] by (rule heap_ok_delete)
  moreover have "\<forall>b \<in> set (a # as). c b = None" using assms(1) d unfolding held_def by (auto split: if_splits)
  moreover have "\<forall>b. b \<notin> set (a # as) \<longrightarrow> cells ?h b = c b" using assms(1,2) unfolding held_def by auto
  ultimately have "held c ?h a as ps (x # free)" using assms(1) d unfolding held_def by simp
  moreover have "cells h = (cells ?h)(d \<mapsto> SdsBlock s)" "cells ?h d = None" using cd by auto
  ultimately show ?thesis using held_add [of c ?h a as ps x free h d s p] heldD(4) [OF assms(1)] assms(3) by simp
qed

text \<open>A finished argument is put into the array, which grows by one.\<close>

lemma add_arg:
  assumes "args_held c h vector as ps" and "owned (cells h) h1 d t"
  shows "\<exists>v h2 h3. realloc_tokens h1 vector (length as + 1) = Ok (Some v, h2) \<and> set_token h2 v (length as) (Some d) = Ok h3
    \<and> held c h3 v (as @ [d]) (ps @ [t]) [] \<and> no_fail h3"
proof -
  obtain s where s: "cells h1 = (cells h)(d \<mapsto> SdsBlock s)" "is_str t s" "cells h d = None" "heap_ok h1" "no_fail h1"
    using assms(2) by (auto simp: owned_def)
  have "\<exists>v h2 x. realloc_tokens h1 vector (length as + 1) = Ok (Some v, h2) \<and> held (c(d \<mapsto> SdsBlock s)) h2 v as ps [x]
      \<and> no_fail h2 \<and> c d = None"
  proof (cases vector)
    case None
    then have n: "as = []" "ps = []" "cells h = c" using assms(1) by (simp_all add: args_held_def)
    let ?h = "h1\<lparr>cells := (cells h1)(calls h1 \<mapsto> TokenBlock [None]), calls := Suc (calls h1)\<rparr>"
    have "realloc_tokens h1 None 1 = Ok (Some (calls h1), ?h)"
      using s(5) by (simp add: realloc_tokens_def halloc_def no_fail_def)
    moreover have "held (c(d \<mapsto> SdsBlock s)) ?h (calls h1) [] [] [None]"
      using s(1,4) n(3) heap_ok_fresh [OF s(4)] by (auto simp: held_def heap_ok_def less_Suc_eq)
    ultimately show ?thesis using None n s(3,5) by (auto simp: no_fail_def)
  next
    case (Some v0)
    then have v: "held c h v0 as ps []" using assms(1) by (simp add: args_held_def)
    have "held (c(d \<mapsto> SdsBlock s)) h1 v0 as ps []" by (rule held_beside [OF v s(1,3,4)])
    then obtain v h2 free where r: "realloc_tokens h1 (Some v0) (length as + 1) = Ok (Some v, h2)"
      "held (c(d \<mapsto> SdsBlock s)) h2 v as ps free" "length as + length free = length as + 1" "fails h2 = fails h1"
      using held_realloc [of _ h1 v0 as ps "[]" "length as + 1"] s(5) by fastforce
    obtain x where "free = [x]" using r(3) by (cases free) auto
    then show ?thesis using r Some s(5) held_fresh [OF v s(3)] by (auto simp: no_fail_def)
  qed
  then obtain v h2 x where r: "realloc_tokens h1 vector (length as + 1) = Ok (Some v, h2)"
    "held (c(d \<mapsto> SdsBlock s)) h2 v as ps [x]" "no_fail h2" "c d = None" by blast
  obtain h3 where "set_token h2 v (length as) (Some d) = Ok h3" "held c h3 v (as @ [d]) (ps @ [t]) []" "fails h3 = fails h2"
    using held_adopt [OF r(2,4) s(2)] by blast
  then show ?thesis using r(1,3) by (auto simp: no_fail_def)
qed

lemma drop_args_ok:
  assumes "args_held c h vector as ps" and "owned (cells h) h1 d w"
  shows "\<exists>h'. drop_args h1 vector (length as) (Some d) = Ok h' \<and> cells h' = c"
proof (cases vector)
  case None
  then show ?thesis using assms free_owned [OF assms(2)] by (auto simp: args_held_def drop_args_def)
next
  case (Some v)
  obtain s where s: "cells h1 = (cells h)(d \<mapsto> SdsBlock s)" "cells h d = None" "heap_ok h1" using assms(2) by (auto simp: owned_def)
  have v: "held c h v as ps []" using assms(1) Some by (simp add: args_held_def)
  have hd: "held (c(d \<mapsto> SdsBlock s)) h1 v as ps []" by (rule held_beside [OF v s])
  have f: "(if length as = 0 then Ok h1 else bnd (deref (Some v)) (\<lambda>v. free_tokens h1 v (length as))) = Ok (without h1 (set as))"
    using free_tokens_ok [of h1 v as "[]"] heldD(1,2) [OF hd] heldD(5) [OF hd] by auto
  obtain h2 where h2: "hfree (without h1 (set as)) (Some v) = Ok h2" "cells h2 = c(d \<mapsto> SdsBlock s)" using held_wiped [OF hd] by blast
  have "c d = None" using held_fresh [OF v s(2)] by simp
  then have "cells (h2\<lparr>cells := (cells h2)(d := None)\<rparr>) = c" using h2(2) by (simp add: fun_upd_idem)
  moreover have "sdsfree h2 (Some d) = Ok (h2\<lparr>cells := (cells h2)(d := None)\<rparr>)" using h2(2) by (simp add: sdsfree_def hfree_def)
  moreover have "drop_args h1 vector (length as) (Some d) = sdsfree h2 (Some d)"
    unfolding drop_args_def Some f bnd.simps h2(1) ..
  ultimately show ?thesis by simp
qed

lemma skip_blanks_text:
  "rest_of line p cs \<Longrightarrow> \<exists>q. skip_blanks line p = Ok q \<and> rest_of line q (dropWhile is_space cs)"
proof (induction cs arbitrary: p)
  case Nil
  then show ?case using rest_Nil by (simp add: skip_blanks.simps [of line p])
next
  case (Cons c cs)
  note b = rest_Cons [OF Cons.prems]
  show ?case
  proof (cases "is_space c")
    case True
    then show ?thesis using Cons.IH [OF b(3)] b(1,2) by (simp add: skip_blanks.simps [of line p])
  next
    case False
    then show ?thesis using Cons.prems b(1) by (simp add: skip_blanks.simps [of line p])
  qed
qed

lemma args_loop_text:
  "args_held c h vector as ps \<Longrightarrow> no_fail h \<Longrightarrow> rest_of line p cs \<Longrightarrow> length as + length cs + 1 < 2 ^ 31 \<Longrightarrow>
    (case args_text cs of
       None \<Rightarrow> \<exists>h'. args_loop h line p vector (length as) = Ok ((None, 0), h') \<and> cells h' = c
     | Some qs \<Rightarrow> \<exists>v bs h' free. args_loop h line p vector (length as) = Ok ((Some v, length bs), h') \<and> held c h' v bs (ps @ qs) free
          \<and> fails h' = fails h)"
proof (induction "length cs" arbitrary: h vector as ps p cs rule: less_induct)
  case less
  obtain q where q: "skip_blanks line p = Ok q" "rest_of line q (dropWhile is_space cs)" using skip_blanks_text [OF less.prems(3)] by blast
  show ?case
  proof (cases "dropWhile is_space cs")
    case Nil
    have l: "args_loop h line p vector (length as) =
        (case vector of None \<Rightarrow> (case halloc h (TokenBlock [None]) of (v, h) \<Rightarrow> Ok ((v, length as), h)) | Some v \<Rightarrow> Ok ((Some v, length as), h))"
      using q rest_Nil [of line q] Nil by (simp add: args_loop.simps [of h line p])
    have t: "args_text cs = Some []" by (simp add: args_text.simps Nil)
    show ?thesis
    proof (cases vector)
      case None
      then have n: "as = []" "ps = []" "cells h = c" "heap_ok h" using less.prems(1) by (simp_all add: args_held_def)
      let ?h = "h\<lparr>cells := (cells h)(calls h \<mapsto> TokenBlock [None]), calls := Suc (calls h)\<rparr>"
      have "halloc h (TokenBlock [None]) = (Some (calls h), ?h)" using less.prems(2) by (simp add: halloc_def no_fail_def)
      moreover have "held c ?h (calls h) [] [] [None]"
        using n(3,4) heap_ok_fresh [OF n(4)] by (auto simp: held_def heap_ok_def less_Suc_eq)
      ultimately show ?thesis using l t None n by fastforce
    next
      case (Some v)
      then show ?thesis using l t less.prems(1) by (auto simp: args_held_def)
    qed
  next
    case (Cons d ds)
    have r: "rest_of line q (d # ds)" using q(2) Cons by simp
    note b = rest_Cons [OF r]
    have hk: "heap_ok h" using less.prems(1) heldD(4) by (auto simp: args_held_def split: option.splits)
    obtain a h1 where e: "sdsempty h = Ok (Some a, h1)" "owned (cells h) h1 a []" using empty_owned [OF hk less.prems(2)] by blast
    have ln: "length (d # ds) \<le> length cs" using length_dropWhile_le [of is_space cs] Cons by simp
    have sz: "length ([] :: bytes) + length (d # ds) < 2 ^ 62" using ln less.prems(4) by simp
    note tok = token_loop_text [OF e(2) r sz, of False False]
    show ?thesis
    proof (cases "token_text False False [] (d # ds)")
      case None
      then obtain b h2 w where t: "token_loop h1 line q False False (Some a) = Ok (BadToken (Some b), h2)" "owned (cells h) h2 b w"
        using tok by (auto simp: token_result_def)
      obtain h3 where dr: "drop_args h2 vector (length as) (Some b) = Ok h3" "cells h3 = c"
        using drop_args_ok [OF less.prems(1) t(2)] by blast
      have "args_loop h line p vector (length as) = Ok ((None, 0), h3)"
        unfolding args_loop.simps [of h line p] q(1) bnd.simps b(1) if_P [OF b(2)] e(1) prod.case t(1) token_end.case dr(1) ..
      moreover have "args_text cs = None" by (simp add: args_text.simps [of cs] Cons None)
      ultimately show ?thesis using dr(2) by simp
    next
      case (Some x)
      then obtain w rest where x: "token_text False False [] (d # ds) = Some (w, rest)" by (cases x) auto
      then obtain q2 b h2 where t: "token_loop h1 line q False False (Some a) = Ok (Token q2 (Some b), h2)" "owned (cells h) h2 b w"
        "rest_of line q2 rest" using tok by (auto simp: token_result_def)
      obtain v h3 h4 where ad: "realloc_tokens h2 vector (length as + 1) = Ok (Some v, h3)" "set_token h3 v (length as) (Some b) = Ok h4"
        "held c h4 v (as @ [b]) (ps @ [w]) []" "no_fail h4" using add_arg [OF less.prems(1) t(2)] by blast
      have g: "guard_or Overflow (length as + 1 < 2 ^ 31) = Ok ()" using less.prems(4) by (intro guard_or_True) simp
      have lp: "args_loop h line p vector (length as) = args_loop h4 line q2 (Some v) (length (as @ [b]))"
        unfolding args_loop.simps [of h line p] q(1) bnd.simps b(1) if_P [OF b(2)] e(1) prod.case t(1) token_end.case g ad(1) deref_simps ad(2)
        by simp
      have sh: "length rest < length (d # ds)" using token_text_shorter [OF x] by simp
      have ah: "args_held c h4 (Some v) (as @ [b]) (ps @ [w])" using ad(3) by (simp add: args_held_def)
      have "length (as @ [b]) + length rest + 1 < 2 ^ 31" using sh ln less.prems(4) by simp
      moreover have "length rest < length cs" using sh ln by simp
      ultimately have ih: "case args_text rest of
         None \<Rightarrow> \<exists>h'. args_loop h4 line q2 (Some v) (length (as @ [b])) = Ok ((None, 0), h') \<and> cells h' = c
       | Some qs \<Rightarrow> \<exists>v' bs h' free. args_loop h4 line q2 (Some v) (length (as @ [b])) = Ok ((Some v', length bs), h')
            \<and> held c h' v' bs ((ps @ [w]) @ qs) free \<and> fails h' = fails h4"
        using less.hyps [OF _ ah ad(4) t(3)] by blast
      have tx: "args_text cs = map_option (\<lambda>ts. w # ts) (args_text rest)" by (simp add: args_text.simps [of cs] Cons x)
      have fl: "fails h4 = fails h" using ad(4) less.prems(2) by (auto simp: no_fail_def)
      show ?thesis unfolding lp tx using ih fl by (cases "args_text rest") auto
    qed
  qed
qed

subsection \<open>Quoted texts\<close>

definition repr_char_text :: "char \<Rightarrow> bytes" where
  "repr_char_text c =
     (if c = BACKSLASH \<or> c = DQUOTE then [BACKSLASH, c]
      else if c = CHR 0x0A then [BACKSLASH, CHR ''n'']
      else if c = CHR 0x0D then [BACKSLASH, CHR ''r'']
      else if c = CHR 0x09 then [BACKSLASH, CHR ''t'']
      else if c = CHR 0x07 then [BACKSLASH, CHR ''a'']
      else if c = CHR 0x08 then [BACKSLASH, CHR ''b'']
      else if is_print c then [c]
      else BACKSLASH # CHR ''x'' # hex_byte c)"

definition repr_text :: "bytes \<Rightarrow> bytes" where
  "repr_text v = DQUOTE # concat (map repr_char_text v) @ [DQUOTE]"

lemma length_repr_char: "length (repr_char_text c) \<le> 4" "repr_char_text c \<noteq> []"
  by (simp_all add: repr_char_text_def hex_byte_def)

lemma printf_owned:
  assumes "owned c h a v" and "length v + length t < 2 ^ 62" "length t < 2 ^ 31" and "cstr_at fmt 0 = Ok f"
  shows "\<exists>a' h'. sdscatprintf h a fmt (Some t) = Ok (Some a', h') \<and> owned c h' a' (v @ t)"
proof -
  obtain s where s: "cells h a = Some (SdsBlock s)" "sds_wf s" "sds_val s = v" "sdslen s = length v" "heap_ok h"
    using ownedE [OF assms(1)] by blast
  have l: "sdslen s + length t < 2 ^ 62" using s(4) assms(2) by simp
  have "gives h a (is_str (v @ t)) (sdscatprintf h a fmt (Some t))"
    using catvprintf_gives [OF s(1,2,5) l assms(3,4)] s(3) by (simp add: sdscatprintf_def)
  then show ?thesis by (rule gives_owned [OF assms(1)])
qed

lemma repr_char_owned:
  assumes "owned cc h a v" and "length v + 4 < 2 ^ 62"
  shows "\<exists>a' h'. repr_char h a c = Ok (Some a', h') \<and> owned cc h' a' (v @ repr_char_text c)"
proof -
  have p: "\<exists>a' h'. sdscatprintf h a (f @ [NUL]) (Some t) = Ok (Some a', h') \<and> owned cc h' a' (v @ t)"
    if "length t \<le> 4" "cstring f" for t f
    using printf_owned [OF assms(1), of t "f @ [NUL]" f] that assms(2) cstr_NUL by simp
  have l: "\<exists>a' h'. sdscatlen h a (Bytes [BACKSLASH, d, NUL]) 2 = Ok (Some a', h') \<and> owned cc h' a' (v @ [BACKSLASH, d])" for d
    using cat_owned [OF assms(1), of "[BACKSLASH, d]" "[NUL]"] assms(2) by (simp add: numeral_2_eq_2)
  consider "c = BACKSLASH \<or> c = DQUOTE" | "\<not> (c = BACKSLASH \<or> c = DQUOTE)" "c = CHR 0x0A \<or> c = CHR 0x0D \<or> c = CHR 0x09 \<or> c = CHR 0x07 \<or> c = CHR 0x08"
    | "\<not> (c = BACKSLASH \<or> c = DQUOTE)" "c \<noteq> CHR 0x0A" "c \<noteq> CHR 0x0D" "c \<noteq> CHR 0x09" "c \<noteq> CHR 0x07" "c \<noteq> CHR 0x08" by blast
  then show ?thesis
  proof cases
    case 1
    have "repr_char h a c = sdscatprintf h a ([BACKSLASH, CHR ''%'', CHR ''c''] @ [NUL]) (Some [BACKSLASH, c])"
      unfolding repr_char_def if_P [OF 1] by simp
    moreover have "repr_char_text c = [BACKSLASH, c]" unfolding repr_char_text_def if_P [OF 1] ..
    ultimately show ?thesis using p [of "[BACKSLASH, c]" "[BACKSLASH, CHR ''%'', CHR ''c'']"] by simp
  next
    case 2
    then show ?thesis using l unfolding repr_char_def repr_char_text_def if_not_P [OF 2(1)] by (elim disjE) simp_all
  next
    case 3
    note ifs = if_not_P [OF 3(1)] if_not_P [OF 3(2)] if_not_P [OF 3(3)] if_not_P [OF 3(4)] if_not_P [OF 3(5)] if_not_P [OF 3(6)]
    show ?thesis
      unfolding repr_char_def repr_char_text_def ifs
      using p [of "[c]" "''%c''"] p [of "BACKSLASH # CHR ''x'' # hex_byte c" "BACKSLASH # ''x%02x''"]
      by (cases "is_print c") (simp_all add: hex_byte_def)
  qed
qed

lemma repr_loop_owned:
  assumes "owned cc h a w" and "length w + 4 * length v < 2 ^ 62"
  shows "\<exists>a' h'. repr_loop h (Some a) (pre @ v @ rest) (length pre) (length v) = Ok (Some a', h')
    \<and> owned cc h' a' (w @ concat (map repr_char_text v))"
  using assms
proof (induction v arbitrary: h a w pre)
  case (Cons c v)
  have sz: "length w + 4 < 2 ^ 62" using Cons.prems(2) by simp
  obtain a1 h1 where r: "repr_char h a c = Ok (Some a1, h1)" "owned cc h1 a1 (w @ repr_char_text c)"
    using repr_char_owned [OF Cons.prems(1) sz] by blast
  have b: "byte_at (pre @ (c # v) @ rest) (length pre) = Ok c" by (simp add: byte_at_def)
  have "length (w @ repr_char_text c) + 4 * length v < 2 ^ 62" using Cons.prems(2) length_repr_char(1) [of c] by simp
  from Cons.IH [OF r(2) this, of "pre @ [c]"] show ?case using r(1) b by simp
qed auto

lemma catrepr_owned:
  assumes "owned cc h a w" and "length w + 4 * length v + 2 < 2 ^ 62"
  shows "\<exists>a' h'. sdscatrepr h a (v @ rest) (length v) = Ok (Some a', h') \<and> owned cc h' a' (w @ repr_text v)"
proof -
  obtain a1 h1 where r: "sdscatlen h a (Bytes [DQUOTE, NUL]) 1 = Ok (Some a1, h1)" "owned cc h1 a1 (w @ [DQUOTE])"
    using cat_owned [OF assms(1), of "[DQUOTE]" "[NUL]"] assms(2) by auto
  have "length (w @ [DQUOTE]) + 4 * length v < 2 ^ 62" using assms(2) by simp
  then obtain a2 h2 where l: "repr_loop h1 (Some a1) (v @ rest) 0 (length v) = Ok (Some a2, h2)"
    "owned cc h2 a2 ((w @ [DQUOTE]) @ concat (map repr_char_text v))"
    using repr_loop_owned [OF r(2), of v "[]" rest] by auto
  have "length (concat (map repr_char_text v)) \<le> 4 * length v"
    using length_repr_char(1) by (induction v) (auto intro: order_trans [OF add_mono])
  then have "length ((w @ [DQUOTE]) @ concat (map repr_char_text v)) + length [DQUOTE] < 2 ^ 62" using assms(2) by simp
  then obtain a3 h3 where e: "sdscatlen h2 a2 (Bytes ([DQUOTE] @ [NUL])) (length [DQUOTE]) = Ok (Some a3, h3)"
    "owned cc h3 a3 (((w @ [DQUOTE]) @ concat (map repr_char_text v)) @ [DQUOTE])" using cat_owned [OF l(2)] by blast
  have "sdscatrepr h a (v @ rest) (length v) = Ok (Some a3, h3)"
    unfolding sdscatrepr_def r(1) bnd.simps prod.case l(1) deref_simps using e(1) by simp
  then show ?thesis using e(2) by (simp add: repr_text_def)
qed

subsection \<open>Reading back what was quoted\<close>

lemma hex_digit_cases:
  assumes "n < 16"
  shows "is_hex_digit (digit_char n) \<and> hex_digit_to_int (digit_char n) = n"
proof -
  have "list_all (\<lambda>n. is_hex_digit (digit_char n) \<and> hex_digit_to_int (digit_char n) = n) [0..<16]"
    by code_simp
  then show ?thesis using assms by (simp add: list_all_iff)
qed

lemma hex_byte_char:
  "is_hex_digit (hex_byte c ! 0)" "is_hex_digit (hex_byte c ! 1)" "hex_char (hex_byte c ! 0) (hex_byte c ! 1) = c"
proof -
  have b: "(of_char c :: nat) < 256" by simp
  then have "(of_char c :: nat) div 16 < 16" "(of_char c :: nat) mod 16 < 16" by (simp_all add: less_mult_imp_div_less)
  then show "is_hex_digit (hex_byte c ! 0)" "is_hex_digit (hex_byte c ! 1)" "hex_char (hex_byte c ! 0) (hex_byte c ! 1) = c"
    using hex_digit_cases by (simp_all add: hex_byte_def hex_char_def)
qed

lemma token_repr_char: "token_text True insq acc (repr_char_text c @ cs) = token_text True insq (acc @ [c]) cs"
proof -
  have e: "token_text True insq acc (BACKSLASH # d # cs) = token_text True insq (acc @ [unescape d]) cs" if "d \<noteq> CHR ''x''" for d
    using that by (simp add: token_text.simps(2))
  consider "c = BACKSLASH \<or> c = DQUOTE" | "\<not> (c = BACKSLASH \<or> c = DQUOTE)" "c = CHR 0x0A \<or> c = CHR 0x0D \<or> c = CHR 0x09 \<or> c = CHR 0x07 \<or> c = CHR 0x08"
    | "\<not> (c = BACKSLASH \<or> c = DQUOTE)" "c \<noteq> CHR 0x0A" "c \<noteq> CHR 0x0D" "c \<noteq> CHR 0x09" "c \<noteq> CHR 0x07" "c \<noteq> CHR 0x08" by blast
  then show ?thesis
  proof cases
    case 1
    then have "repr_char_text c = [BACKSLASH, c]" "c \<noteq> CHR ''x''" "unescape c = c"
      by (auto simp: repr_char_text_def unescape_def)
    then show ?thesis using e [of c] by simp
  next
    case 2
    then show ?thesis unfolding repr_char_text_def if_not_P [OF 2(1)]
      by (elim disjE) (simp_all add: e, simp_all add: unescape_def)
  next
    case 3
    note ifs = if_not_P [OF 3(1)] if_not_P [OF 3(2)] if_not_P [OF 3(3)] if_not_P [OF 3(4)] if_not_P [OF 3(5)] if_not_P [OF 3(6)]
    show ?thesis
    proof (cases "is_print c")
      case True
      then have "repr_char_text c = [c]" unfolding repr_char_text_def ifs by simp
      then show ?thesis using 3(1) by (simp add: token_text.simps(2))
    next
      case False
      then have r: "repr_char_text c @ cs = BACKSLASH # CHR ''x'' # hex_byte c @ cs" unfolding repr_char_text_def ifs by simp
      have h: "(hex_byte c @ cs) ! 0 = hex_byte c ! 0" "(hex_byte c @ cs) ! 1 = hex_byte c ! 1" "drop 2 (hex_byte c @ cs) = cs"
        "2 \<le> length (hex_byte c @ cs)" by (simp_all add: hex_byte_def)
      show ?thesis unfolding r token_text.simps(2) list.case h hex_byte_char(3) using hex_byte_char(1,2) h(4) by simp
    qed
  qed
qed

lemma token_repr: "ends cs \<Longrightarrow> token_text False False [] (repr_text v @ cs) = Some (v, cs)"
proof -
  assume cs: "ends cs"
  have q: "token_text True False acc (concat (map repr_char_text v) @ DQUOTE # cs) = Some (acc @ v, cs)" for acc
  proof (induction v arbitrary: acc)
    case Nil
    then show ?case using cs by (simp add: token_text.simps(2))
  next
    case (Cons c v)
    then show ?case using token_repr_char [of False acc c] by simp
  qed
  show ?thesis using q [of "[]"] by (simp add: repr_text_def token_text.simps(2) [of False False])
qed

lemma args_repr: "args_text (join_text '' '' (map repr_text vs)) = Some vs"
proof (induction vs)
  case Nil
  then show ?case by (simp add: args_text.simps)
next
  case (Cons v vs)
  have sp: "\<not> is_space DQUOTE" "is_space CHR '' ''" by (simp_all add: is_space_def)
  define rest where "rest = (if vs = [] then [] else CHR '' '' # join_text '' '' (map repr_text vs))"
  have j: "join_text '' '' (map repr_text (v # vs)) = repr_text v @ rest"
    by (cases vs) (simp_all add: rest_def)
  have d: "dropWhile is_space (repr_text v @ rest) = repr_text v @ rest" using sp by (simp add: repr_text_def)
  have "ends rest" using sp by (simp add: rest_def ends_def)
  note t = token_repr [OF this, of v]
  have "args_text rest = args_text (join_text '' '' (map repr_text vs))"
  proof (cases "vs = []")
    case False
    then show ?thesis
      using sp by (simp add: rest_def args_text.simps [of "CHR '' '' # x" for x] args_text.simps [of "join_text '' '' (map repr_text vs)"])
  qed (simp add: rest_def)
  then have "args_text rest = Some vs" using Cons by simp
  then show ?case
    unfolding j args_text.simps [of "repr_text v @ rest"] d using t by (simp add: repr_text_def)
qed

lemma cstring_repr: "cstring (repr_text v)"
proof -
  have d: "digit_char n \<noteq> NUL" if "n < 16" for n using hex_digit_cases [OF that] hex_not_NUL by metis
  have b: "(of_char c :: nat) div 16 < 16" for c :: char by (simp add: less_mult_imp_div_less)
  have "cstring (repr_char_text c)" for c
    using d [OF b [of c]] d [of "of_char c mod 16"] by (auto simp: repr_char_text_def hex_byte_def is_print_def)
  then show ?thesis by (induction v) (auto simp: repr_text_def)
qed

lemma cstring_join: "(\<forall>p \<in> set ps. cstring p) \<Longrightarrow> cstring sep \<Longrightarrow> cstring (join_text sep ps)"
  by (induction sep ps rule: join_text.induct) auto

section \<open>Properties\<close>

text \<open>C18: \<open>sdssplitargs\<close> reads exactly the arguments that the grammar of quoted and plain arguments finds in the line, into new
  strings whose array can be freed with everything in it; for a line that is not well-formed it returns NULL and
  gives back all the memory it took. No line makes it fault or run for ever.\<close>

theorem splitargs_refines:
  assumes "heap_ok h" "no_fail h" and "cstring cs" "length cs + 1 < 2 ^ 31"
  shows "case args_text cs of
      None \<Rightarrow> \<exists>h'. sdssplitargs h (cs @ [NUL]) = Ok ((None, 0), h') \<and> cells h' = cells h
    | Some ps \<Rightarrow> \<exists>v as h' h''. sdssplitargs h (cs @ [NUL]) = Ok ((Some v, length ps), h')
        \<and> (\<exists>free. cells h' v = Some (TokenBlock (map Some as @ free)))
        \<and> list_all2 (\<lambda>b p. \<exists>t. cells h' b = Some (SdsBlock t) \<and> sds_ok t \<and> sds_val t = p) as ps
        \<and> sdsfreesplitres h' (Some v) (length ps) = Ok h'' \<and> cells h'' = cells h"
proof -
  have st: "args_held (cells h) h None [] []" using assms(1) by (simp add: args_held_def)
  have r: "rest_of (cs @ [NUL]) 0 cs" using assms(3) by (simp add: rest_of_def)
  have sz: "length ([] :: addr list) + length cs + 1 < 2 ^ 31" using assms(4) by simp
  note main = args_loop_text [OF st assms(2) r sz]
  show ?thesis
  proof (cases "args_text cs")
    case None
    then show ?thesis using main by (simp add: sdssplitargs_def)
  next
    case (Some ps)
    then obtain v bs h' free where a: "sdssplitargs h (cs @ [NUL]) = Ok ((Some v, length bs), h')" "held (cells h) h' v bs ps free"
      using main by (auto simp: sdssplitargs_def)
    obtain h'' where f: "sdsfreesplitres h' (Some v) (length bs) = Ok h''" "cells h'' = cells h" using held_free [OF a(2)] by blast
    have l: "list_all2 (\<lambda>b p. \<exists>t. cells h' b = Some (SdsBlock t) \<and> sds_ok t \<and> sds_val t = p) bs ps"
      using a(2) by (simp add: held_def is_str_def)
    show ?thesis unfolding Some option.case heldD(3) [OF a(2), symmetric] using a(1) heldD(1) [OF a(2)] l f by blast
  qed
qed

theorem splitargs_refines_witness:
  "(\<exists>v as h'. sdssplitargs (empty_heap (\<lambda>_. False)) ('' foo ''@ DQUOTE # ''a b'' @ DQUOTE # [NUL]) = Ok ((Some v, 2), h')
      \<and> list_all2 (\<lambda>b p. \<exists>t. cells h' b = Some (SdsBlock t) \<and> sds_ok t \<and> sds_val t = p) as [''foo'', ''a b''])
    \<and> (\<exists>h'. sdssplitargs (empty_heap (\<lambda>_. False)) (''foo '' @ DQUOTE # ''bar'' @ [NUL]) = Ok ((None, 0), h')
      \<and> cells h' = Map.empty)"
proof -
  let ?l = "'' foo '' @ DQUOTE # ''a b'' @ [DQUOTE]" and ?m = "''foo '' @ DQUOTE # ''bar''"
  have h: "heap_ok (empty_heap (\<lambda>_. False))" "no_fail (empty_heap (\<lambda>_. False))" "cells (empty_heap (\<lambda>_. False)) = Map.empty"
    by (simp_all add: empty_heap_def heap_ok_def no_fail_def)
  have a: "args_text ?l = Some [''foo'', ''a b'']" "args_text ?m = None"
    by (simp_all add: args_text.simps token_text.simps is_space_def ends_def)
  have c: "cstring ?l" "length ?l + 1 < 2 ^ 31" "cstring ?m" "length ?m + 1 < 2 ^ 31" by simp_all
  note L = splitargs_refines [OF h(1,2) c(1,2), unfolded a option.case] and M = splitargs_refines [OF h(1,2) c(3,4), unfolded a option.case]
  have "length [''foo'', ''a b''] = 2" by simp
  then show ?thesis using L M unfolding h(3) by (simp only: append_assoc append_Cons append_Nil) blast
qed

text \<open>A caller that quotes texts one after the other, with spaces between them.\<close>

fun quote_all :: "sds_cell heap \<Rightarrow> addr \<Rightarrow> bytes list \<Rightarrow> (addr \<times> sds_cell heap) outcome" where
  "quote_all h a [] = Ok (a, h)"
| "quote_all h a (v # vs) =
     bnd (sdscatrepr h a v (length v)) (\<lambda>(r, h).
     bnd (deref r) (\<lambda>a.
     bnd (if vs = [] then Ok (Some a, h) else sdscat h a ('' '' @ [NUL])) (\<lambda>(r, h).
     bnd (deref r) (\<lambda>a. quote_all h a vs))))"

lemma length_repr: "length (repr_text v) \<ge> 2"
  by (simp add: repr_text_def)

fun quoted_bound :: "bytes list \<Rightarrow> nat" where
  "quoted_bound [] = 0"
| "quoted_bound (v # vs) = 4 * length v + 3 + quoted_bound vs"

lemma repr_text_bound: "length (repr_text v) \<le> 4 * length v + 2"
proof -
  have "length (concat (map repr_char_text v)) \<le> 4 * length v"
    using length_repr_char(1) by (induction v) (auto intro: order_trans [OF add_mono])
  then show ?thesis by (simp add: repr_text_def)
qed

lemma quoted_length: "length (join_text '' '' (map repr_text vs)) \<le> quoted_bound vs"
proof (induction vs)
  case (Cons v vs)
  then show ?case using repr_text_bound [of v] by (cases vs) auto
qed simp

lemma quote_all_owned:
  assumes "owned cc h a w" and "length w + quoted_bound vs < 2 ^ 62"
  shows "\<exists>a' h'. quote_all h a vs = Ok (a', h') \<and> owned cc h' a' (w @ join_text '' '' (map repr_text vs))"
  using assms
proof (induction vs arbitrary: h a w)
  case (Cons v vs)
  have "length w + 4 * length v + 2 < 2 ^ 62" using Cons.prems(2) by simp
  then obtain a1 h1 where r: "sdscatrepr h a v (length v) = Ok (Some a1, h1)" "owned cc h1 a1 (w @ repr_text v)"
    using catrepr_owned [OF Cons.prems(1), of v "[]"] by auto
  show ?case
  proof (cases "vs = []")
    case True
    then show ?thesis using r by simp
  next
    case False
    have sz: "length (w @ repr_text v @ '' '') + quoted_bound vs < 2 ^ 62" using Cons.prems(2) repr_text_bound [of v] by simp
    then have "op_fits (CatString '' '') (w @ repr_text v)" by simp
    then obtain a2 h2 where s: "sdscat h1 a1 ('' '' @ [NUL]) = Ok (Some a2, h2)" "owned cc h2 a2 (w @ repr_text v @ '' '')"
      using tb.step [OF r(2)] by fastforce
    show ?thesis using Cons.IH [OF s(2) sz] r(1) s(1) False by (simp add: join_Cons)
  qed
qed auto

text \<open>C17: What \<open>sdscatrepr\<close> quotes, \<open>sdssplitargs\<close> reads back: any texts, with any bytes, that are appended in quotes to one string
  with spaces between them come out as the arguments of that string's characters.\<close>

theorem quote_roundtrip:
  assumes "heap_ok h" "no_fail h" and "quoted_bound vs + 1 < 2 ^ 31"
  shows "\<exists>a h1 a' h2 s v as h3. sdsempty h = Ok (Some a, h1) \<and> quote_all h1 a vs = Ok (a', h2)
    \<and> cells h2 = (cells h)(a' \<mapsto> SdsBlock s) \<and> sds_ok s
    \<and> sdssplitargs h2 (sbuf s) = Ok ((Some v, length vs), h3)
    \<and> list_all2 (\<lambda>b p. \<exists>t. cells h3 b = Some (SdsBlock t) \<and> sds_ok t \<and> sds_val t = p) as vs"
proof -
  let ?l = "join_text '' '' (map repr_text vs)"
  obtain a h1 where e: "sdsempty h = Ok (Some a, h1)" "owned (cells h) h1 a []" using empty_owned [OF assms(1,2)] by blast
  obtain a' h2 where q: "quote_all h1 a vs = Ok (a', h2)" "owned (cells h) h2 a' ?l"
    using quote_all_owned [OF e(2), of vs] assms(3) by auto
  obtain s where s: "cells h2 = (cells h)(a' \<mapsto> SdsBlock s)" "is_str ?l s" "heap_ok h2" "no_fail h2" using q(2) by (auto simp: owned_def)
  have c: "cstring ?l" by (rule cstring_join) (simp_all add: cstring_repr)
  have b: "sdslen s = length ?l" "sds_val s = ?l" "sbuf s ! sdslen s = NUL" "sdslen s < length (sbuf s)"
    using is_strE [OF s(2)] by (auto simp: sds_ok_def sds_wf_def)
  have "sbuf s = sds_val s @ drop (sdslen s) (sbuf s)" by (simp add: sds_val_def)
  also have "drop (sdslen s) (sbuf s) = NUL # drop (Suc (sdslen s)) (sbuf s)" using b(3,4) by (metis Cons_nth_drop_Suc)
  finally have "rest_of (sbuf s) 0 ?l" using c b(2) by (auto simp: rest_of_def)
  moreover have "length ([] :: addr list) + length ?l + 1 < 2 ^ 31" using quoted_length [of vs] assms(3) by simp
  moreover have "args_held (cells h2) h2 None [] []" using s(3) by (simp add: args_held_def)
  ultimately obtain v bs h3 free where r: "sdssplitargs h2 (sbuf s) = Ok ((Some v, length bs), h3)" "held (cells h2) h3 v bs vs free"
    using args_loop_text [of "cells h2" h2 None "[]" "[]" "sbuf s" 0 ?l] s(4) by (auto simp: args_repr sdssplitargs_def)
  have "list_all2 (\<lambda>b p. \<exists>t. cells h3 b = Some (SdsBlock t) \<and> sds_ok t \<and> sds_val t = p) bs vs"
    using r(2) by (simp add: held_def is_str_def)
  moreover have "sdssplitargs h2 (sbuf s) = Ok ((Some v, length vs), h3)" using r(1) heldD(3) [OF r(2)] by simp
  moreover have "sds_ok s" using s(2) by (simp add: is_str_def)
  ultimately show ?thesis using e(1) q(1) s(1) by blast
qed

theorem quote_roundtrip_witness:
  "\<exists>a h1 a' h2 s v as h3. sdsempty (empty_heap (\<lambda>_. False)) = Ok (Some a, h1)
    \<and> quote_all h1 a [[CHR 0x07, CHR 0x0A, NUL, CHR 0xFF], ''say '' @ [DQUOTE, BACKSLASH], []] = Ok (a', h2)
    \<and> cells h2 a' = Some (SdsBlock s) \<and> sdssplitargs h2 (sbuf s) = Ok ((Some v, 3), h3)
    \<and> list_all2 (\<lambda>b p. \<exists>t. cells h3 b = Some (SdsBlock t) \<and> sds_ok t \<and> sds_val t = p) as
        [[CHR 0x07, CHR 0x0A, NUL, CHR 0xFF], ''say '' @ [DQUOTE, BACKSLASH], []]"
proof -
  let ?vs = "[[CHR 0x07, CHR 0x0A, NUL, CHR 0xFF], ''say '' @ [DQUOTE, BACKSLASH], []]"
  have h: "heap_ok (empty_heap (\<lambda>_. False))" "no_fail (empty_heap (\<lambda>_. False))"
    by (simp_all add: empty_heap_def heap_ok_def no_fail_def)
  have b: "quoted_bound ?vs + 1 < 2 ^ 31" by simp
  have n: "length ?vs = 3" by simp
  obtain a h1 a' h2 s v as h3 where r: "sdsempty (empty_heap (\<lambda>_. False)) = Ok (Some a, h1)" "quote_all h1 a ?vs = Ok (a', h2)"
    "cells h2 = (cells (empty_heap (\<lambda>_. False)))(a' \<mapsto> SdsBlock s)" "sdssplitargs h2 (sbuf s) = Ok ((Some v, 3), h3)"
    "list_all2 (\<lambda>b p. \<exists>t. cells h3 b = Some (SdsBlock t) \<and> sds_ok t \<and> sds_val t = p) as ?vs"
    using quote_roundtrip [OF h b] unfolding n by blast
  have "cells h2 a' = Some (SdsBlock s)" using r(3) by simp
  then show ?thesis using r(1,2,4,5) by blast
qed

end
