(* ===== verification/Hello_Wimp.thy ===== *)
theory Hello_Wimp
  imports Wimp_Log Wimp_Process
begin

section \<open>The example program (\<open>examples/hello-wimp.c\<close>)\<close>

text \<open>
  The program of the repository that puts the library to use: \<open>main\<close> starts a client as a
  second process, links up with it and carries out the instructions it sends; \<open>client_main\<close>
  is that client. Each of the two runs in a thread with its own server and is modelled on its own
  state; what one sends the other finds among its arrivals. What the libraries return is
  gathered in one record of results for each process.

  Printing goes to a list of bytes, by the text that \<open>printf\<close> gives a format; the lines with which the
  two processes report their own progress, and the sleeps, are left out.
\<close>

subsection \<open>Command line\<close>

text \<open>\<open>strtol\<close> with base 10 and no end pointer: blanks, a sign, digits, the value cut off at the limits of
  \<open>long\<close>. It is then stored in an \<open>int32_t\<close>.\<close>

definition digit_of :: "char \<Rightarrow> nat option" where
  "digit_of c = (let n = of_char c :: nat in if 48 \<le> n \<and> n \<le> 57 then Some (n - 48) else None)"

fun strtol_digits :: "nat \<Rightarrow> bytes \<Rightarrow> nat" where
  "strtol_digits n [] = n"
| "strtol_digits n (c # cs) = (case digit_of c of None \<Rightarrow> n | Some d \<Rightarrow> strtol_digits (10 * n + d) cs)"

definition strtol :: "bytes \<Rightarrow> int" where
  "strtol s =
     (case dropWhile is_space s of
        [] \<Rightarrow> 0
      | c # cs \<Rightarrow>
          if c = CHR ''-'' then max (- (2 ^ 63)) (- int (strtol_digits 0 cs))
          else min (2 ^ 63 - 1) (int (strtol_digits 0 (if c = CHR ''+'' then cs else c # cs))))"

definition long_to_int32 :: "int \<Rightarrow> int" where
  "long_to_int32 i = signed_take_bit 31 i"

definition arg_string :: "entry_block heap \<Rightarrow> addr option \<Rightarrow> nat \<Rightarrow> bytes outcome" where
  "arg_string h argv i =
     bnd (deref argv) (\<lambda>v.
     bnd (load_argv h v) (\<lambda>xs.
     bnd (guard_or OutOfBounds (i < length xs)) (\<lambda>_.
     bnd (deref (xs ! i)) (\<lambda>a. bnd (hload h a) as_string))))"

text \<open>The loop over the arguments, with \<open>left\<close> of them to go; the ports are that of the master and that of
  the client.\<close>

fun read_args :: "entry_block heap \<Rightarrow> addr option \<Rightarrow> nat \<Rightarrow> nat \<Rightarrow> int \<times> int \<Rightarrow> (int \<times> int) outcome" where
  "read_args h argv i 0 ports = Ok ports"
| "read_args h argv i (Suc left) (master_port, client_port) =
     bnd (arg_string h argv i) (\<lambda>arg.
     bnd (if arg = ''--master-port'' \<and> left > 0 then
            bnd (arg_string h argv (i + 1)) (\<lambda>s. Ok (long_to_int32 (strtol s), client_port))
          else if arg = ''--process-port'' \<and> left > 0 then
            bnd (arg_string h argv (i + 1)) (\<lambda>s. Ok (master_port, long_to_int32 (strtol s)))
          else Ok (master_port, client_port)) (\<lambda>ports.
     read_args h argv (Suc i) left ports))"

definition default_ports :: "int \<times> int" where
  "default_ports = (8000, 8001)"

text \<open>How \<open>main\<close> hands over the ports, and how the client gets at them.\<close>

definition port_entry :: "entry_block heap \<Rightarrow> int \<Rightarrow> int \<Rightarrow> (addr option \<times> entry_block heap) outcome" where
  "port_entry h master_port client_port =
     bnd (wimp_port_to_string client_port) (\<lambda>(_, port_string).
     bnd (wimp_port_to_string master_port) (\<lambda>(_, master_port_string).
     bnd (cstr_at master_port_string 0) (\<lambda>m.
     bnd (cstr_at port_string 0) (\<lambda>p.
     wimp_get_entry h [Some ''--master-port'', Some m, Some ''--process-port'', Some p]))))"

definition client_ports :: "entry_block heap \<Rightarrow> addr \<Rightarrow> (int \<times> int) outcome" where
  "client_ports h e =
     bnd (bnd (hload h e) as_entry) (\<lambda>(argv, argc). read_args h argv 0 argc default_ports)"

subsection \<open>State of a process\<close>

text \<open>The users of the library, the blocks of arguments, the arguments of receivers and the thread's
  own server; and what that server had sent when it was closed.\<close>

record program =
  lib :: lib_state
  entry_blocks :: "entry_block heap"
  reciever_blocks :: "RecieverArgs heap"
  own_server :: "server_state option"
  network :: "(nat option \<times> bytes) list"

text \<open>What the libraries return to one process, in the order of the calls; \<open>fresh_server\<close> is the block
  that \<open>malloc\<close> returns for the server, with the memory that the server will work on.\<close>

record results =
  r_addr :: "nat option"
  r_sock :: "nat option"
  r_bound :: bool
  r_container :: bool
  r_table :: bool
  r_in :: "mutex \<times> mutex \<times> mutex"
  r_out :: "mutex \<times> mutex \<times> mutex"
  fresh_server :: "server_state option"
  r_thread :: bool
  r_domain :: bool
  r_entry :: bool
  r_key :: bool
  r_names :: bool
  r_listen :: bool
  r_accepts :: "nat \<Rightarrow> accept_result"
  r_send :: "nat \<Rightarrow> nat \<Rightarrow> int"

text \<open>A server record put back under the memory and the logs of its state.\<close>

definition with_server :: "server_state \<Rightarrow> WimpServer \<Rightarrow> server_state" where
  "with_server st s = WimpServer.extend s (server_state.fields (smem st) (sprocs st) (sent st) (sends st) (slocks st))"

definition init_server :: "results \<Rightarrow> bytes \<Rightarrow> program \<Rightarrow> (int \<times> program) outcome" where
  "init_server e name p =
     bnd (wimp_init_local_server (r_addr e) (r_sock e) (r_bound e) (r_container e) (r_table e) (r_in e) (r_out e)
            (map_option WimpServer.truncate (fresh_server e)) (map_option WimpServer.truncate (own_server p)) name)
       (\<lambda>(r, s).
     Ok (r, case (own_server p, fresh_server e, s) of
              (None, Some st, Some s) \<Rightarrow> p\<lparr>own_server := Some (with_server st s)\<rparr>
            | _ \<Rightarrow> p))"

text \<open>The end of both programs and of their failures: close the server, give up the library, return.\<close>

definition leave :: "nat \<Rightarrow> results \<Rightarrow> int \<Rightarrow> program \<Rightarrow> (int \<times> program) outcome" where
  "leave fuel e code p =
     bnd (wimp_close_local_server fuel (r_send e) (own_server p)) (\<lambda>s.
     bnd (wimp_shutdown (lib p)) (\<lambda>l.
     Ok (code, p\<lparr>own_server := s, lib := l, network := (case own_server p of None \<Rightarrow> [] | Some st \<Rightarrow> sent st)\<rparr>)))"

text \<open>Linking up with the other process: start the receiver, add the process to the table, accept its
  receiver's connection. \<open>Inl\<close> is a return from the program.\<close>

definition link_up ::
    "nat \<Rightarrow> results \<Rightarrow> bytes \<Rightarrow> bytes \<Rightarrow> int \<Rightarrow> WimpRelation \<Rightarrow> program \<Rightarrow> (int \<times> program + program) outcome" where
  "link_up fuel e me other port relation p =
     bnd (deref (wimp_get_local_server (own_server p))) (\<lambda>st.
     let (args, h) = wimp_get_reciever_args (reciever_blocks p) me ''127.0.0.1'' port;
         p = p\<lparr>reciever_blocks := h\<rparr>
     in if wimp_start_reciever_thread (r_thread e) \<noteq> WIMP_RECIEVER_SUCCESS then
          bnd (leave fuel e (- 4) p) (\<lambda>r. Ok (Inl r))
        else
          bnd (wimp_process_table_add (r_domain e) (r_entry e) (r_key e) (sprocs st) (Some (ptable st))
                 other ''127.0.0.1'' port relation None) (\<lambda>(_, t, procs).
          bnd (deref t) (\<lambda>t.
          let st = st\<lparr>ptable := t, sprocs := procs\<rparr> in
          bnd (wimp_server_process_accept (r_names e) (r_listen e) fuel (r_accepts e)
                 (WimpServer.truncate st) procs [other]) (\<lambda>(r, a).
          let st = (with_server st (a_server a))\<lparr>sprocs := a_procs a\<rparr>;
              p = p\<lparr>own_server := Some st\<rparr>
          in if r \<noteq> WIMP_SERVER_SUCCESS then bnd (leave fuel e (- 5) p) (\<lambda>r. Ok (Inl r))
             else Ok (Inr p)))))"

subsection \<open>The client\<close>

abbreviation NL :: char where "NL \<equiv> CHR 0x0A"

definition client_instructions ::
    "nat \<Rightarrow> (nat \<Rightarrow> nat \<Rightarrow> int) \<Rightarrow> server_state option \<Rightarrow> server_state option outcome" where
  "client_instructions fuel send_res s =
     bnd (wimp_add_local_server s ''master'' ''blank_instr'' None 0) (\<lambda>s.
     bnd (wimp_add_local_server s ''master'' ''say_hello'' None 0) (\<lambda>s.
     bnd (wimp_add_local_server s ''master'' ''echo'' (Some (''Echo!'' @ [NUL])) (length ''Echo!'' + 1)) (\<lambda>s.
     bnd (wimp_log_success fuel send_res s (''Sent instructions!'' @ [NL]) []) (\<lambda>(_, s).
     bnd (wimp_add_local_server s ''master'' WIMP_INSTRUCTION_EXIT None 0) (\<lambda>s.
     bnd (deref s) (\<lambda>st.
     bnd (wimp_server_send_instructions fuel send_res st) (\<lambda>(_, st). Ok (Some st))))))))"

definition client_main :: "nat \<Rightarrow> results \<Rightarrow> nat \<Rightarrow> addr option \<Rightarrow> program \<Rightarrow> (int \<times> program) outcome" where
  "client_main fuel e argc argv p =
     bnd (read_args (entry_blocks p) argv 0 argc default_ports) (\<lambda>(master_port, client_port).
     let (r, l) = wimp_init (lib p); p = p\<lparr>lib := l\<rparr> in
     if r \<noteq> WIMP_PROCESS_SUCCESS then Ok (- 1, p)
     else
       bnd (init_server e ''client'' p) (\<lambda>(r, p).
       if r \<noteq> WIMP_SERVER_SUCCESS then bnd (wimp_shutdown (lib p)) (\<lambda>l. Ok (- 2, p\<lparr>lib := l\<rparr>))
       else
         bnd (link_up fuel e ''client'' ''master'' master_port WIMP_Process_Parent p) (\<lambda>linked.
         case linked of
           Inl r \<Rightarrow> Ok r
         | Inr p \<Rightarrow>
             bnd (client_instructions fuel (r_send e) (own_server p)) (\<lambda>s.
             leave fuel e 0 (p\<lparr>own_server := s\<rparr>)))))"

definition client_main_entry :: "nat \<Rightarrow> results \<Rightarrow> addr option \<Rightarrow> program \<Rightarrow> (int \<times> program) outcome" where
  "client_main_entry fuel e entry p =
     bnd (deref entry) (\<lambda>a.
     bnd (bnd (hload (entry_blocks p) a) as_entry) (\<lambda>(argv, argc).
     bnd (client_main fuel e argc argv p) (\<lambda>(res, p).
     bnd (wimp_free_entry (entry_blocks p) a) (\<lambda>h.
     Ok (res, p\<lparr>entry_blocks := h\<rparr>)))))"

subsection \<open>The master\<close>

text \<open>\<open>wimp_log\<close> with what it prints when the process has no parent to send the line to. A format
  that asks for arguments that are not there is undefined.\<close>

definition log_out ::
    "nat \<Rightarrow> (nat \<Rightarrow> nat \<Rightarrow> int) \<Rightarrow> server_state \<Rightarrow> bytes \<Rightarrow> bytes \<Rightarrow> log_arg list \<Rightarrow> (server_state \<times> bytes) outcome" where
  "log_out fuel send_res st out format args =
     bnd (wimp_log fuel send_res (Some st) format args) (\<lambda>(here, s).
     bnd (deref s) (\<lambda>st.
     if here then
       (case render format args of
          None \<Rightarrow> Fault BadLibCall
        | Some text \<Rightarrow> Ok (st, out @ text))
     else Ok (st, out)))"

text \<open>The chain of comparisons, with the output and whether to disconnect.\<close>

definition respond ::
    "nat \<Rightarrow> (nat \<Rightarrow> nat \<Rightarrow> int) \<Rightarrow> addr \<Rightarrow> server_state \<Rightarrow> bytes \<Rightarrow> bool \<Rightarrow> (server_state \<times> bytes \<times> bool) outcome" where
  "respond fuel send_res currentnode st out disconnect =
     bnd (wimp_instr_get_from_node (smem st) currentnode) (\<lambda>meta.
     bnd (node_string (smem st) currentnode (m_instr meta)) (\<lambda>instr.
     bnd (wimp_instr_check instr (Some ''blank_instr'')) (\<lambda>is.
     if is then bnd (log_out fuel send_res st out [NL] []) (\<lambda>(st, out). Ok (st, out, disconnect))
     else
     bnd (wimp_instr_check instr (Some ''say_hello'')) (\<lambda>is.
     if is then bnd (log_out fuel send_res st out (''HELLO!'' @ [NL]) []) (\<lambda>(st, out). Ok (st, out, disconnect))
     else
     bnd (wimp_instr_check instr (Some ''echo'')) (\<lambda>is.
     if is then
       bnd (node_string (smem st) currentnode (m_args meta)) (\<lambda>echo_string.
       bnd (deref echo_string) (\<lambda>echo_string.
       bnd (log_out fuel send_res st out (''%s'' @ [NL]) [StringArg echo_string]) (\<lambda>(st, out). Ok (st, out, disconnect))))
     else
     bnd (wimp_instr_check instr (Some WIMP_INSTRUCTION_LOG)) (\<lambda>is.
     if is then
       bnd (node_string (smem st) currentnode (m_args meta)) (\<lambda>format.
       bnd (deref format) (\<lambda>format.
       bnd (log_out fuel send_res st out format []) (\<lambda>(st, out). Ok (st, out, disconnect))))
     else
     bnd (wimp_instr_check instr (Some WIMP_INSTRUCTION_EXIT)) (\<lambda>is.
     if is then bnd (log_out fuel send_res st out [NL] []) (\<lambda>(st, out). Ok (st, out, True))
     else Ok (st, out, disconnect))))))))"

text \<open>The inner loop: the queue is emptied, even after an exit.\<close>

fun respond_all ::
    "nat \<Rightarrow> nat \<Rightarrow> (nat \<Rightarrow> nat \<Rightarrow> int) \<Rightarrow> server_state \<Rightarrow> bytes \<Rightarrow> bool \<Rightarrow> (server_state \<times> bytes \<times> bool) outcome" where
  "respond_all 0 fuel send_res st out disconnect = Fault OutOfFuel"
| "respond_all (Suc n) fuel send_res st out disconnect =
     bnd (wimp_instr_queue_pop (smem st) (incomingmsg st)) (\<lambda>(currentnode, q).
     let st = st\<lparr>incomingmsg := q\<rparr> in
     case currentnode of
       None \<Rightarrow> Ok (st, out, disconnect)
     | Some a \<Rightarrow>
         bnd (respond fuel send_res a st out disconnect) (\<lambda>(st, out, disconnect).
         bnd (wimp_instr_node_free (smem st) a) (\<lambda>m.
         respond_all n fuel send_res (st\<lparr>smem := m\<rparr>) out disconnect)))"

text \<open>The outer loop: \<open>arrivals i\<close> is what the receiver has added before the queue is locked for the
  \<open>i\<close>th time.\<close>

fun master_loop ::
    "nat \<Rightarrow> nat \<Rightarrow> (nat \<Rightarrow> bytes list) \<Rightarrow> (nat \<Rightarrow> nat \<Rightarrow> int) \<Rightarrow> server_state \<Rightarrow> bytes \<Rightarrow> (server_state \<times> bytes) outcome" where
  "master_loop 0 i arrivals send_res st out = Fault OutOfFuel"
| "master_loop (Suc fuel) i arrivals send_res st out =
     bnd (deliver_all (smem st) (incomingmsg st) (arrivals i)) (\<lambda>(q, m).
     let st = st\<lparr>incomingmsg := q, smem := m, slocks := slocks st @ wimp_instr_queue_high_prio_lock q\<rparr> in
     bnd (respond_all (Suc (calls (nodes m))) fuel send_res st out False) (\<lambda>(st, out, disconnect).
     let st = st\<lparr>slocks := slocks st @ wimp_instr_queue_high_prio_unlock (incomingmsg st)\<rparr> in
     if disconnect then Ok (st, out) else master_loop fuel (Suc i) arrivals send_res st out))"

text \<open>\<open>port_res\<close> are the results for the two calls of \<open>wimp_assign_unused_local_port\<close>, \<open>thread\<close> that of starting
  the client's thread. The result comes with the output of the loop.\<close>

type_synonym port_results = "nat option \<times> nat option \<times> bool \<times> (nat \<times> int)"

definition assign_port :: "port_results \<Rightarrow> int" where
  "assign_port r = (case r of (a, s, b, bound) \<Rightarrow> fst (wimp_assign_unused_local_port a s b bound))"

definition main ::
    "nat \<Rightarrow> results \<Rightarrow> port_results \<Rightarrow> port_results \<Rightarrow> nat option \<Rightarrow> (nat \<Rightarrow> bytes list) \<Rightarrow> program \<Rightarrow>
     (int \<times> program \<times> bytes) outcome" where
  "main fuel e master_res client_res thread arrivals p =
     (let (r, l) = wimp_init (lib p); p = p\<lparr>lib := l\<rparr> in
      if r \<noteq> WIMP_PROCESS_SUCCESS then Ok (- 1, p, [])
      else
        let master_port = assign_port master_res in
        bnd (init_server e ''master'' p) (\<lambda>(r, p).
        if r \<noteq> WIMP_SERVER_SUCCESS then bnd (wimp_shutdown (lib p)) (\<lambda>l. Ok (- 2, p\<lparr>lib := l\<rparr>, []))
        else
          let client_port = assign_port client_res in
          bnd (port_entry (entry_blocks p) master_port client_port) (\<lambda>(entry, h).
          let p = p\<lparr>entry_blocks := h\<rparr> in
          if wimp_start_library_process thread \<noteq> WIMP_PROCESS_SUCCESS
          then bnd (leave fuel e (- 3) p) (\<lambda>(r, p). Ok (r, p, []))
          else
            bnd (link_up fuel e ''master'' ''client'' client_port WIMP_Process_Child p) (\<lambda>linked.
            case linked of
              Inl (r, p) \<Rightarrow> Ok (r, p, [])
            | Inr p \<Rightarrow>
                bnd (deref (own_server p)) (\<lambda>st.
                bnd (master_loop fuel 0 arrivals (r_send e) st []) (\<lambda>(st, out).
                bnd (leave fuel e 0 (p\<lparr>own_server := Some st\<rparr>)) (\<lambda>(r, p).
                Ok (r, p, out))))))))"

section \<open>Ports\<close>

subsection \<open>Numbers that were printed\<close>

lemma digit_of_char: "d < 10 \<Longrightarrow> digit_of (digit_char d) = Some d"
proof -
  have "list_all (\<lambda>d. digit_of (digit_char d) = Some d) [0..<10]" by code_simp
  then show "d < 10 \<Longrightarrow> digit_of (digit_char d) = Some d" by (simp add: list_all_iff)
qed

lemma digits_are_digits: "c \<in> set (digits 10 n) \<Longrightarrow> digit_of c \<noteq> None"
proof (induction n rule: less_induct)
  case (less n)
  then show ?case
    using digit_of_char [of "n mod 10"] digit_of_char [of n] less.IH [of "n div 10"]
    by (cases "n < 10") (auto simp: digits.simps [of 10 n])
qed

lemma strtol_digits_append:
  "\<forall>c \<in> set xs. digit_of c \<noteq> None \<Longrightarrow> strtol_digits n (xs @ ys) = strtol_digits (strtol_digits n xs) ys"
  by (induction xs arbitrary: n) (auto split: option.splits)

lemma strtol_digits_digits: "strtol_digits 0 (digits 10 n) = n"
proof (induction n rule: less_induct)
  case (less n)
  show ?case
  proof (cases "n < 10")
    case True
    then show ?thesis by (simp add: digits.simps digit_of_char)
  next
    case False
    then have "digits 10 n = digits 10 (n div 10) @ [digit_char (n mod 10)]" by (simp add: digits.simps [of 10 n])
    moreover have "strtol_digits 0 (digits 10 (n div 10)) = n div 10" using False by (intro less.IH) simp
    moreover have "\<forall>c \<in> set (digits 10 (n div 10)). digit_of c \<noteq> None" using digits_are_digits by blast
    ultimately show ?thesis by (simp add: strtol_digits_append digit_of_char)
  qed
qed

lemma digits_not_Nil: "digits 10 n \<noteq> []"
  by (simp add: digits.simps)

lemma digit_not_sign: "digit_of c \<noteq> None \<Longrightarrow> \<not> is_space c \<and> c \<noteq> CHR ''-'' \<and> c \<noteq> CHR ''+''"
  by (auto simp: digit_of_def is_space_def Let_def split: if_splits)

lemma strtol_print: "- (2 ^ 63) \<le> i \<Longrightarrow> i < 2 ^ 63 \<Longrightarrow> strtol (print_signed i) = i"
proof -
  assume i: "- (2 ^ 63) \<le> i" "i < 2 ^ 63"
  show ?thesis
  proof (cases "i < 0")
    case True
    then show ?thesis using i by (simp add: strtol_def print_signed_def is_space_def strtol_digits_digits)
  next
    case False
    obtain c cs where d: "digits 10 (nat i) = c # cs" using digits_not_Nil [of "nat i"] by (cases "digits 10 (nat i)") auto
    have "\<not> is_space c \<and> c \<noteq> CHR ''-'' \<and> c \<noteq> CHR ''+''"
      using digits_are_digits [of c "nat i"] d by (intro digit_not_sign) simp
    then show ?thesis using False i strtol_digits_digits [of "nat i"] by (simp add: strtol_def print_signed_def d)
  qed
qed

lemma long_to_int32_id: "- (2 ^ 31) \<le> i \<Longrightarrow> i < 2 ^ 31 \<Longrightarrow> long_to_int32 i = i"
  by (simp add: long_to_int32_def signed_take_bit_int_eq_self)

subsection \<open>From the master to the client\<close>

lemma arg_string_eq:
  assumes "entry_holds h0 e v ss h" and "i < length ss"
  shows "arg_string h (Some v) i = Ok (ss ! i)"
proof -
  obtain as where "length as = length ss" "entry_heap h0 e v (length ss) as ss h"
    using assms(1) by (auto simp: entry_holds_def)
  then have "cells h v = Some (ArgvBlock (map Some as @ [None]))" "cells h (as ! i) = Some (StringBlock (ss ! i))"
    using assms(2) by (auto simp: entry_heap_def list_all2_conv_all_nth)
  then show ?thesis using assms(2) \<open>length as = length ss\<close>
    by (simp add: arg_string_def nth_append)
qed

lemma entry_of_holds:
  assumes "entry_holds h0 e v ss h"
  shows "bnd (hload h e) as_entry = Ok (Some v, length ss)"
  using assms by (auto simp: entry_holds_def entry_heap_def)

lemma port_string_text:
  assumes "- 10000 < port" "port < 100000"
  shows "\<exists>s. wimp_port_to_string port = Ok (WIMP_PROCESS_SUCCESS, s) \<and> cstr_at s 0 = Ok (print_signed port)"
proof -
  have l: "length (print_signed port) < 6" using assms by (subst print_signed_short) auto
  then have "cstr_at ([] @ print_signed port @ replicate (6 - length (print_signed port)) NUL) (length ([] :: bytes))
      = Ok (print_signed port)"
    by (intro cstr_at_zeros print_cstring) simp_all
  then show ?thesis using l by (simp add: port_string_eq)
qed

lemma read_port_args:
  assumes "\<And>i. i < 4 \<Longrightarrow> arg_string h argv i = Ok ([''--master-port'', print_signed m, ''--process-port'', print_signed p] ! i)"
    and "- 10000 < m" "m < 100000" "- 10000 < p" "p < 100000"
  shows "read_args h argv 0 4 ports = Ok (m, p)"
proof -
  have a: "arg_string h argv 0 = Ok ''--master-port''" "arg_string h argv (Suc 0) = Ok (print_signed m)"
    "arg_string h argv (Suc (Suc 0)) = Ok ''--process-port''" "arg_string h argv (Suc (Suc (Suc 0))) = Ok (print_signed p)"
    using assms(1) [of 0] assms(1) [of 1] assms(1) [of 2] assms(1) [of 3] by (simp_all add: numeral_eq_Suc)
  have n: "long_to_int32 (strtol (print_signed i)) = i" if "- 10000 < i" "i < 100000" for i
    using that by (subst strtol_print) (simp_all add: long_to_int32_id)
  have l: "length (print_signed i) < 6" if "- 10000 < i" "i < 100000" for i
    using that by (subst print_signed_short) auto
  have s: "print_signed m \<noteq> ''--master-port''" "print_signed m \<noteq> ''--process-port''"
    using l [OF assms(2,3)] by auto
  obtain x y where ports: "ports = (x, y)" by (cases ports)
  show ?thesis
    unfolding ports using s by (simp add: numeral_eq_Suc a n [OF assms(2,3)] n [OF assms(4,5)])
qed

lemma port_entry_ports:
  assumes "heap_ok h" and "- 10000 < m" "m < 100000" "- 10000 < p" "p < 100000"
  shows "\<exists>r h'. port_entry h m p = Ok (r, h')
    \<and> (case r of None \<Rightarrow> cells h' = cells h
       | Some e \<Rightarrow> client_ports h' e = Ok (m, p)
           \<and> (\<exists>h'' v xs. wimp_free_entry h' e = Ok h'' \<and> cells h'' = (cells h)(v \<mapsto> ArgvBlock xs)))
    \<and> ((\<forall>k. \<not> fails h k) \<longrightarrow> r \<noteq> None)"
proof -
  let ?ss = "[''--master-port'', print_signed m, ''--process-port'', print_signed p]"
  obtain ms ps where s: "wimp_port_to_string m = Ok (WIMP_PROCESS_SUCCESS, ms)" "cstr_at ms 0 = Ok (print_signed m)"
    "wimp_port_to_string p = Ok (WIMP_PROCESS_SUCCESS, ps)" "cstr_at ps 0 = Ok (print_signed p)"
    using port_string_text [OF assms(2,3)] port_string_text [OF assms(4,5)] by blast
  have e: "port_entry h m p = wimp_get_entry h (map Some ?ss)" by (simp add: port_entry_def s)
  obtain r h' where g: "wimp_get_entry h (map Some ?ss) = Ok (r, h')"
    "case r of None \<Rightarrow> cells h' = cells h
       | Some e \<Rightarrow> \<exists>v ss. map Some ?ss = map Some ss \<and> entry_holds h e v ss h'"
    "None \<notin> set (map Some ?ss) \<and> (\<forall>k. \<not> fails h k) \<longrightarrow> r \<noteq> None"
    using get_entry_eq [OF assms(1), of "map Some ?ss"] by blast
  show ?thesis
  proof (cases r)
    case None
    then show ?thesis using e g by simp
  next
    case (Some en)
    then obtain v ss where "map Some ?ss = map Some ss" "entry_holds h en v ss h'"
      using g(2) unfolding Some option.case by blast
    then have eh: "entry_holds h en v ?ss h'" using injD [OF inj_mapI [OF inj_Some], of ?ss ss] by simp
    have "read_args h' (Some v) 0 (Suc (Suc (Suc (Suc 0)))) default_ports = Ok (m, p)"
      using read_port_args [of h' "Some v" m p default_ports] arg_string_eq [OF eh] assms(2-5)
      by (simp add: numeral_eq_Suc)
    then have "client_ports h' en = Ok (m, p)"
      using entry_of_holds [OF eh] by (simp add: client_ports_def)
    moreover obtain h'' xs where "wimp_free_entry h' en = Ok h''" "cells h'' = (cells h)(v \<mapsto> ArgvBlock xs)"
      using free_entry_eq [OF eh] by blast
    ultimately show ?thesis unfolding e g(1) Some
      by (intro exI [of _ "Some en"] exI [of _ h']) auto
  qed
qed

section \<open>The loop of the master\<close>

subsection \<open>What an instruction prints\<close>

text \<open>The reference: the text for each instruction, undefined where \<open>main\<close> reads arguments that are missing or
  not terminated, or prints a line that holds conversions.\<close>

fun item_output :: "wire_item \<Rightarrow> bytes option" where
  "item_output Ping = None"
| "item_output (Instr source dest name a) =
     (if name = ''blank_instr'' then Some [NL]
      else if name = ''say_hello'' then Some (''HELLO!'' @ [NL])
      else if name = ''echo'' then (if NUL \<in> set a then Some (until_nul a @ [NL]) else None)
      else if name = WIMP_INSTRUCTION_LOG then (if NUL \<in> set a then render (until_nul a) [] else None)
      else if name = WIMP_INSTRUCTION_EXIT then Some [NL]
      else Some [])"

definition is_exit :: "wire_item \<Rightarrow> bool" where
  "is_exit x \<longleftrightarrow> item_name x = WIMP_INSTRUCTION_EXIT"

definition output_of :: "wire_item list \<Rightarrow> bytes" where
  "output_of xs = concat (map (\<lambda>x. the (item_output x)) xs)"

lemma log_out_master:
  assumes "parent st = None" and "render format args = Some text"
  shows "log_out fuel res st out format args = Ok (st, out @ text)"
  using assms by (simp add: log_out_def wimp_log_def wimp_log_internal_def)

lemma item_args_at:
  assumes "item_at m a (Instr source dest name arg)" and "NUL \<in> set arg"
  shows "\<exists>meta. wimp_instr_get_from_node m a = Ok meta
    \<and> node_string m a (m_instr meta) = Ok (Some name) \<and> node_string m a (m_args meta) = Ok (Some (until_nul arg))"
proof -
  let ?w = "instr_wire source dest name arg"
  have h: "holds m a ?w" and wf: "wf_item (Instr source dest name arg)" using assms by (simp_all add: item_at_def)
  have c3: "cstring dest" "cstring source" "cstring name" using wf by simp_all
  have "wimp_instr_get_from_buffer (Some ?w) (length ?w) = Ok (wire_meta source dest name arg)"
    using wf by (intro parse_wire) simp_all
  moreover have "meta_string (Some ?w) (m_args (wire_meta source dest name arg)) = Ok (Some (until_nul arg))"
    using assms(2) wire_strings(4) [OF c3, of arg] by (auto simp: meta_string_def wire_meta_def cstr_at_def)
  ultimately show ?thesis
    using wire_meta_strings(3) [OF c3] by (simp add: holds_node [OF h])
qed

lemma render_echo: "render (''%s'' @ [NL]) [StringArg (until_nul a)] = Some (until_nul a @ [NL])"
  by (simp add: until_nul_cstring)

lemma respond_item:
  assumes "item_at (smem st) a x" and "parent st = None" and "item_output x = Some text"
  shows "respond fuel res a st out disconnect = Ok (st, out @ text, disconnect \<or> is_exit x)"
proof -
  obtain source dest name arg where x: "x = Instr source dest name arg" using assms(1) by (cases x) (auto simp: item_at_def)
  obtain meta where m: "wimp_instr_get_from_node (smem st) a = Ok meta" "node_string (smem st) a (m_instr meta) = Ok (Some name)"
    "NUL \<in> set arg \<longrightarrow> node_string (smem st) a (m_args meta) = Ok (Some (until_nul arg))"
  proof (cases "NUL \<in> set arg")
    case True
    then show ?thesis using that item_args_at [OF assms(1) [unfolded x]] by blast
  next
    case False
    then show ?thesis using that item_name_at [OF assms(1)] x by auto
  qed
  note out = log_out_master [OF assms(2), of _ _ _ fuel res out]
  have echo: "log_out fuel res st out [CHR ''%'', CHR ''s'', NL] [StringArg (until_nul arg)] = Ok (st, out @ until_nul arg @ [NL])"
    using out [OF render_echo [of arg]] by simp
  show ?thesis using assms(3) m(3) unfolding x
    by (auto simp: respond_def m(1,2) wimp_instr_check_def strings_equal_def is_exit_def out echo instr_consts
        split: if_splits)
qed

subsection \<open>Emptying the queue\<close>

lemma respond_all_items:
  assumes "queue_rel (smem st) (incomingmsg st) as" and "stored (smem st) as xs" and "parent st = None"
    and "\<forall>x \<in> set xs. item_output x \<noteq> None" and "length as < n"
  shows "\<exists>q. respond_all n fuel res st out disconnect
      = Ok (st\<lparr>incomingmsg := q, smem := freed (smem st) as\<rparr>, out @ output_of xs, disconnect \<or> (\<exists>x \<in> set xs. is_exit x))
    \<and> queue_rel (freed (smem st) as) q [] \<and> queue_locks q = queue_locks (incomingmsg st)"
  using assms
proof (induction as arbitrary: st xs n out disconnect)
  case Nil
  have fr: "freed (smem st) [] = smem st" by (simp add: freed_def remove_keys_def)
  obtain k where "n = Suc k" using Nil.prems(5) by (cases n) auto
  moreover have "xs = []" using Nil.prems(2) by (simp add: stored_def)
  ultimately show ?case using wq.pop_nil [OF Nil.prems(1)] Nil.prems(1)
    by (intro exI [of _ "incomingmsg st"]) (simp add: fr output_of_def)
next
  case (Cons a as)
  obtain x xs' where xs: "xs = x # xs'" using Cons.prems(2) by (auto simp: stored_def list_all2_Cons1)
  obtain k where k: "n = Suc k" "length as < k" using Cons.prems(5) by (cases n) auto
  obtain q1 where q1: "wimp_instr_queue_pop (smem st) (incomingmsg st) = Ok (Some a, q1)" "queue_rel (smem st) q1 as"
    "queue_locks q1 = queue_locks (incomingmsg st)"
    using wq.pop_cons [OF Cons.prems(1)] by blast
  have s: "stored (smem st) ([] @ a # as) ([] @ x # xs')" using Cons.prems(2) xs by simp
  have at: "item_at (smem st) a x" using stored_Cons [OF s] by simp
  obtain line where t: "item_output x = Some line" using Cons.prems(4) xs by auto
  let ?st = "st\<lparr>incomingmsg := q1\<rparr>"
  let ?st1 = "?st\<lparr>smem := freed (smem st) [a]\<rparr>"
  have r: "respond fuel res a ?st out disconnect = Ok (?st, out @ line, disconnect \<or> is_exit x)"
    using at t Cons.prems(3) by (intro respond_item) simp_all
  have h: "holds (smem st) a (item_wire x)" using at by (simp add: item_at_def)
  have step: "respond_all n fuel res st out disconnect
      = respond_all k fuel res ?st1 (out @ line) (disconnect \<or> is_exit x)"
    using q1(1) r node_free_freed [OF h] by (simp add: k(1))
  have d: "a \<notin> set as" using s by (simp add: stored_def)
  have "queue_rel (smem ?st1) (incomingmsg ?st1) as" using queue_rel_freed [OF q1(2) d] by simp
  moreover have "stored (smem ?st1) as xs'" using stored_remove(2) [OF s] by simp
  moreover have "parent ?st1 = None" "\<forall>x \<in> set xs'. item_output x \<noteq> None" using Cons.prems(3,4) xs by simp_all
  ultimately obtain q where q: "respond_all k fuel res ?st1 (out @ line) (disconnect \<or> is_exit x)
      = Ok (?st1\<lparr>incomingmsg := q, smem := freed (smem ?st1) as\<rparr>, (out @ line) @ output_of xs',
            (disconnect \<or> is_exit x) \<or> (\<exists>x \<in> set xs'. is_exit x))"
    "queue_rel (freed (smem ?st1) as) q []" "queue_locks q = queue_locks (incomingmsg ?st1)"
    using Cons.IH [of ?st1 xs' k] k(2) by blast
  have f: "freed (smem ?st1) as = freed (smem st) (a # as)" using freed_freed [OF d, of "smem st"] by simp
  show ?case unfolding step using q q1(3) unfolding f
    by (intro exI [of _ q]) (auto simp: xs output_of_def t)
qed

subsection \<open>Memory is given back\<close>

text \<open>Once the nodes \<open>as\<close> are freed, the memory \<open>m\<close> holds what \<open>m0\<close> does.\<close>

definition gives_back :: "mem \<Rightarrow> addr list \<Rightarrow> mem \<Rightarrow> bool" where
  "gives_back m as m0 \<longleftrightarrow> cells (nodes (freed m as)) = cells (nodes m0) \<and> cells (bufs (freed m as)) = cells (bufs m0)"

lemma queue_add_cells:
  assumes "wimp_instr_queue_add m q p n = Ok (r, q', m')" and "queue_rel m q as" and "no_fail (nodes m)"
  shows "bufs m' = bufs m"
    and "a \<notin> set as \<Longrightarrow> a \<noteq> calls (nodes m) \<Longrightarrow> cells (nodes m') a = cells (nodes m) a"
    and "qback q' = Some (calls (nodes m))"
proof -
  let ?n = "\<lparr>instruction = p, instruction_bytes = n, nextnode = None\<rparr>"
  let ?m = "m\<lparr>nodes := (nodes m)\<lparr>cells := (cells (nodes m))(calls (nodes m) \<mapsto> ?n), calls := Suc (calls (nodes m))\<rparr>\<rparr>"
  have l: "link_back ?m q (calls (nodes m)) = Ok (q', m')"
    using assms(1,3) by (auto simp: wimp_instr_queue_add_def halloc_def no_fail_def outcome_simps)
  have qb: "qback q = Some b \<Longrightarrow> b \<in> set as" for b using assms(2) by (auto simp: queue_rel_def split: if_splits)
  show "bufs m' = bufs m" "qback q' = Some (calls (nodes m))"
    using l by (auto simp: link_back_def outcome_simps heap_simps split: option.splits)
  show "cells (nodes m') a = cells (nodes m) a" if "a \<notin> set as" "a \<noteq> calls (nodes m)"
    using l qb that by (auto simp: link_back_def outcome_simps heap_simps split: option.splits)
qed

lemma deliver_gives_back:
  assumes "queue_rel m q as" and "mem_ok m" and "stored m as xs" and "gives_back m as m0"
    and d: "deliver m q w = Ok (q', m')" "queue_rel m' q' (as @ [c])"
  shows "gives_back m' (as @ [c]) m0"
proof -
  let ?h = "bufs m" and ?c = "calls (nodes m)"
  let ?m = "m\<lparr>bufs := ?h\<lparr>cells := (cells ?h)(calls ?h \<mapsto> w), calls := Suc (calls ?h)\<rparr>\<rparr>"
  have mm: "heap_ok (nodes m)" "no_fail (nodes m)" "heap_ok ?h" "no_fail ?h" using assms(2) by (simp_all add: mem_ok_def)
  obtain r where a: "wimp_instr_queue_add ?m q (Some (calls ?h)) (length w) = Ok (r, q', m')"
    using d(1) mm(4) by (auto simp: deliver_def halloc_def no_fail_def outcome_simps)
  have q: "queue_rel ?m q as" using assms(1) by (subst queue_rel_frame [of _ _ m]) simp_all
  have nf: "no_fail (nodes ?m)" using mm(2) by simp
  note k = queue_add_cells [OF a q nf]
  have c: "c = ?c" using d(2) k(3) by (simp add: queue_rel_def)
  have p: "payload m' = (payload m)(?c \<mapsto> (Some (calls ?h), length w))"
    using enqueue_complete [OF assms(1) mm refl, of w] a by auto
  have fc: "?c \<notin> set as" "cells (nodes m) ?c = None" "cells ?h (calls ?h) = None"
    using stored_alloc [OF assms(3), of ?c] heap_ok_fresh [OF mm(1)] heap_ok_fresh [OF mm(3)] by (auto simp: payload_def)
  have b: "map (buf_of m') as = map (buf_of m) as" "buf_of m' ?c = [calls ?h]"
    using fc(1) by (auto simp: buf_of_payload p)
  have "cells (nodes (freed m' (as @ [c]))) = cells (nodes (freed m as))"
    using k(2) fc(2) c by (auto simp: freed_def remove_keys_def fun_eq_iff)
  moreover have "cells (bufs (freed m' (as @ [c]))) = cells (bufs (freed m as))"
    using fc(3) unfolding freed_def c map_append b list.map concat_append
    by (auto simp: remove_keys_def fun_eq_iff k(1))
  ultimately show ?thesis using assms(4) by (simp add: gives_back_def)
qed

lemma deliver_all_gives_back:
  assumes "queue_rel m q as" and "mem_ok m" and "stored m as xs" and "gives_back m as m0"
    and "\<forall>x \<in> set zs. wf_item x \<and> x \<noteq> Ping"
  shows "\<exists>q' m' cs. deliver_all m q (map item_wire zs) = Ok (q', m') \<and> queue_rel m' q' (as @ cs) \<and> mem_ok m'
    \<and> stored m' (as @ cs) (xs @ zs) \<and> queue_locks q' = queue_locks q \<and> gives_back m' (as @ cs) m0"
  using assms
proof (induction zs arbitrary: m q as xs)
  case Nil
  then show ?case by (intro exI [of _ q] exI [of _ m] exI [of _ "[]"]) simp
next
  case (Cons z zs)
  have s: "stored m ([] @ as) xs" using Cons.prems(3) by simp
  obtain q1 m1 c where d: "deliver m q (item_wire z) = Ok (q1, m1)" "queue_rel m1 q1 (as @ [c])" "mem_ok m1"
    "stored m1 ([] @ as @ [c]) (xs @ [z])" "queue_locks q1 = queue_locks q"
    using deliver_stored [OF Cons.prems(1,2) s, of z] Cons.prems(5) by auto
  note g = deliver_gives_back [OF Cons.prems(1-4) d(1,2)]
  have s1: "stored m1 (as @ [c]) (xs @ [z])" using d(4) by simp
  obtain q' m' cs where "deliver_all m1 q1 (map item_wire zs) = Ok (q', m')" "queue_rel m' q' ((as @ [c]) @ cs)" "mem_ok m'"
    "stored m' ((as @ [c]) @ cs) ((xs @ [z]) @ zs)" "queue_locks q' = queue_locks q1" "gives_back m' ((as @ [c]) @ cs) m0"
    using Cons.IH [OF d(2,3) s1 g] Cons.prems(5) by auto
  then show ?case using d(1,5) by (intro exI [of _ q'] exI [of _ m'] exI [of _ "c # cs"]) simp
qed

subsection \<open>The outer loop\<close>

text \<open>One turn under the lock, with the instructions \<open>xs\<close> arriving.\<close>

lemma master_turn:
  assumes "queue_rel (smem st) (incomingmsg st) []" and "mem_ok (smem st)" and "parent st = None"
    and "arrivals i = map item_wire xs" and "\<forall>x \<in> set xs. wf_item x \<and> x \<noteq> Ping \<and> item_output x \<noteq> None"
  shows "\<exists>q m. master_loop (Suc fuel) i arrivals res st out =
      (let st = st\<lparr>incomingmsg := q, smem := m, slocks := slocks st @ lock_round (incomingmsg st)\<rparr>
       in if \<exists>x \<in> set xs. is_exit x then Ok (st, out @ output_of xs)
          else master_loop fuel (Suc i) arrivals res st (out @ output_of xs))
    \<and> queue_rel m q [] \<and> mem_ok m \<and> queue_locks q = queue_locks (incomingmsg st)
    \<and> cells (nodes m) = cells (nodes (smem st)) \<and> cells (bufs m) = cells (bufs (smem st))"
proof -
  have s0: "stored (smem st) [] []" "gives_back (smem st) [] (smem st)"
    by (simp_all add: stored_def gives_back_def freed_def remove_keys_def)
  obtain q1 m1 cs where d: "deliver_all (smem st) (incomingmsg st) (map item_wire xs) = Ok (q1, m1)"
    "queue_rel m1 q1 ([] @ cs)" "mem_ok m1" "stored m1 ([] @ cs) ([] @ xs)" "queue_locks q1 = queue_locks (incomingmsg st)"
    "gives_back m1 ([] @ cs) (smem st)"
    using deliver_all_gives_back [OF assms(1,2) s0, of xs] assms(5) by auto
  let ?st = "st\<lparr>incomingmsg := q1, smem := m1, slocks := slocks st @ wimp_instr_queue_high_prio_lock q1\<rparr>"
  have st: "queue_rel (smem ?st) (incomingmsg ?st) cs" "stored (smem ?st) cs xs" "parent ?st = None"
    using d assms(3) by simp_all
  have len: "length cs < Suc (calls (nodes m1))" using d(2,3) queue_length [of m1 q1 cs] by (simp add: mem_ok_def)
  obtain q where r: "respond_all (Suc (calls (nodes m1))) fuel res ?st out False
      = Ok (?st\<lparr>incomingmsg := q, smem := freed (smem ?st) cs\<rparr>, out @ output_of xs, False \<or> (\<exists>x \<in> set xs. is_exit x))"
    "queue_rel (freed (smem ?st) cs) q []" "queue_locks q = queue_locks (incomingmsg ?st)"
    using respond_all_items [OF st _ len] assms(5) by blast
  have l: "queue_locks q = queue_locks (incomingmsg st)" using r(3) d(5) by simp
  have "wimp_instr_queue_high_prio_lock q1 @ wimp_instr_queue_high_prio_unlock q = lock_round (incomingmsg st)"
    using lock_round_cong [OF l] lock_round_cong [OF d(5)] by (simp add: lock_round_def)
  then have "master_loop (Suc fuel) i arrivals res st out =
      (let st = st\<lparr>incomingmsg := q, smem := freed m1 cs, slocks := slocks st @ lock_round (incomingmsg st)\<rparr>
       in if \<exists>x \<in> set xs. is_exit x then Ok (st, out @ output_of xs)
          else master_loop fuel (Suc i) arrivals res st (out @ output_of xs))"
    unfolding master_loop.simps assms(4) d(1) bnd.simps prod.case Let_def r(1) by simp
  moreover have "mem_ok (freed m1 cs)" using d(3) by (rule mem_ok_freed)
  ultimately show ?thesis using r(2) l d(6)
    by (intro exI [of _ q] exI [of _ "freed m1 cs"]) (simp add: gives_back_def)
qed

lemma master_loop_spec:
  assumes "queue_rel (smem st) (incomingmsg st) []" and "mem_ok (smem st)" and "parent st = None"
    and "\<forall>j \<le> n. arrivals (i + j) = map item_wire (arr j)
      \<and> (\<forall>x \<in> set (arr j). wf_item x \<and> x \<noteq> Ping \<and> item_output x \<noteq> None)"
    and "\<forall>j < n. \<forall>x \<in> set (arr j). \<not> is_exit x" and "\<exists>x \<in> set (arr n). is_exit x" and "n < fuel"
  shows "\<exists>q m. master_loop fuel i arrivals res st out =
      Ok (st\<lparr>incomingmsg := q, smem := m,
             slocks := slocks st @ concat (replicate (Suc n) (lock_round (incomingmsg st)))\<rparr>,
          out @ output_of (concat (map arr [0..<Suc n])))
    \<and> queue_rel m q [] \<and> mem_ok m \<and> queue_locks q = queue_locks (incomingmsg st)
    \<and> cells (nodes m) = cells (nodes (smem st)) \<and> cells (bufs m) = cells (bufs (smem st))"
  using assms
proof (induction n arbitrary: st i arr fuel out)
  case 0
  obtain f where f: "fuel = Suc f" using 0(7) by (cases fuel) auto
  have a: "arrivals i = map item_wire (arr 0)" "\<forall>x \<in> set (arr 0). wf_item x \<and> x \<noteq> Ping \<and> item_output x \<noteq> None"
    using 0(4) by auto
  show ?case using master_turn [where arrivals = arrivals, OF 0(1-3) a, of f res out] 0(6) by (auto simp: f Let_def)
next
  case (Suc n)
  obtain f where f: "fuel = Suc f" "n < f" using Suc.prems(7) by (cases fuel) auto
  have a: "arrivals i = map item_wire (arr 0)" "\<forall>x \<in> set (arr 0). wf_item x \<and> x \<noteq> Ping \<and> item_output x \<noteq> None"
    using spec [OF Suc.prems(4), of 0] by auto
  have ne: "\<not> (\<exists>x \<in> set (arr 0). is_exit x)" using Suc.prems(5) by auto
  obtain q m where t: "master_loop (Suc f) i arrivals res st out =
      master_loop f (Suc i) arrivals res
        (st\<lparr>incomingmsg := q, smem := m, slocks := slocks st @ lock_round (incomingmsg st)\<rparr>) (out @ output_of (arr 0))"
    "queue_rel m q []" "mem_ok m" "queue_locks q = queue_locks (incomingmsg st)"
    "cells (nodes m) = cells (nodes (smem st))" "cells (bufs m) = cells (bufs (smem st))"
    using master_turn [where arrivals = arrivals, OF Suc.prems(1-3) a, of f res out] unfolding if_not_P [OF ne] Let_def by blast
  let ?st = "st\<lparr>incomingmsg := q, smem := m, slocks := slocks st @ lock_round (incomingmsg st)\<rparr>"
  have st: "queue_rel (smem ?st) (incomingmsg ?st) []" "mem_ok (smem ?st)" "parent ?st = None"
    using t(2,3) Suc.prems(3) by simp_all
  have arr': "\<forall>j \<le> n. arrivals (Suc i + j) = map item_wire ((arr \<circ> Suc) j)
      \<and> (\<forall>x \<in> set ((arr \<circ> Suc) j). wf_item x \<and> x \<noteq> Ping \<and> item_output x \<noteq> None)"
    using Suc.prems(4) by (auto dest: spec [of _ "Suc _"])
  have ex': "\<forall>j < n. \<forall>x \<in> set ((arr \<circ> Suc) j). \<not> is_exit x" "\<exists>x \<in> set ((arr \<circ> Suc) n). is_exit x"
    using Suc.prems(5,6) by auto
  have split: "map arr [0..<Suc k] = arr 0 # map (arr \<circ> Suc) [0..<k]" for k by (induction k) auto
  have lr: "lock_round q = lock_round (incomingmsg st)" using lock_round_cong [OF t(4)] by blast
  obtain q' m' where r: "master_loop f (Suc i) arrivals res ?st (out @ output_of (arr 0)) =
      Ok (?st\<lparr>incomingmsg := q', smem := m',
             slocks := slocks ?st @ concat (replicate (Suc n) (lock_round (incomingmsg ?st)))\<rparr>,
          (out @ output_of (arr 0)) @ output_of (concat (map (arr \<circ> Suc) [0..<Suc n])))"
    "queue_rel m' q' []" "mem_ok m'" "queue_locks q' = queue_locks (incomingmsg ?st)"
    "cells (nodes m') = cells (nodes (smem ?st))" "cells (bufs m') = cells (bufs (smem ?st))"
    using Suc.IH [OF st arr' ex' f(2)] by blast
  have o: "output_of (concat (map arr [0..<Suc (Suc n)])) = output_of (arr 0) @ output_of (concat (map (arr \<circ> Suc) [0..<Suc n]))"
    unfolding split [of "Suc n"] by (simp add: output_of_def)
  show ?case unfolding f(1) t(1) r(1) o using r(2-6) t(4-6)
    by (intro exI [of _ q'] exI [of _ m']) (simp add: lr)
qed

section \<open>What the client sends\<close>

text \<open>The five instructions, among them the line that \<open>wimp_log_success\<close> sends.\<close>

definition hello_log :: bytes where
  "hello_log = (''['' @ ''client'' @ '']'' @ '' '') @ color ''[1;32m'' (''Sent instructions!'' @ [NL])"

definition hello_items :: "wire_item list" where
  "hello_items =
     [Instr ''client'' ''master'' ''blank_instr'' [],
      Instr ''client'' ''master'' ''say_hello'' [],
      Instr ''client'' ''master'' ''echo'' (''Echo!'' @ [NUL]),
      Instr ''client'' ''master'' WIMP_INSTRUCTION_LOG (hello_log @ [NUL]),
      Instr ''client'' ''master'' WIMP_INSTRUCTION_EXIT []]"

text \<open>A client that is linked to its master, with the instructions \<open>xs\<close> waiting to be sent.\<close>

definition linked_client :: "(nat \<Rightarrow> nat \<Rightarrow> int) \<Rightarrow> nat option \<Rightarrow> server_state \<Rightarrow> bool" where
  "linked_client res con st \<longleftrightarrow> server_name st = ''client'' \<and> parent st = Some ''master''
     \<and> routed_to st ''master'' con \<and> sends_ok res 0 \<and> length (sendbuffer st) = 512
     \<and> queue_rel (smem st) (incomingmsg st) [] \<and> ptable_ok (sprocs st) (ptable st)
     \<and> (\<forall>n d. ptable_map (sprocs st) (ptable st) n = Some d \<longrightarrow> n = ''master'' \<and> process_relation d \<noteq> WIMP_Process_Child)"

lemma empty_queue_any: "queue_rel m q [] \<Longrightarrow> queue_rel m' q []"
  by (simp add: queue_rel_def)

definition queued :: "server_state \<Rightarrow> wire_item list \<Rightarrow> bool" where
  "queued st xs \<longleftrightarrow> mem_ok (smem st)
     \<and> (\<exists>as. queue_rel (smem st) (outgoingmsg st) as \<and> stored (smem st) as xs)"

abbreviation to_master :: "bytes \<Rightarrow> bytes \<Rightarrow> wire_item" where
  "to_master name a \<equiv> Instr ''client'' ''master'' name a"

lemma client_add:
  assumes "linked_client res con st" and "queued st xs" and "wf_item (to_master name a)"
    and "a = [] \<or> (\<exists>rest. args = Some (a @ rest))"
  shows "\<exists>st'. wimp_server_add st ''master'' name args (length a) = Ok st' \<and> linked_client res con st'
    \<and> queued st' (xs @ [to_master name a]) \<and> sent st' = sent st"
proof -
  have n: "server_name st = ''client''" using assms(1) by (simp add: linked_client_def)
  obtain as where as: "queue_rel (smem st) (outgoingmsg st) as" "mem_ok (smem st)" "stored (smem st) as xs"
    using assms(2) by (auto simp: queued_def)
  obtain q m c where a: "wimp_server_add st ''master'' name args (length a) = Ok (st\<lparr>outgoingmsg := q, smem := m\<rparr>)"
    "queue_rel m q (as @ [c])" "mem_ok m" "stored m (as @ [c]) (xs @ [to_master name a])"
    using add_one_stored [OF as, of "''master''" name a args] assms(3,4) n by auto
  let ?st = "st\<lparr>outgoingmsg := q, smem := m\<rparr>"
  have "routed_to ?st ''master'' con = routed_to st ''master'' con" by (rule routed_to_cong) simp_all
  then have "linked_client res con ?st" using assms(1) by (auto simp: linked_client_def intro: empty_queue_any)
  then show ?thesis using a by (intro exI [of _ ?st]) (auto simp: queued_def)
qed

lemma client_send:
  assumes "linked_client res con st" and "queued st xs" and "\<forall>x \<in> set xs. item_dest x = ''master''"
    and "length xs + (\<Sum>x \<leftarrow> xs. length (item_wire x)) < fuel"
  shows "\<exists>st' log. wimp_server_send_instructions fuel res st = Ok (WIMP_SERVER_SUCCESS, st') \<and> linked_client res con st'
    \<and> queued st' [] \<and> sent st' = sent st @ log \<and> con_bytes con log = stream_wire xs \<and> (\<forall>x \<in> set log. is_packet (snd x))"
proof -
  obtain as where as: "queue_rel (smem st) (outgoingmsg st) as" "mem_ok (smem st)" "stored (smem st) as xs"
    using assms(2) by (auto simp: queued_def)
  have l: "\<forall>x \<in> set xs. routed_to st (item_dest x) con" "sends_ok res (sends st)" "length (sendbuffer st) = 512"
    using assms(1,3) by (auto simp: linked_client_def sends_ok_def)
  obtain st' log where s: "wimp_server_send_instructions fuel res st = Ok (WIMP_SERVER_SUCCESS, st')"
    "sent st' = sent st @ log" "con_bytes con log = stream_wire xs" "\<forall>x \<in> set log. is_packet (snd x)"
    "queue_rel (smem st') (outgoingmsg st') []" "mem_ok (smem st')" "same_routes st st'"
    using send_stored [OF as l assms(4)] by blast
  have "linked_client res con st'"
    using assms(1) s(7) routed_to_same [OF s(7)] by (auto simp: linked_client_def same_routes_def intro: empty_queue_any)
  moreover have "queued st' []" using s(5,6) by (auto simp: queued_def stored_def)
  ultimately show ?thesis using s by blast
qed

lemma render_hello: "render (color ''[1;32m'' (''Sent instructions!'' @ [NL])) [] = Some (color ''[1;32m'' (''Sent instructions!'' @ [NL]))"
  by (simp add: color_def)

lemma hello_wf:
  "wf_item (to_master ''blank_instr'' [])" "wf_item (to_master ''say_hello'' [])"
  "wf_item (to_master ''echo'' (''Echo!'' @ [NUL]))" "wf_item (to_master WIMP_INSTRUCTION_LOG (hello_log @ [NUL]))"
  "wf_item (to_master WIMP_INSTRUCTION_EXIT [])"
  by (simp_all add: instr_consts instr_size_def rec_consts hello_log_def color_def)

lemma client_sends:
  assumes "linked_client res con st" and "queued st []" and "300 < fuel"
  shows "\<exists>st' log. client_instructions fuel res (Some st) = Ok (Some st') \<and> linked_client res con st'
    \<and> queued st' [] \<and> sent st' = sent st @ log \<and> con_bytes con log = stream_wire hello_items"
proof -
  let ?b = "to_master ''blank_instr'' []" and ?h = "to_master ''say_hello'' []"
    and ?e = "to_master ''echo'' (''Echo!'' @ [NUL])" and ?l = "to_master WIMP_INSTRUCTION_LOG (hello_log @ [NUL])"
    and ?x = "to_master WIMP_INSTRUCTION_EXIT []"
  obtain st1 where s1: "wimp_server_add st ''master'' ''blank_instr'' None (length ([] :: bytes)) = Ok st1"
    "linked_client res con st1" "queued st1 ([] @ [?b])" "sent st1 = sent st"
    using client_add [OF assms(1,2) hello_wf(1)] by blast
  obtain st2 where s2: "wimp_server_add st1 ''master'' ''say_hello'' None (length ([] :: bytes)) = Ok st2"
    "linked_client res con st2" "queued st2 (([] @ [?b]) @ [?h])" "sent st2 = sent st1"
    using client_add [OF s1(2,3) hello_wf(2)] by blast
  obtain st3 where s3: "wimp_server_add st2 ''master'' ''echo'' (Some (''Echo!'' @ [NUL])) (length (''Echo!'' @ [NUL])) = Ok st3"
    "linked_client res con st3" "queued st3 ((([] @ [?b]) @ [?h]) @ [?e])" "sent st3 = sent st2"
    using client_add [OF s2(2,3) hello_wf(3), of "Some (''Echo!'' @ [NUL])"] by auto
  have n3: "parent st3 = Some ''master''" "server_name st3 = ''client''" using s3(2) by (simp_all add: linked_client_def)
  let ?f = "color ''[1;32m'' (''Sent instructions!'' @ [NL])"
  have ln: "length (server_name st3) + length ?f + 5 \<le> 4096" by (simp add: n3(2) color_def)
  have ll: "log_line st3 ?f = hello_log @ [NUL]" by (simp add: n3(2) hello_log_def)
  obtain rest where lg: "wimp_log_internal fuel res (Some st3) ?f [] =
    bnd (wimp_server_add st3 ''master'' WIMP_INSTRUCTION_LOG (Some ((hello_log @ [NUL]) @ rest)) (length (hello_log @ [NUL]))) (\<lambda>st.
    bnd (wimp_server_send_instructions fuel res st) (\<lambda>(_, st). Ok (False, Some st)))"
    using log_internal_eq [OF n3(1) render_hello ln, of fuel res] unfolding ll by blast
  obtain st4 where s4: "wimp_server_add st3 ''master'' WIMP_INSTRUCTION_LOG (Some ((hello_log @ [NUL]) @ rest)) (length (hello_log @ [NUL])) = Ok st4"
    "linked_client res con st4" "queued st4 (((([] @ [?b]) @ [?h]) @ [?e]) @ [?l])" "sent st4 = sent st3"
    using client_add [OF s3(2,3) hello_wf(4), of "Some ((hello_log @ [NUL]) @ rest)"] by auto
  have f4: "length (((([] @ [?b]) @ [?h]) @ [?e]) @ [?l]) + (\<Sum>x \<leftarrow> ((([] @ [?b]) @ [?h]) @ [?e]) @ [?l]. length (item_wire x)) < fuel"
    using assms(3) by (simp add: instr_size_def instr_consts hello_log_def color_def)
  obtain st5 l5 where s5: "wimp_server_send_instructions fuel res st4 = Ok (WIMP_SERVER_SUCCESS, st5)" "linked_client res con st5"
    "queued st5 []" "sent st5 = sent st4 @ l5" "con_bytes con l5 = stream_wire (((([] @ [?b]) @ [?h]) @ [?e]) @ [?l])"
    using client_send [OF s4(2,3) _ f4] by auto
  obtain st6 where s6: "wimp_server_add st5 ''master'' WIMP_INSTRUCTION_EXIT None (length ([] :: bytes)) = Ok st6"
    "linked_client res con st6" "queued st6 ([] @ [?x])" "sent st6 = sent st5"
    using client_add [OF s5(2,3) hello_wf(5)] by blast
  have f6: "length ([] @ [?x]) + (\<Sum>x \<leftarrow> [] @ [?x]. length (item_wire x)) < fuel"
    using assms(3) by (simp add: instr_size_def instr_consts)
  obtain st7 l7 where s7: "wimp_server_send_instructions fuel res st6 = Ok (WIMP_SERVER_SUCCESS, st7)" "linked_client res con st7"
    "queued st7 []" "sent st7 = sent st6 @ l7" "con_bytes con l7 = stream_wire ([] @ [?x])"
    using client_send [OF s6(2,3) _ f6] by auto
  have e: "length ''Echo!'' + 1 = length (''Echo!'' @ [NUL])" by simp
  note z = list.size(3)
  have "client_instructions fuel res (Some st) = Ok (Some st7)"
    unfolding client_instructions_def wimp_add_local_server_def option.case s1(1) [unfolded z] s2(1) [unfolded z]
      bnd.simps e s3(1) wimp_log_success_def lg s4(1) s5(1) prod.case s6(1) [unfolded z] deref_simps s7(1) ..
  moreover have "sent st7 = sent st @ (l5 @ l7)" using s1(4) s2(4) s3(4) s4(4) s5(4) s6(4) s7(4) by simp
  moreover have "con_bytes con (l5 @ l7) = stream_wire hello_items"
    unfolding con_bytes_append s5(5) s7(5) by (simp add: hello_items_def del: item_wire.simps)
  ultimately show ?thesis using s7(2,3) by blast
qed

section \<open>Whole runs\<close>

subsection \<open>Starting and ending\<close>

text \<open>A program that runs well: the block for the server has fresh memory, every allocation and every send
  call succeed.\<close>

definition fresh_block :: "results \<Rightarrow> bool" where
  "fresh_block e \<longleftrightarrow> (case fresh_server e of None \<Rightarrow> False
     | Some st \<Rightarrow> mem_ok (smem st) \<and> sprocs st = empty_heap (\<lambda>_. False) \<and> sent st = [])
     \<and> r_container e \<and> r_table e \<and> r_domain e \<and> r_entry e \<and> r_key e \<and> sends_ok (r_send e) 0"

text \<open>A server as the programs keep it: empty queues, and a table that holds at most the process \<open>other\<close>, which can
  be reached on \<open>con\<close> if it is a child.\<close>

definition one_link :: "bytes \<Rightarrow> nat option \<Rightarrow> server_state \<Rightarrow> bool" where
  "one_link other con st \<longleftrightarrow> ptable_ok (sprocs st) (ptable st) \<and> mem_ok (smem st)
     \<and> queue_rel (smem st) (incomingmsg st) [] \<and> queue_rel (smem st) (outgoingmsg st) []
     \<and> length (sendbuffer st) = 512
     \<and> (\<forall>n d. ptable_map (sprocs st) (ptable st) n = Some d \<longrightarrow> n = other
          \<and> (process_relation d = WIMP_Process_Child \<longrightarrow> routed_to st other con))"

lemma with_server_fields [simp]:
  "server_name (with_server st s) = server_name s" "ptable (with_server st s) = ptable s" "parent (with_server st s) = parent s"
  "incomingmsg (with_server st s) = incomingmsg s" "outgoingmsg (with_server st s) = outgoingmsg s"
  "sendbuffer (with_server st s) = sendbuffer s" "smem (with_server st s) = smem st" "sprocs (with_server st s) = sprocs st"
  "sent (with_server st s) = sent st" "sends (with_server st s) = sends st" "slocks (with_server st s) = slocks st"
  by (simp_all add: with_server_def WimpServer.extend_def server_state.fields_def)

lemma truncate_more_fields [simp]:
  "server_name (WimpServer.truncate st) = server_name st" "incomingmsg (WimpServer.truncate st) = incomingmsg st"
  "outgoingmsg (WimpServer.truncate st) = outgoingmsg st" "sendbuffer (WimpServer.truncate st) = sendbuffer st"
  by (simp_all add: WimpServer.truncate_def)

lemma empty_queue: "queue_rel m (wimp_create_instr_queue d n l) []"
  by (simp add: queue_rel_def wimp_create_instr_queue_def)

lemma init_server_fails:
  assumes "own_server p = None" and "fresh_block e" and "r_addr e = None \<or> r_sock e = None \<or> \<not> r_bound e"
  shows "\<exists>r s. init_server e name p = Ok (r, p\<lparr>own_server := Some s\<rparr>) \<and> r \<noteq> WIMP_SERVER_SUCCESS"
proof -
  obtain st where st: "fresh_server e = Some st" using assms(2) by (auto simp: fresh_block_def split: option.splits)
  obtain r s where c: "wimp_create_server (r_addr e) (r_sock e) (r_bound e) (r_container e) (r_table e) (r_in e) (r_out e)
      (WimpServer.truncate st) name = (r, s)" by fastforce
  then have "r \<noteq> WIMP_SERVER_SUCCESS"
    using assms(3) by (auto simp: wimp_create_server_def Let_def server_consts split: option.splits if_splits)
  then show ?thesis using assms(1) st c
    by (intro exI [of _ r] exI [of _ "with_server st s"]) (simp add: init_server_def wimp_init_local_server_def)
qed

lemma init_server_ok:
  assumes "own_server p = None" and "fresh_block e" and "r_addr e \<noteq> None" "r_sock e \<noteq> None" "r_bound e"
  shows "\<exists>st. init_server e name p = Ok (WIMP_SERVER_SUCCESS, p\<lparr>own_server := Some st\<rparr>) \<and> one_link other con st
    \<and> ptable_map (sprocs st) (ptable st) = (\<lambda>_. None) \<and> server_name st = name \<and> parent st = None \<and> sent st = []
    \<and> no_fail (sprocs st)"
proof -
  obtain st where st: "fresh_server e = Some st" "mem_ok (smem st)" "sprocs st = empty_heap (\<lambda>_. False)" "sent st = []"
    "r_container e" "r_table e"
    using assms(2) by (auto simp: fresh_block_def split: option.splits)
  obtain d n l d' n' l' where q: "r_in e = (d, n, l)" "r_out e = (d', n', l')" by (metis prod_cases3)
  obtain a s where as: "r_addr e = Some a" "r_sock e = Some s" using assms(3,4) by auto
  let ?s = "(WimpServer.truncate st)\<lparr>s_recbuffer := WIMP_ZERO_BUFFER, sendbuffer := WIMP_ZERO_BUFFER,
      server_name := name, s_addr := a, ptable := wimp_create_process_table True True, s_server := s, parent := None,
      incomingmsg := wimp_create_instr_queue d n l, outgoingmsg := wimp_create_instr_queue d' n' l', s_active := 1\<rparr>"
  have c: "init_server e name p = Ok (WIMP_SERVER_SUCCESS, p\<lparr>own_server := Some (with_server st ?s)\<rparr>)"
    using assms(1,5) st(1,5,6) q as by (simp add: init_server_def wimp_init_local_server_def wimp_create_server_def Let_def)
  have "one_link other con (with_server st ?s)"
    using create_table_ok [of "\<lambda>_. False"] st(2,3) empty_queue
    by (simp add: one_link_def rec_consts WIMP_ZERO_BUFFER_def)
  then show ?thesis using c create_table_ok [of "\<lambda>_. False"] st(3,4)
    by (intro exI [of _ "with_server st ?s"]) (simp add: no_fail_def empty_heap_def)
qed

text \<open>Closing a server that has at most the one link.\<close>

lemma other_entries:
  assumes ok: "ptable_ok procs t" and h: "hash_table t = Some h"
    and one: "\<forall>n d. ptable_map procs t n = Some d \<longrightarrow> n = other \<and> P d"
  shows "\<forall>x \<in> set (concat (htable h)). hkey x = other \<and> (\<exists>d. cells procs (hvalue x) = Some d \<and> P d)"
    and "entry_count h \<le> 1"
proof -
  have hok: "hash_ok h" and al: "\<forall>k a. hash_lookup h k = Some a \<longrightarrow> cells procs a \<noteq> None"
    using ok h by (auto simp: ptable_ok_def)
  show e: "\<forall>x \<in> set (concat (htable h)). hkey x = other \<and> (\<exists>d. cells procs (hvalue x) = Some d \<and> P d)"
  proof
    fix x assume "x \<in> set (concat (htable h))"
    then have l: "hash_lookup h (hkey x) = Some (hvalue x)"
      by (subst lookup_iff_entry [OF hok]) (auto simp del: set_concat)
    then obtain d where d: "cells procs (hvalue x) = Some d" using al by blast
    then have "ptable_map procs t (hkey x) = Some d" using l h by (simp add: ptable_map_def)
    then show "hkey x = other \<and> (\<exists>d. cells procs (hvalue x) = Some d \<and> P d)" using one d by blast
  qed
  have "set (map hkey (concat (htable h))) \<subseteq> {other}" using e by auto
  then have "card (set (map hkey (concat (htable h)))) \<le> 1"
    by (metis card.empty card_insert_disjoint card_mono empty_iff finite.emptyI finite_insert One_nat_def)
  moreover have "distinct (map hkey (concat (htable h)))" using distinct_keys [OF hok] .
  ultimately have "length (map hkey (concat (htable h))) \<le> 1" by (simp only: distinct_card)
  then show "entry_count h \<le> 1" by (simp add: entry_count_def)
qed

lemma shutdown_ok:
  assumes "0 < init_ref_counter l"
  shows "\<exists>l'. wimp_shutdown l = Ok l' \<and> init_ref_counter l' = init_ref_counter l - 1"
  using assms by (auto simp: wimp_shutdown_def Let_def)

lemma leave_ok:
  assumes "one_link other con st" and "own_server p = Some st" and "sends_ok (r_send e) 0" and "0 < init_ref_counter (lib p)"
    and x: "x = Instr (server_name st) other WIMP_INSTRUCTION_EXIT []" "wf_item x" "length (item_wire x) + 1 < fuel"
  shows "\<exists>l. leave fuel e code p = Ok (code, p\<lparr>own_server := None, lib := l, network := sent st\<rparr>)
    \<and> init_ref_counter l = init_ref_counter (lib p) - 1"
proof -
  note o = assms(1) [unfolded one_link_def]
  obtain h where h: "hash_table (ptable st) = Some h" using o by (auto elim: ptable_okE)
  define es where "es = filter (is_child (sprocs st)) (concat (butlast (htable h)))"
  have ok: "ptable_ok (sprocs st) (ptable st)" using o by blast
  have one: "\<forall>n d. ptable_map (sprocs st) (ptable st) n = Some d \<longrightarrow> n = other
      \<and> (process_relation d = WIMP_Process_Child \<longrightarrow> routed_to st other con)" using o by blast
  note oe = other_entries [OF ok h one]
  have sub: "set es \<subseteq> set (concat (htable h))" by (auto simp: es_def dest: in_set_butlastD)
  have ent: "hkey y = other \<and> routed_to st other con" if "y \<in> set es" for y
    using oe(1) sub that unfolding es_def is_child_def by fastforce
  have "length (concat (butlast (htable h))) \<le> length (concat (htable h))"
    by (cases "htable h" rule: rev_cases) simp_all
  then have le: "length es \<le> 1"
    using oe(2) length_filter_le [of "is_child (sprocs st)" "concat (butlast (htable h))"]
    unfolding es_def entry_count_def by linarith
  have ex: "exit_item (server_name st) y = x" if "y \<in> set es" for y using ent [OF that] x(1) by (simp add: exit_item_def)
  have wf: "\<forall>y \<in> set es. wf_item (exit_item (server_name st) y) \<and> routed_to st (hkey y) con"
    using ent ex x(2) by simp
  have fu: "length es + (\<Sum>y \<leftarrow> es. length (item_wire (exit_item (server_name st) y))) < fuel"
  proof (cases es)
    case Nil
    then show ?thesis using x(3) by simp
  next
    case (Cons y ys)
    then have "es = [y]" using le by simp
    then show ?thesis using ex [of y] x(3) by simp
  qed
  have q: "queue_rel (smem st) (incomingmsg st) []" "queue_rel (smem st) (outgoingmsg st) []" "stored (smem st) [] []"
    "mem_ok (smem st)" using o by (auto simp: stored_def)
  have s: "sends_ok (r_send e) (sends st)" "length (sendbuffer st) = 512" using assms(3) o by (auto simp: sends_ok_def)
  have few: "entry_count h < 2 ^ 64" using oe(2) by simp
  obtain st' where f: "wimp_server_free fuel (r_send e) st = Ok st'"
    using server_free_exits [OF ok h few q es_def wf s fu] by blast
  obtain l where l: "wimp_shutdown (lib p) = Ok l" "init_ref_counter l = init_ref_counter (lib p) - 1"
    using shutdown_ok [OF assms(4)] by blast
  show ?thesis using f l assms(2) by (intro exI [of _ l]) (simp add: leave_def wimp_close_local_server_def)
qed

subsection \<open>Linking up\<close>

text \<open>A server linked to \<open>other\<close>: the process is in the table, active on its connection.\<close>

definition linked :: "bytes \<Rightarrow> WimpRelation \<Rightarrow> nat \<Rightarrow> server_state \<Rightarrow> bool" where
  "linked other relation con st \<longleftrightarrow> one_link other (Some con) st \<and> routed_to st other (Some con)
     \<and> parent st = (if relation = WIMP_Process_Parent then Some other else None)"

lemma send_target_known:
  assumes "ptable_ok procs (ptable s)" and "ptable_map procs (ptable s) dest = Some d"
  shows "\<exists>a. send_target s (Some dest) = Ok (Some a) \<and> cells procs a = Some d"
  using ptable_map_get [OF assms(1), of dest] assms(2) by (auto simp: send_target_def ptable_consts)

lemma routed_known:
  assumes "ptable_ok (sprocs st) (ptable st)" and "ptable_map (sprocs st) (ptable st) dest = Some d"
    and "process_active d \<noteq> 0" "process_connection d = con" "dest \<noteq> server_name st"
  shows "routed_to st dest con"
  using send_target_known [of "sprocs st" "WimpServer.truncate st" dest d] assms by (auto simp: routed_to_def)

text \<open>The data of a process that is in the table and has not connected.\<close>

definition added :: "int \<Rightarrow> WimpRelation \<Rightarrow> WimpProcessData" where
  "added port relation = \<lparr>process_domain = Some ''127.0.0.1'', process_connection = None, process_port = port,
     process_active = WIMP_PROCESS_INACTIVE, process_relation = relation\<rparr>"

lemma add_first:
  assumes "ptable_ok (sprocs st) (ptable st)" and "ptable_map (sprocs st) (ptable st) = (\<lambda>_. None)" and "no_fail (sprocs st)"
    and e: "r_domain e" "r_entry e" "r_key e"
  shows "\<exists>t procs. wimp_process_table_add (r_domain e) (r_entry e) (r_key e) (sprocs st) (Some (ptable st))
        other ''127.0.0.1'' port relation None = Ok (WIMP_PROCESS_TABLE_SUCCESS, Some t, procs)
    \<and> ptable_ok procs t \<and> ptable_map procs t = [other \<mapsto> added port relation]"
proof -
  have "ptable_map (sprocs st) (ptable st) other = None" "\<not> fails (sprocs st) (calls (sprocs st))"
    using assms(2,3) by (simp_all add: no_fail_def)
  from table_add_new [OF assms(1) this] show ?thesis
    using e assms(2) by (simp add: fun_upd_def added_def) blast
qed

text \<open>What both programs do after their server is up, when everything works. The server is as
  \<open>init_server\<close> leaves it.\<close>

lemma link_up_ok:
  assumes st: "one_link other (Some con) st" "ptable_map (sprocs st) (ptable st) = (\<lambda>_. None)" "parent st = None"
      "no_fail (sprocs st)" "own_server p = Some st"
    and e: "r_thread e" "r_domain e" "r_entry e" "r_key e" "r_names e" "r_listen e"
      "r_accepts e 0 = Some (con, Some (handshake_message other))"
    and n: "cstring other" "other \<noteq> server_name st" and fuel: "0 < fuel"
  shows "\<exists>st' h. link_up fuel e me other port relation p = Ok (Inr (p\<lparr>reciever_blocks := h, own_server := Some st'\<rparr>))
    \<and> linked other relation con st' \<and> server_name st' = server_name st \<and> sent st' = sent st
    \<and> (\<forall>n d. ptable_map (sprocs st') (ptable st') n = Some d \<longrightarrow> process_relation d = relation)"
proof -
  let ?args = "\<lparr>process_name = me, recfrom_domain = ''127.0.0.1'', recfrom_port = port\<rparr>"
  obtain a h where rb: "wimp_get_reciever_args (reciever_blocks p) me ''127.0.0.1'' port = (a, h)" by fastforce
  have th: "\<not> (wimp_start_reciever_thread (r_thread e) \<noteq> WIMP_RECIEVER_SUCCESS)" using e(1) by (simp add: wimp_start_reciever_thread_def)
  let ?d = "added port relation"
  have o: "ptable_ok (sprocs st) (ptable st)" "mem_ok (smem st)" "queue_rel (smem st) (incomingmsg st) []"
    "queue_rel (smem st) (outgoingmsg st) []" using st(1) by (simp_all add: one_link_def)
  obtain t procs where t:
    "wimp_process_table_add (r_domain e) (r_entry e) (r_key e) (sprocs st) (Some (ptable st)) other ''127.0.0.1'' port relation None
        = Ok (WIMP_PROCESS_TABLE_SUCCESS, Some t, procs)"
    "ptable_ok procs t" "ptable_map procs t = [other \<mapsto> ?d]"
    using add_first [OF o(1) st(2,4) e(2-4)] by blast
  let ?st = "st\<lparr>ptable := t, sprocs := procs\<rparr>"
  let ?a = "start_accept (WimpServer.truncate ?st) procs"
  let ?d' = "?d\<lparr>process_connection := Some con, process_active := WIMP_PROCESS_ACTIVE\<rparr>"
  have a0: "ptable_ok (a_procs ?a) (ptable (a_server ?a))" "ptable_map (a_procs ?a) (ptable (a_server ?a)) other = Some ?d"
    using t(2,3) by (simp_all add: start_accept_def)
  have fa: "ptable (a_server ?a) = t" "ptable_map procs t = [other \<mapsto> ?d]" "a_procs ?a = procs" "accepted_count ?a = 0"
    "parent (a_server ?a) = None" "server_name (a_server ?a) = server_name st" "incomingmsg (a_server ?a) = incomingmsg st"
    "outgoingmsg (a_server ?a) = outgoingmsg st"
    using t(3) st(3) by (simp_all add: start_accept_def)
  have on: "other \<in> set [other]" by simp
  obtain a' where a0': "accept_connection [other] con (Some (handshake_message other)) ?a = Ok (False, a')"
    "ptable (a_server a') = t" "ptable_ok (a_procs a') (ptable (a_server a'))"
    "ptable_map (a_procs a') t = (ptable_map procs t)(other \<mapsto> ?d')" "accepted_count a' = 0 + 1"
    "parent (a_server a') = (if process_relation ?d = WIMP_Process_Parent \<and> None = (None :: bytes option) then Some other else None)"
    "server_name (a_server a') = server_name st" "incomingmsg (a_server a') = incomingmsg st"
    "outgoingmsg (a_server a') = outgoingmsg st" "sendbuffer (a_server a') = WIMP_ZERO_BUFFER"
    using accept_handshake [OF a0 on n(1), of con] unfolding fa by blast
  have a': "accept_connection [other] con (Some (handshake_message other)) ?a = Ok (False, a')"
    "ptable (a_server a') = t" "ptable_ok (a_procs a') t" "ptable_map (a_procs a') t = [other \<mapsto> ?d']"
    "accepted_count a' = 1"
    "parent (a_server a') = (if relation = WIMP_Process_Parent then Some other else None)"
    "server_name (a_server a') = server_name st" "incomingmsg (a_server a') = incomingmsg st"
    "outgoingmsg (a_server a') = outgoingmsg st" "sendbuffer (a_server a') = WIMP_ZERO_BUFFER"
    using a0' fa(2) by (simp_all add: added_def)
  obtain f where f: "fuel = Suc f" using fuel by (cases fuel) auto
  have acc: "wimp_server_process_accept (r_names e) (r_listen e) fuel (r_accepts e) (WimpServer.truncate ?st) procs [other]
      = Ok (WIMP_SERVER_SUCCESS, a')"
    using e(5-7) a'(1,5) by (simp add: wimp_server_process_accept_def f)
  let ?st' = "(with_server ?st (a_server a'))\<lparr>sprocs := a_procs a'\<rparr>"
  have "link_up fuel e me other port relation p = Ok (Inr (p\<lparr>reciever_blocks := h, own_server := Some ?st'\<rparr>))"
    unfolding link_up_def st(5) wimp_get_local_server_def deref_simps bnd.simps Let_def rb prod.case if_not_P [OF th] t(1) acc
    by simp
  moreover have r: "routed_to ?st' other (Some con)"
    using a'(2-4,7) n(2) by (intro routed_known [where d = ?d']) (simp_all add: ptable_consts)
  have "linked other relation con ?st'"
    using a' o r st(1) unfolding linked_def one_link_def
    by (auto simp: rec_consts WIMP_ZERO_BUFFER_def split: if_splits)
  moreover have "\<forall>n d. ptable_map (sprocs ?st') (ptable ?st') n = Some d \<longrightarrow> process_relation d = relation"
    using a'(2,4) by (auto simp: added_def split: if_splits)
  ultimately show ?thesis using a'(7) by (intro exI [of _ ?st'] exI [of _ h]) simp
qed

lemma link_up_fails:
  assumes st: "one_link other con st" "ptable_map (sprocs st) (ptable st) = (\<lambda>_. None)"
      "no_fail (sprocs st)" "own_server p = Some st"
    and e: "fresh_block e" "\<not> r_thread e \<or> \<not> r_names e \<or> \<not> r_listen e \<or> r_accepts e 0 = None"
    and l: "0 < init_ref_counter (lib p)"
    and x: "x = Instr (server_name st) other WIMP_INSTRUCTION_EXIT []" "wf_item x" "length (item_wire x) + 1 < fuel"
  shows "\<exists>p'. link_up fuel e me other port WIMP_Process_Parent p = Ok (Inl (if r_thread e then - 5 else - 4, p'))
    \<and> own_server p' = None \<and> entry_blocks p' = entry_blocks p \<and> init_ref_counter (lib p') = init_ref_counter (lib p) - 1"
proof -
  obtain a h where rb: "wimp_get_reciever_args (reciever_blocks p) me ''127.0.0.1'' port = (a, h)" by fastforce
  have so: "sends_ok (r_send e) 0" and ke: "r_domain e" "r_entry e" "r_key e" using e(1) by (simp_all add: fresh_block_def)
  have g: "wimp_get_local_server (own_server p) = Some st" using st(4) by (simp add: wimp_get_local_server_def)
  show ?thesis
  proof (cases "r_thread e")
    case False
    then have th: "wimp_start_reciever_thread (r_thread e) \<noteq> WIMP_RECIEVER_SUCCESS"
      by (simp add: wimp_start_reciever_thread_def rec_consts)
    have "own_server (p\<lparr>reciever_blocks := h\<rparr>) = Some st" "0 < init_ref_counter (lib (p\<lparr>reciever_blocks := h\<rparr>))"
      using st(4) l by simp_all
    from leave_ok [OF st(1) this(1) so this(2) x, of "- 4"] show ?thesis
      unfolding link_up_def g deref_simps bnd.simps Let_def rb prod.case if_P [OF th] using False by auto
  next
    case True
    then have th: "\<not> (wimp_start_reciever_thread (r_thread e) \<noteq> WIMP_RECIEVER_SUCCESS)" by (simp add: wimp_start_reciever_thread_def)
    have o: "ptable_ok (sprocs st) (ptable st)" using st(1) by (simp add: one_link_def)
    obtain t procs where t: "wimp_process_table_add (r_domain e) (r_entry e) (r_key e) (sprocs st) (Some (ptable st))
        other ''127.0.0.1'' port WIMP_Process_Parent None = Ok (WIMP_PROCESS_TABLE_SUCCESS, Some t, procs)"
      "ptable_ok procs t" "ptable_map procs t = [other \<mapsto> added port WIMP_Process_Parent]"
      using add_first [OF o st(2,3) ke] by blast
    let ?st = "st\<lparr>ptable := t, sprocs := procs\<rparr>"
    let ?a = "start_accept (WimpServer.truncate ?st) procs"
    obtain f where f: "fuel = Suc f" using x(3) by (cases fuel) auto
    let ?r = "if \<not> r_names e then WIMP_SERVER_FAIL else if \<not> r_listen e then WIMP_SERVER_LISTEN_FAIL
      else WIMP_SERVER_TOO_FEW_PROCESSES"
    have "r_names e \<Longrightarrow> r_listen e \<Longrightarrow> r_accepts e 0 = None" using e(2) True by blast
    then have acc: "wimp_server_process_accept (r_names e) (r_listen e) fuel (r_accepts e) (WimpServer.truncate ?st) procs [other]
        = Ok (?r, ?a)" "?r \<noteq> WIMP_SERVER_SUCCESS"
      by (simp_all add: wimp_server_process_accept_def Let_def f start_accept_def server_consts)
    let ?st' = "(with_server ?st (a_server ?a))\<lparr>sprocs := a_procs ?a\<rparr>"
    have one: "one_link other con ?st'"
      using st(1) t(2,3) unfolding one_link_def by (auto simp: start_accept_def added_def split: if_splits)
    have ps: "own_server (p\<lparr>reciever_blocks := h, own_server := Some ?st'\<rparr>) = Some ?st'"
      "0 < init_ref_counter (lib (p\<lparr>reciever_blocks := h, own_server := Some ?st'\<rparr>))"
      "x = Instr (server_name ?st') other WIMP_INSTRUCTION_EXIT []"
      using l x(1) by (simp_all add: start_accept_def)
    from leave_ok [OF one ps(1) so ps(2,3) x(2,3), of "- 5"] show ?thesis
      unfolding link_up_def g deref_simps bnd.simps Let_def rb prod.case if_not_P [OF th] t(1) acc(1) if_P [OF acc(2)]
      using True by auto
  qed
qed

subsection \<open>The client from start to end\<close>

lemma wf_exit: "wf_item (Instr ''client'' ''master'' WIMP_INSTRUCTION_EXIT [])" "wf_item (Instr ''master'' ''client'' WIMP_INSTRUCTION_EXIT [])"
  "length (item_wire (Instr ''client'' ''master'' WIMP_INSTRUCTION_EXIT [])) = 27"
  "length (item_wire (Instr ''master'' ''client'' WIMP_INSTRUCTION_EXIT [])) = 27"
  by (simp_all add: instr_consts instr_size_def rec_consts)

lemma linked_is_client:
  assumes "linked ''master'' WIMP_Process_Parent con st" and "server_name st = ''client''" and "sends_ok res 0"
    and "\<forall>n d. ptable_map (sprocs st) (ptable st) n = Some d \<longrightarrow> process_relation d \<noteq> WIMP_Process_Child"
  shows "linked_client res (Some con) st" and "queued st []"
  using assms by (auto simp: linked_def one_link_def linked_client_def queued_def stored_def)

lemma client_one_link:
  "linked_client res con st \<Longrightarrow> queued st [] \<Longrightarrow> one_link ''master'' con st"
  by (auto simp: linked_client_def one_link_def queued_def stored_def)

text \<open>The results on which the return of \<open>client_main\<close> depends.\<close>

definition client_code :: "results \<Rightarrow> int" where
  "client_code e =
     (if r_addr e = None \<or> r_sock e = None \<or> \<not> r_bound e then - 2
      else if \<not> r_thread e then - 4
      else if \<not> r_names e \<or> \<not> r_listen e \<or> r_accepts e 0 = None then - 5
      else 0)"

lemma client_main_spec:
  assumes args: "read_args (entry_blocks p) argv 0 argc default_ports = Ok ports"
    and p: "own_server p = None" "0 \<le> init_ref_counter (lib p)" and e: "fresh_block e"
    and con: "r_accepts e 0 = None \<or> r_accepts e 0 = Some (con, Some (handshake_message ''master''))" and fuel: "300 < fuel"
  shows "\<exists>p'. client_main fuel e argc argv p = Ok (client_code e, p')
    \<and> init_ref_counter (lib p') = init_ref_counter (lib p) \<and> (own_server p' = None \<longleftrightarrow> client_code e \<noteq> - 2)
    \<and> entry_blocks p' = entry_blocks p
    \<and> (client_code e = 0 \<longrightarrow> con_bytes (Some con) (network p') = stream_wire hello_items)"
proof -
  obtain mp cp where ports: "ports = (mp, cp)" by (cases ports)
  obtain l where l: "wimp_init (lib p) = (WIMP_PROCESS_SUCCESS, l)" "init_ref_counter l = init_ref_counter (lib p) + 1"
    by (auto simp: wimp_init_def Let_def)
  let ?p = "p\<lparr>lib := l\<rparr>"
  have p1: "own_server ?p = None" "0 < init_ref_counter (lib ?p)" using p l(2) by simp_all
  have so: "sends_ok (r_send e) 0" using e by (simp add: fresh_block_def)
  let ?run = "bnd (init_server e ''client'' ?p) (\<lambda>(r, p).
       if r \<noteq> WIMP_SERVER_SUCCESS then bnd (wimp_shutdown (lib p)) (\<lambda>l. Ok (- 2, p\<lparr>lib := l\<rparr>))
       else
         bnd (link_up fuel e ''client'' ''master'' mp WIMP_Process_Parent p) (\<lambda>linked.
         case linked of
           Inl r \<Rightarrow> Ok r
         | Inr p \<Rightarrow>
             bnd (client_instructions fuel (r_send e) (own_server p)) (\<lambda>s.
             leave fuel e 0 (p\<lparr>own_server := s\<rparr>))))"
  have run: "client_main fuel e argc argv p = ?run"
    unfolding client_main_def args ports bnd.simps prod.case l(1) Let_def by simp
  show ?thesis
  proof (cases "r_addr e = None \<or> r_sock e = None \<or> \<not> r_bound e")
    case True
    then have c: "client_code e = - 2" by (simp add: client_code_def)
    obtain r s where i: "init_server e ''client'' ?p = Ok (r, ?p\<lparr>own_server := Some s\<rparr>)" "r \<noteq> WIMP_SERVER_SUCCESS"
      using init_server_fails [OF p1(1) e True] by blast
    obtain l' where "wimp_shutdown (lib (?p\<lparr>own_server := Some s\<rparr>)) = Ok l'" "init_ref_counter l' = init_ref_counter (lib p)"
      using shutdown_ok [of l] p1(2) l(2) by auto
    then show ?thesis unfolding run c i(1) bnd.simps prod.case if_P [OF i(2)] by simp
  next
    case False
    then obtain st where i: "init_server e ''client'' ?p = Ok (WIMP_SERVER_SUCCESS, ?p\<lparr>own_server := Some st\<rparr>)"
      "one_link ''master'' (Some con) st" "ptable_map (sprocs st) (ptable st) = (\<lambda>_. None)" "server_name st = ''client''"
      "parent st = None" "sent st = []" "no_fail (sprocs st)"
      using init_server_ok [OF p1(1) e] by blast
    let ?p1 = "?p\<lparr>own_server := Some st\<rparr>"
    have p2: "own_server ?p1 = Some st" "0 < init_ref_counter (lib ?p1)" using p1(2) by simp_all
    let ?x = "Instr (server_name st) ''master'' WIMP_INSTRUCTION_EXIT []"
    have x: "wf_item ?x" "length (item_wire ?x) + 1 < fuel" using wf_exit fuel i(4) by simp_all
    show ?thesis
    proof (cases "\<not> r_thread e \<or> \<not> r_names e \<or> \<not> r_listen e \<or> r_accepts e 0 = None")
      case True
      then have c: "client_code e = (if r_thread e then - 5 else - 4)" using False by (simp add: client_code_def)
      obtain p' where "link_up fuel e ''client'' ''master'' mp WIMP_Process_Parent ?p1 = Ok (Inl (if r_thread e then - 5 else - 4, p'))"
        "own_server p' = None" "entry_blocks p' = entry_blocks ?p1" "init_ref_counter (lib p') = init_ref_counter (lib ?p1) - 1"
        using link_up_fails [OF i(2,3,7) p2(1) e True p2(2) refl x] by blast
      then show ?thesis unfolding run i(1) c using l(2) by simp
    next
      case ok: False
      have ke: "r_domain e" "r_entry e" "r_key e" using e by (simp_all add: fresh_block_def)
      have ok': "r_thread e" "r_names e" "r_listen e" "r_accepts e 0 = Some (con, Some (handshake_message ''master''))"
        using ok con by auto
      have n: "cstring ''master''" "''master'' \<noteq> server_name st" "0 < fuel" using i(4) fuel by simp_all
      have c: "client_code e = 0" using False ok by (simp add: client_code_def)
      obtain st' h where k: "link_up fuel e ''client'' ''master'' mp WIMP_Process_Parent ?p1
          = Ok (Inr (?p1\<lparr>reciever_blocks := h, own_server := Some st'\<rparr>))"
        "linked ''master'' WIMP_Process_Parent con st'" "server_name st' = server_name st" "sent st' = sent st"
        "\<forall>n d. ptable_map (sprocs st') (ptable st') n = Some d \<longrightarrow> process_relation d = WIMP_Process_Parent"
        using link_up_ok [OF i(2,3,5,7) p2(1) ok'(1) ke ok'(2-4) n] by blast
      have lc: "linked_client (r_send e) (Some con) st'" "queued st' []"
        using linked_is_client [OF k(2) _ so] k(3,5) i(4) by auto
      obtain st2 log where s: "client_instructions fuel (r_send e) (Some st') = Ok (Some st2)"
        "linked_client (r_send e) (Some con) st2" "queued st2 []" "sent st2 = sent st' @ log"
        "con_bytes (Some con) log = stream_wire hello_items"
        using client_sends [OF lc fuel] by blast
      let ?p2 = "?p1\<lparr>reciever_blocks := h, own_server := Some st2\<rparr>"
      have p3: "own_server ?p2 = Some st2" "0 < init_ref_counter (lib ?p2)" using p1(2) by simp_all
      have x2: "?x = Instr (server_name st2) ''master'' WIMP_INSTRUCTION_EXIT []"
        using s(2) i(4) by (simp add: linked_client_def)
      obtain l' where "leave fuel e 0 ?p2 = Ok (0, ?p2\<lparr>own_server := None, lib := l', network := sent st2\<rparr>)"
        "init_ref_counter l' = init_ref_counter (lib ?p2) - 1"
        using leave_ok [OF client_one_link [OF s(2,3)] p3(1) so p3(2) x2 x] by blast
      then show ?thesis unfolding run i(1) c using k(1) s(1,4,5) l(2) k(4) i(6) by simp
    qed
  qed
qed

subsection \<open>The master from start to end\<close>

text \<open>The instructions \<open>arr j\<close> are what arrives before the \<open>j\<close>th locking, all of a kind that the master can
  carry out, and the first exit is in the last of them.\<close>

definition arrive :: "(nat \<Rightarrow> bytes list) \<Rightarrow> (nat \<Rightarrow> wire_item list) \<Rightarrow> nat \<Rightarrow> bool" where
  "arrive arrivals arr n \<longleftrightarrow>
     (\<forall>j \<le> n. arrivals j = map item_wire (arr j) \<and> (\<forall>x \<in> set (arr j). wf_item x \<and> x \<noteq> Ping \<and> item_output x \<noteq> None))
     \<and> (\<forall>j < n. \<forall>x \<in> set (arr j). \<not> is_exit x) \<and> (\<exists>x \<in> set (arr n). is_exit x)"

lemma main_spec:
  assumes p: "own_server p = None" "0 \<le> init_ref_counter (lib p)" "heap_ok (entry_blocks p)" and e: "fresh_block e"
    and ok: "r_addr e \<noteq> None" "r_sock e \<noteq> None" "r_bound e" "r_thread e" "r_names e" "r_listen e" "thread \<noteq> None"
      "r_accepts e 0 = Some (con, Some (handshake_message ''client''))"
    and ports: "- 10000 < assign_port mr" "assign_port mr < 100000" "- 10000 < assign_port cr" "assign_port cr < 100000"
    and arr: "arrive arrivals arr n" and fuel: "n < fuel" "300 < fuel"
  shows "\<exists>p'. main fuel e mr cr thread arrivals p = Ok (0, p', output_of (concat (map arr [0..<Suc n])))
    \<and> init_ref_counter (lib p') = init_ref_counter (lib p) \<and> own_server p' = None"
proof -
  obtain l where l: "wimp_init (lib p) = (WIMP_PROCESS_SUCCESS, l)" "init_ref_counter l = init_ref_counter (lib p) + 1"
    by (auto simp: wimp_init_def Let_def)
  let ?p = "p\<lparr>lib := l\<rparr>"
  have p1: "own_server ?p = None" "0 < init_ref_counter (lib ?p)" using p l(2) by simp_all
  have so: "sends_ok (r_send e) 0" and ke: "r_domain e" "r_entry e" "r_key e" using e by (simp_all add: fresh_block_def)
  obtain st where i: "init_server e ''master'' ?p = Ok (WIMP_SERVER_SUCCESS, ?p\<lparr>own_server := Some st\<rparr>)"
    "one_link ''client'' (Some con) st" "ptable_map (sprocs st) (ptable st) = (\<lambda>_. None)" "server_name st = ''master''"
    "parent st = None" "sent st = []" "no_fail (sprocs st)"
    using init_server_ok [OF p1(1) e ok(1-3)] by blast
  let ?p1 = "?p\<lparr>own_server := Some st\<rparr>"
  obtain en h where pe: "port_entry (entry_blocks ?p1) (assign_port mr) (assign_port cr) = Ok (en, h)"
    using port_entry_ports [OF p(3) ports] by auto
  let ?p2 = "?p1\<lparr>entry_blocks := h\<rparr>"
  have th: "\<not> (wimp_start_library_process thread \<noteq> WIMP_PROCESS_SUCCESS)" using ok(7) by (auto simp: wimp_start_library_process_def)
  have p2: "own_server ?p2 = Some st" by simp
  have n: "cstring ''client''" "''client'' \<noteq> server_name st" "0 < fuel" using i(4) fuel by simp_all
  obtain st' h' where k: "link_up fuel e ''master'' ''client'' (assign_port cr) WIMP_Process_Child ?p2
      = Ok (Inr (?p2\<lparr>reciever_blocks := h', own_server := Some st'\<rparr>))"
    "linked ''client'' WIMP_Process_Child con st'" "server_name st' = server_name st"
    using link_up_ok [OF i(2,3,5,7) p2 ok(4) ke ok(5,6,8) n] by blast
  let ?p3 = "?p2\<lparr>reciever_blocks := h', own_server := Some st'\<rparr>"
  have s': "queue_rel (smem st') (incomingmsg st') []" "mem_ok (smem st')" "parent st' = None"
    using k(2) by (auto simp: linked_def one_link_def)
  note a = arr [unfolded arrive_def]
  have a0: "\<forall>j \<le> n. arrivals (0 + j) = map item_wire (arr j)
      \<and> (\<forall>x \<in> set (arr j). wf_item x \<and> x \<noteq> Ping \<and> item_output x \<noteq> None)" using a by simp
  let ?ln = "slocks st' @ concat (replicate (Suc n) (lock_round (incomingmsg st')))"
  obtain q m where r: "master_loop fuel 0 arrivals (r_send e) st' [] =
      Ok (st'\<lparr>incomingmsg := q, smem := m, slocks := ?ln\<rparr>, [] @ output_of (concat (map arr [0..<Suc n])))"
    "queue_rel m q []" "mem_ok m"
    using master_loop_spec [OF s' a0 _ _ fuel(1), of "r_send e" "[]"] a by blast
  let ?st = "st'\<lparr>incomingmsg := q, smem := m, slocks := ?ln\<rparr>"
  have rt: "routed_to ?st ''client'' c = routed_to st' ''client'' c" for c by (rule routed_to_cong) simp_all
  have one: "one_link ''client'' (Some con) ?st"
    using k(2) r(2,3) rt unfolding linked_def one_link_def by (auto intro: empty_queue_any)
  have p4: "own_server (?p3\<lparr>own_server := Some ?st\<rparr>) = Some ?st" "0 < init_ref_counter (lib (?p3\<lparr>own_server := Some ?st\<rparr>))"
    "Instr ''master'' ''client'' WIMP_INSTRUCTION_EXIT [] = Instr (server_name ?st) ''client'' WIMP_INSTRUCTION_EXIT []"
    using p1(2) k(3) i(4) by simp_all
  have x: "length (item_wire (Instr ''master'' ''client'' WIMP_INSTRUCTION_EXIT [])) + 1 < fuel" using wf_exit fuel by simp
  obtain l' where v: "leave fuel e 0 (?p3\<lparr>own_server := Some ?st\<rparr>)
      = Ok (0, ?p3\<lparr>own_server := Some ?st\<rparr>\<lparr>own_server := None, lib := l', network := sent ?st\<rparr>)"
    "init_ref_counter l' = init_ref_counter (lib (?p3\<lparr>own_server := Some ?st\<rparr>)) - 1"
    using leave_ok [OF one p4(1) so p4(2,3) wf_exit(2) x] by blast
  have o3: "own_server ?p3 = Some st'" by simp
  show ?thesis
    unfolding main_def l(1) Let_def prod.case i(1) bnd.simps pe if_not_P [OF th] k(1) sum.case o3 deref_simps r(1) v(1)
    using l(2) v(2) by simp
qed

subsection \<open>The greeting\<close>

lemma hello_outputs: "\<forall>x \<in> set hello_items. wf_item x \<and> x \<noteq> Ping \<and> item_output x \<noteq> None"
  using hello_wf by (simp add: hello_items_def instr_consts hello_log_def color_def until_nul_def)

definition hello_output :: bytes where
  "hello_output = [NL] @ ''HELLO!'' @ [NL] @ ''Echo!'' @ [NL] @ hello_log @ [NL]"

lemma output_hello: "output_of hello_items = hello_output"
  by (simp add: output_of_def hello_items_def instr_consts hello_log_def color_def until_nul_def hello_output_def)

lemma hello_arrive:
  assumes "\<forall>j \<le> n. arrivals j = map item_wire (arr j)" and "concat (map arr [0..<Suc n]) = hello_items" and "arr n \<noteq> []"
  shows "arrive arrivals arr n"
proof -
  let ?x = "to_master WIMP_INSTRUCTION_EXIT []" and ?init = "butlast hello_items"
  have sp: "concat (map arr [0..<n]) @ arr n = ?init @ [?x]"
    using assms(2) by (simp add: hello_items_def)
  obtain ys z where z: "arr n = ys @ [z]" using assms(3) by (cases "arr n" rule: rev_cases) auto
  have i: "concat (map arr [0..<n]) @ ys = ?init" "z = ?x" using sp unfolding z by auto
  have "\<forall>x \<in> set ?init. \<not> is_exit x" by (simp add: hello_items_def is_exit_def instr_consts)
  then have "\<forall>j < n. \<forall>x \<in> set (arr j). \<not> is_exit x" unfolding i(1) [symmetric] by fastforce
  moreover have "\<exists>x \<in> set (arr n). is_exit x" using z i(2) by (simp add: is_exit_def)
  moreover have "set (arr j) \<subseteq> set hello_items" if "j \<le> n" for j
    unfolding assms(2) [symmetric] using that by (cases "j = n") (auto intro!: bexI [of _ j])
  ultimately show ?thesis using assms(1) hello_outputs unfolding arrive_def by blast
qed

lemma client_entry_spec:
  assumes en: "port_entry h mp cp = Ok (Some en, entry_blocks c)" "heap_ok h"
    "- 10000 < mp" "mp < 100000" "- 10000 < cp" "cp < 100000"
    and c: "own_server c = None" "0 \<le> init_ref_counter (lib c)" "fresh_block e"
    and con: "r_accepts e 0 = None \<or> r_accepts e 0 = Some (con, Some (handshake_message ''master''))" and fuel: "300 < fuel"
  shows "\<exists>c'. client_main_entry fuel e (Some en) c = Ok (client_code e, c')
    \<and> init_ref_counter (lib c') = init_ref_counter (lib c) \<and> (own_server c' = None \<longleftrightarrow> client_code e \<noteq> - 2)
    \<and> (\<exists>v xs. cells (entry_blocks c') = (cells h)(v \<mapsto> ArgvBlock xs))
    \<and> (client_code e = 0 \<longrightarrow> con_bytes (Some con) (network c') = stream_wire hello_items)"
proof -
  obtain r h1 where r: "port_entry h mp cp = Ok (r, h1)"
    "case r of None \<Rightarrow> cells h1 = cells h
       | Some e \<Rightarrow> client_ports h1 e = Ok (mp, cp)
           \<and> (\<exists>h'' v xs. wimp_free_entry h1 e = Ok h'' \<and> cells h'' = (cells h)(v \<mapsto> ArgvBlock xs))"
    using port_entry_ports [OF en(2-6)] by blast
  have "r = Some en" "h1 = entry_blocks c" using r(1) unfolding en(1) by simp_all
  then obtain h'' v xs where fr: "client_ports (entry_blocks c) en = Ok (mp, cp)"
    "wimp_free_entry (entry_blocks c) en = Ok h''" "cells h'' = (cells h)(v \<mapsto> ArgvBlock xs)"
    using r(2) by (simp only: option.case) blast
  obtain argv argc where ae: "bnd (hload (entry_blocks c) en) as_entry = Ok (argv, argc)"
    "read_args (entry_blocks c) argv 0 argc default_ports = Ok (mp, cp)"
    using fr(1) by (auto simp: client_ports_def outcome_simps)
  obtain c' where m: "client_main fuel e argc argv c = Ok (client_code e, c')"
    "init_ref_counter (lib c') = init_ref_counter (lib c)" "own_server c' = None \<longleftrightarrow> client_code e \<noteq> - 2"
    "entry_blocks c' = entry_blocks c" "client_code e = 0 \<longrightarrow> con_bytes (Some con) (network c') = stream_wire hello_items"
    using client_main_spec [OF ae(2) c con fuel] by (elim exE conjE) (rule that)
  have "client_main_entry fuel e (Some en) c = Ok (client_code e, c'\<lparr>entry_blocks := h''\<rparr>)"
    unfolding client_main_entry_def deref_simps bnd.simps ae(1) prod.case m(1) using m(4) fr(2) by simp
  then show ?thesis using m(2,3,5) fr(3) by (intro exI [of _ "c'\<lparr>entry_blocks := h''\<rparr>"]) auto
qed

lemma hello_received:
  assumes "queue_rel m q []" and "mem_ok m" and "concat ps = stream_wire hello_items" and "\<forall>p \<in> set ps. is_packet p"
    and "\<forall>i < length ps. recv i = Some (ps ! i)" and "length ps + 5 < f" and "\<forall>k. active k"
  shows "\<exists>r as. receive_loop f recv active 0 ''master'' (start_receiver m q) = Ok r
    \<and> queue_rel (rmem r) (incoming_queue r) as \<and> list_all2 (holds (rmem r)) as (map item_wire hello_items)"
proof -
  have mm: "heap_ok (nodes m)" "no_fail (nodes m)" "heap_ok (bufs m)" "no_fail (bufs m)" using assms(2) by (simp_all add: mem_ok_def)
  let ?init = "butlast hello_items" and ?x = "to_master WIMP_INSTRUCTION_EXIT []"
  have h: "?init @ [?x] = hello_items" by (simp add: hello_items_def)
  have wf: "\<forall>x \<in> set ?init. wf_item x \<and> \<not> is_exit_item ''master'' x"
    using hello_wf by (simp add: hello_items_def instr_consts)
  have ex: "is_exit_item ''master'' ?x" by (simp add: instr_consts)
  have c: "concat ps = stream_wire (?init @ [?x]) @ []" unfolding h using assms(3) by simp
  have f: "length ?init + length ps + 1 < f" using assms(6) by (simp add: hello_items_def)
  have a: "\<forall>k \<le> length ?init. active k" using assms(7) by simp
  have w: "instr_wires hello_items = map item_wire hello_items" by (simp add: hello_items_def)
  show ?thesis
    using receive_stream [OF assms(1) mm list_all2_Nil [THEN iffD2, OF refl] wf hello_wf(5) ex c assms(4,5) f a]
    unfolding h w by auto
qed

section \<open>Lines that are taken for formats\<close>

text \<open>The master passes the arguments of a log instruction to \<open>wimp_log\<close> as the format: a line with a percent sign that the
  client's formatter has written leaves it undefined, and so does a log or an echo without arguments.\<close>

lemma log_line_as_format:
  assumes "item_at (smem st) a (Instr source dest WIMP_INSTRUCTION_LOG arg)" and "parent st = None"
    and "NUL \<in> set arg" and "render (until_nul arg) [] = None"
  shows "respond fuel res a st out disconnect = Fault BadLibCall"
proof -
  obtain meta where m: "wimp_instr_get_from_node (smem st) a = Ok meta"
    "node_string (smem st) a (m_instr meta) = Ok (Some WIMP_INSTRUCTION_LOG)"
    "node_string (smem st) a (m_args meta) = Ok (Some (until_nul arg))"
    using item_args_at [OF assms(1,3)] by blast
  have "log_out fuel res st out (until_nul arg) [] = Fault BadLibCall"
    using assms(2,4) by (simp add: log_out_def wimp_log_def wimp_log_internal_def)
  then show ?thesis by (simp add: respond_def m wimp_instr_check_def strings_equal_def instr_consts)
qed

lemma percent_line: "render ''%d%%'' [IntArg 5] = Some ''5%''" "render ''5%'' [] = None"
  by (simp_all add: print_signed_def digits.simps digit_char_def)

lemma no_entry_no_client: "client_main_entry fuel e None p = Fault NullDeref"
  by (simp add: client_main_entry_def)

section \<open>Properties\<close>

text \<open>Everything works for a process, and the other one connects on \<open>con\<close>.\<close>

definition all_works :: "results \<Rightarrow> bytes \<Rightarrow> nat \<Rightarrow> bool" where
  "all_works e other con \<longleftrightarrow> fresh_block e \<and> r_addr e \<noteq> None \<and> r_sock e \<noteq> None \<and> r_bound e \<and> r_thread e
     \<and> r_names e \<and> r_listen e \<and> r_accepts e 0 = Some (con, Some (handshake_message other))"


text \<open>Results with which everything works, a program before its start, and ports as the system assigns them.\<close>

definition ex_block :: server_state where
  "ex_block = ex_server\<lparr>smem := empty_mem, sprocs := empty_heap (\<lambda>_. False), sent := [], parent := None,
     incomingmsg := wimp_create_instr_queue 0 1 2\<rparr>"

definition ex_results :: "bytes \<Rightarrow> results" where
  "ex_results other = \<lparr>r_addr = Some 1, r_sock = Some 2, r_bound = True, r_container = True, r_table = True,
     r_in = (0, 1, 2), r_out = (3, 4, 5), fresh_server = Some ex_block, r_thread = True, r_domain = True, r_entry = True,
     r_key = True, r_names = True, r_listen = True, r_accepts = (\<lambda>_. Some (7, Some (handshake_message other))),
     r_send = (\<lambda>_ n. int n)\<rparr>"

definition ex_program :: "entry_block heap \<Rightarrow> program" where
  "ex_program h = \<lparr>lib = \<lparr>init_ref_counter = 0, libsys_calls = []\<rparr>, entry_blocks = h, reciever_blocks = empty_heap (\<lambda>_. False),
     own_server = None, network = []\<rparr>"

definition ex_port :: "int \<Rightarrow> port_results" where
  "ex_port n = (Some 0, Some 0, True, (0, n))"

lemma ex_fresh: "fresh_block (ex_results other)"
  using empty_mem_ok by (simp add: fresh_block_def ex_results_def ex_block_def mem_ok_def sends_ok_def)

lemma ex_works: "all_works (ex_results other) other 7"
  using ex_fresh by (simp add: all_works_def ex_results_def)

lemma ex_assigned: "assign_port (ex_port n) = n"
  by (simp add: assign_port_def ex_port_def wimp_assign_unused_local_port_def)

lemma ex_entry: "\<exists>en h. port_entry (empty_heap (\<lambda>_. False)) 40000 40001 = Ok (Some en, h)"
proof -
  have "- 10000 < (40000 :: int)" "(40000 :: int) < 100000" "- 10000 < (40001 :: int)" "(40001 :: int) < 100000" by simp_all
  from port_entry_ports [OF heap_ok_empty this, of "\<lambda>_. False"] show ?thesis by (force simp: empty_heap_def)
qed

text \<open>The five instructions arriving in two parts, in the third and the fifth turn.\<close>

definition ex_turns :: "nat \<Rightarrow> wire_item list" where
  "ex_turns j = (if j = 2 then take 2 hello_items else if j = 4 then drop 2 hello_items else [])"

lemma ex_turns_all: "concat (map ex_turns [0..<Suc 4]) = hello_items"
  by (simp add: ex_turns_def upt_rec)


text \<open>C15: How the client ends. Whatever fails of the socket library, the thread of the receiver or the accepting, the
  client started with the entry that \<open>main\<close> made returns the code for it, with the users of the library counted as before and the
  arguments freed but for their array. Its server is closed, except after the code -2: then the thread keeps
  a server that was never set up, and cannot start another.\<close>

theorem client_return_codes:
  assumes "port_entry h mp cp = Ok (Some en, entry_blocks c)" "heap_ok h"
    and "- 10000 < mp" "mp < 100000" "- 10000 < cp" "cp < 100000"
    and "own_server c = None" "0 \<le> init_ref_counter (lib c)" "fresh_block e"
    and "r_accepts e 0 = None \<or> r_accepts e 0 = Some (con, Some (handshake_message ''master''))" and "300 < fuel"
  shows "\<exists>c'. client_main_entry fuel e (Some en) c = Ok (client_code e, c')
    \<and> init_ref_counter (lib c') = init_ref_counter (lib c) \<and> (own_server c' = None \<longleftrightarrow> client_code e \<noteq> - 2)
    \<and> (\<exists>v xs. cells (entry_blocks c') = (cells h)(v \<mapsto> ArgvBlock xs))
    \<and> (client_code e = - 2 \<longrightarrow> (\<forall>e' name. init_server e' name c' = Ok (WIMP_SERVER_FAIL, c')))"
proof -
  obtain c' where c: "client_main_entry fuel e (Some en) c = Ok (client_code e, c')"
    "init_ref_counter (lib c') = init_ref_counter (lib c)" "own_server c' = None \<longleftrightarrow> client_code e \<noteq> - 2"
    "\<exists>v xs. cells (entry_blocks c') = (cells h)(v \<mapsto> ArgvBlock xs)"
    using client_entry_spec [OF assms] by (elim exE conjE) (rule that, assumption+, blast)
  have "client_code e = - 2 \<longrightarrow> (\<forall>e' name. init_server e' name c' = Ok (WIMP_SERVER_FAIL, c'))"
    using c(3) by (auto simp: init_server_def wimp_init_local_server_def)
  with c show ?thesis by (intro exI [of _ c'] conjI)
qed

theorem client_return_codes_witness:
  "\<exists>en h c'. port_entry (empty_heap (\<lambda>_. False)) 40000 40001 = Ok (Some en, h)
    \<and> client_main_entry 400 ((ex_results ''master'')\<lparr>r_bound := False\<rparr>) (Some en) (ex_program h) = Ok (- 2, c')
    \<and> init_ref_counter (lib c') = 0 \<and> own_server c' \<noteq> None
    \<and> init_server (ex_results ''master'') ''client'' c' = Ok (WIMP_SERVER_FAIL, c')"
proof -
  let ?e = "(ex_results ''master'')\<lparr>r_bound := False\<rparr>"
  obtain en h where en: "port_entry (empty_heap (\<lambda>_. False)) 40000 40001 = Ok (Some en, h)" using ex_entry by blast
  have pe: "port_entry (empty_heap (\<lambda>_. False)) 40000 40001 = Ok (Some en, entry_blocks (ex_program h))"
    using en by (simp add: ex_program_def)
  have r: "- 10000 < (40000 :: int)" "(40000 :: int) < 100000" "- 10000 < (40001 :: int)" "(40001 :: int) < 100000" by simp_all
  have p: "own_server (ex_program h) = None" "0 \<le> init_ref_counter (lib (ex_program h))" by (simp_all add: ex_program_def)
  have e: "fresh_block ?e" "r_accepts ?e 0 = None \<or> r_accepts ?e 0 = Some (7, Some (handshake_message ''master''))" "300 < (400 :: nat)"
    "client_code ?e = - 2"
    using ex_fresh [of "''master''"] by (simp_all add: fresh_block_def ex_results_def client_code_def)
  obtain c' where "client_main_entry 400 ?e (Some en) (ex_program h) = Ok (client_code ?e, c')"
    "init_ref_counter (lib c') = init_ref_counter (lib (ex_program h))" "own_server c' = None \<longleftrightarrow> client_code ?e \<noteq> - 2"
    "client_code ?e = - 2 \<longrightarrow> (\<forall>e' name. init_server e' name c' = Ok (WIMP_SERVER_FAIL, c'))"
    using client_return_codes [OF pe heap_ok_empty r p e(1-3)] by (elim exE conjE) (rule that)
  then show ?thesis using en e(4) by (intro exI [of _ en] exI [of _ h] exI [of _ c']) (simp add: ex_program_def)
qed

text \<open>C14: The loop of the master. It prints, in the order of arrival, what each instruction stands for, takes the lock once
  in each turn, and ends after the turn in which the first exit arrives, when the instructions that came with the exit are done
  too. All nodes and instructions are given back: the memory holds what it held before.\<close>

theorem master_loop_output:
  assumes "queue_rel (smem st) (incomingmsg st) []" and "mem_ok (smem st)" and "parent st = None"
    and "arrive arrivals arr n" and "n < fuel"
  shows "\<exists>q m. master_loop fuel 0 arrivals res st out =
      Ok (st\<lparr>incomingmsg := q, smem := m,
             slocks := slocks st @ concat (replicate (Suc n) (lock_round (incomingmsg st)))\<rparr>,
          out @ output_of (concat (map arr [0..<Suc n])))
    \<and> queue_rel m q [] \<and> queue_locks q = queue_locks (incomingmsg st)
    \<and> cells (nodes m) = cells (nodes (smem st)) \<and> cells (bufs m) = cells (bufs (smem st))"
proof -
  note a = assms(4) [unfolded arrive_def]
  have "\<forall>j \<le> n. arrivals (0 + j) = map item_wire (arr j)
      \<and> (\<forall>x \<in> set (arr j). wf_item x \<and> x \<noteq> Ping \<and> item_output x \<noteq> None)" using a by simp
  from master_loop_spec [OF assms(1-3) this _ _ assms(5), of res out] a show ?thesis by blast
qed

theorem master_loop_output_witness:
  "\<exists>q m. master_loop 5 0 (\<lambda>j. map item_wire (ex_turns j)) (\<lambda>_ n. int n) ex_block [] =
      Ok (ex_block\<lparr>incomingmsg := q, smem := m,
             slocks := slocks ex_block @ concat (replicate (Suc 4) (lock_round (incomingmsg ex_block)))\<rparr>,
          [] @ output_of (concat (map ex_turns [0..<Suc 4])))
    \<and> queue_rel m q [] \<and> queue_locks q = queue_locks (incomingmsg ex_block)
    \<and> cells (nodes m) = cells (nodes (smem ex_block)) \<and> cells (bufs m) = cells (bufs (smem ex_block))"
proof (rule master_loop_output)
  have "ex_turns 4 \<noteq> []" by (simp add: ex_turns_def hello_items_def)
  then show "arrive (\<lambda>j. map item_wire (ex_turns j)) ex_turns 4" using ex_turns_all by (intro hello_arrive) simp_all
qed (use empty_mem_ok in \<open>simp_all add: ex_block_def mem_ok_def\<close>)

text \<open>C27: The ports reach the client. The entry that \<open>main\<close> makes of the two ports is read back by the client as the
  same two, and freed but for its array; without memory for it nothing is left allocated.\<close>

theorem ports_reach_client:
  assumes "heap_ok h" and "- 10000 < m" "m < 100000" "- 10000 < p" "p < 100000"
  shows "\<exists>r h'. port_entry h m p = Ok (r, h')
    \<and> (case r of None \<Rightarrow> cells h' = cells h
       | Some e \<Rightarrow> client_ports h' e = Ok (m, p)
           \<and> (\<exists>h'' v xs. wimp_free_entry h' e = Ok h'' \<and> cells h'' = (cells h)(v \<mapsto> ArgvBlock xs)))
    \<and> ((\<forall>k. \<not> fails h k) \<longrightarrow> r \<noteq> None)"
  using port_entry_ports [OF assms] .

theorem ports_reach_client_witness:
  "\<exists>e h'. port_entry (empty_heap (\<lambda>_. False)) 65535 (- 1) = Ok (Some e, h') \<and> client_ports h' e = Ok (65535, - 1)"
proof -
  have "- 10000 < (65535 :: int)" "(65535 :: int) < 100000" "- 10000 < (- 1 :: int)" "(- 1 :: int) < 100000" by simp_all
  from ports_reach_client [OF heap_ok_empty this, of "\<lambda>_. False"]
  obtain r h' where r: "port_entry (empty_heap (\<lambda>_. False)) 65535 (- 1) = Ok (r, h')"
    "case r of None \<Rightarrow> cells h' = cells (empty_heap (\<lambda>_. False)) | Some e \<Rightarrow> client_ports h' e = Ok (65535, - 1)
        \<and> (\<exists>h'' v xs. wimp_free_entry h' e = Ok h'' \<and> cells h'' = (cells (empty_heap (\<lambda>_. False)))(v \<mapsto> ArgvBlock xs))"
    "(\<forall>k. \<not> fails (empty_heap (\<lambda>_. False) :: entry_block heap) k) \<longrightarrow> r \<noteq> None" by blast
  then obtain e where "r = Some e" by (auto simp: empty_heap_def)
  then show ?thesis using r(1,2) by auto
qed

end
