(* ===== verification/Spec2Isabelle.thy ===== *)
theory Spec2Isabelle
  imports Wimp_Prelude HashString Wimp_Instr Wimp_Queue Wimp_Locks Wimp_Process_Table Wimp_Reciever
    Wimp_Server Wimp_Server_Spec Simple_Arena Wimp_Data Wimp_Digits Wimp_Log Wimp_Process
    Sds Sds_Spec Sds_Text Sds_Format Sds_Split Sds_Quote Hello_Wimp
begin

text \<open>
  WIMP is a C library with which a program splits into processes that exchange instructions. This
  library models its sources under \<open>src/wimp/src\<close> with its example program, and shows what they do.

  \<^bold>\<open>The program.\<close> A process has a server (\<open>wimp_server.c\<close>) with two queues of instructions
  (\<open>wimp_instruction.c\<close>) and a table of the processes it talks to (\<open>wimp_process_table.c\<close>, on the hash table of
  \<open>utility/HashString.c\<close>). Instructions are bundled into a wire format, queued, and sent on
  the connection of the process they are for, or on that of the parent. At the other end a receiver thread
  (\<open>wimp_reciever.c\<close>) cuts the stream of bytes into instructions again and puts them on the incoming
  queue, which the server's thread empties; the mutexes of a queue keep the two apart. Beside this,
  processes share data in segments of shared memory (\<open>wimp_data.c\<close>, with the arenas of
  \<open>utility/simple_arena.c\<close>), are started and count their use of the library (\<open>wimp_process.c\<close>), and log to
  their parent through the server (\<open>wimp_log.c\<close>). All of them keep strings of \<open>utility/sds.c\<close>.

  \<^bold>\<open>The theories\<close>, each after the file of the same name:
  \<^item> \<open>Wimp_Prelude\<close>: results with faults, bytes, C strings in buffers, integers of fixed width, the heap.
  \<^item> \<open>HashString\<close>: both hash functions, the table as a list of chains; the locale \<open>name_table\<close>, interpreted on the
    table, says that find, add and remove are lookup, update and deletion of a map.
  \<^item> \<open>Wimp_Instr\<close>: the wire format, its encoder (in \<open>wimp_server.c\<close>) and parser, string packs; round trips.
  \<^item> \<open>Wimp_Queue\<close>: the linked queues on an explicit heap of nodes and buffers, with \<open>queue_rel\<close> for the nodes
    that a queue holds; the locale \<open>linked_queue\<close>, interpreted on them; every mutex call is part of a trace.
  \<^item> \<open>Wimp_Locks\<close>: the sessions that these traces make up, interleaved over any number of threads.
  \<^item> \<open>Wimp_Process_Table\<close>: the table with the process data on a heap, as a map of names to data.
  \<^item> \<open>Wimp_Reciever\<close>: handshake, connection and the receive loop; received packets as one stream.
  \<^item> \<open>Wimp_Server\<close> and \<open>Wimp_Server_Spec\<close>: the operations of the server with their lemmas, and their properties.
  \<^item> \<open>Simple_Arena\<close> and \<open>Wimp_Data\<close>: the arena allocator; the table of shared data.
  \<^item> \<open>Wimp_Digits\<close>, \<open>Wimp_Log\<close>: the C library's integer formats; the formatter and the logging functions.
  \<^item> \<open>Sds\<close>: the headers and the operations of \<open>utility/sds.c\<close> on one string, a block of the heap with the header's fields;
    \<open>Sds_Spec\<close>: their invariant and what each makes of the string's bytes; \<open>Sds_Text\<close>: the locale \<open>text_buffer\<close>, interpreted on
    them, for sequences of operations, and the order of strings; \<open>Sds_Format\<close>: numbers and formats; \<open>Sds_Split\<close>: splitting and
    joining, with the array of strings; \<open>Sds_Quote\<close>: quoting, and splitting a line into arguments.
  \<^item> \<open>Wimp_Process\<close>: users of the library, argument blocks, starting programs, ports.
  \<^item> \<open>Hello_Wimp\<close>: the example's two processes from start to return, on one record of library results each; what every
    instruction prints (\<open>item_output\<close>), and whole runs put together from the lemmas of the other theories.
  \<^item> this theory: what the parts do together.

  \<^bold>\<open>Conventions.\<close> A record stands for a \<open>struct\<close> and keeps its field names; a function keeps the name
  of the C function, and a loop in it has a function of its own. Pointers into a buffer are offsets, pointers to
  heap blocks are addresses of the heap, whose allocations may fail wherever a predicate says so. A fault is what C
  leaves undefined or an assertion forbids: reading NULL or freed memory, leaving a buffer, overflow of a signed
  number. Results of the socket, thread, shared-memory and operating-system calls are parameters, as
  functions of the number of the call; their documented behaviour is a hypothesis where it is
  needed, such as \<open>sends_ok\<close>: a send call that succeeds takes at least one byte and at most those given.

  \<^bold>\<open>Fuel.\<close> Loops that wait on the outside may run for ever: the receive loop, its copying loop, the accepting, the
  waiting and the sending loop. They take fuel and fail with \<open>OutOfFuel\<close>. The properties say how much is enough (for
  the receiver one more than the number of instructions and packets, for sending one more than the number of instructions
  and their bytes, for the example 300), or that no amount is. All other recursions are structural or have a measure.

  \<^bold>\<open>What is shown.\<close> From end to end: the instructions added at one server arrive in the queue of the receiving process,
  byte for byte and in order, however the network cuts the stream; and the example program runs
  to its end and prints its greeting. For each part: the functional behaviour of
  its operations, invariants over all sequences of operations, exclusion and progress of the
  locks, round trips of encoders, agreement of the formatter with a reference, and memory that is given back.
  Where the code goes wrong the theorem says so: what a failed send loses, which instruction is
  mistaken for a ping, which removal crashes, which connection is polled for ever. Dynamic strings are lists of bytes to their users, what is quoted or split
  can be read back or joined, and memory that runs out leaves nothing behind where the code checks for it.

  \<^bold>\<open>Not modelled.\<close> Sleeps and the text of log lines that the other operations print; the Windows variants of the
  two platform-dependent functions; the macros for export, debugging and thread-local storage; the
  test programs. The two processes of the example run on states of their own, with what one sends arriving at the other,
  and so each with its own count of the library's users. In the models of the
  other parts a string of \<open>utility/sds.c\<close> stands for its bytes, as \<open>strings_refine_texts\<close> allows; of that file
  only the wrappers of the allocators and the self-test are left out. What \<open>vsnprintf\<close> makes of a format is a parameter.
\<close>

section \<open>From one process to another\<close>

lemma stream_of_server_items:
  "\<forall>x \<in> set xs. from_server me x \<Longrightarrow> instr_wires xs = map item_wire xs"
  by (induction xs rule: instr_wires.induct) (auto simp: from_server_def)

text \<open>C1: End to end. A server queues instructions for a process, the last being its exit
  instruction, and sends them. Whatever packets the network makes of the bytes sent on that
  process's connection, its receiver terminates without fault, and its incoming queue has gained exactly the
  instructions that were added at the other end, byte for byte and in the order of the calls.\<close>

theorem end_to_end:
  assumes "queue_rel (smem st) (outgoingmsg st) []" and "mem_ok (smem st)"
    and "routed_to st child con" and "length (sendbuffer st) = 512" and "sends_ok res (sends st)"
    and "\<forall>x \<in> set (items @ [e]). from_server (server_name st) x \<and> item_dest x = child"
    and "\<forall>x \<in> set items. \<not> is_exit_item child x" and "is_exit_item child e"
    and "length (items @ [e]) + (\<Sum>x \<leftarrow> items @ [e]. length (item_wire x)) < fuel"
    and "queue_rel m q as" and "mem_ok m" and "list_all2 (holds m) as ws"
  shows "\<exists>st1 st2 log. server_add_all st (items @ [e]) = Ok st1
    \<and> wimp_server_send_instructions fuel res st1 = Ok (WIMP_SERVER_SUCCESS, st2)
    \<and> sent st2 = sent st @ log \<and> con_bytes con log = stream_wire (items @ [e])
    \<and> queue_rel (smem st2) (outgoingmsg st2) []
    \<and> (\<forall>ps recv f active. concat ps = con_bytes con log \<and> (\<forall>p \<in> set ps. is_packet p)
         \<and> (\<forall>i < length ps. recv i = Some (ps ! i)) \<and> length items + length ps + 1 < f \<and> (\<forall>k. active k) \<longrightarrow>
         (\<exists>r as'. receive_loop f recv active 0 child (start_receiver m q) = Ok r
            \<and> queue_rel (rmem r) (incoming_queue r) as'
            \<and> list_all2 (holds (rmem r)) as' (ws @ map item_wire (items @ [e]))))"
proof -
  let ?xs = "items @ [e]"
  have from_s: "\<forall>x \<in> set ?xs. from_server (server_name st) x" using assms(6) by blast
  have s0: "stored (smem st) [] []" by (simp add: stored_def)
  obtain q1 m1 cs where a: "server_add_all st ?xs = Ok (st\<lparr>outgoingmsg := q1, smem := m1\<rparr>)"
    "queue_rel m1 q1 ([] @ cs)" "mem_ok m1" "stored m1 ([] @ cs) ([] @ ?xs)"
    using add_all_stored [OF assms(1,2) s0 from_s] by blast
  let ?st = "st\<lparr>outgoingmsg := q1, smem := m1\<rparr>"
  have route: "\<forall>x \<in> set ?xs. routed_to ?st (item_dest x) con"
    using assms(3,6) routed_to_cong [of ?st st child con] by simp
  have q1: "queue_rel (smem ?st) (outgoingmsg ?st) cs" "mem_ok (smem ?st)" "stored (smem ?st) cs ?xs"
    "sends_ok res (sends ?st)" "length (sendbuffer ?st) = 512" using a assms(4,5) by simp_all
  obtain st2 log where b: "wimp_server_send_instructions fuel res ?st = Ok (WIMP_SERVER_SUCCESS, st2)"
    "sent st2 = sent ?st @ log" "con_bytes con log = stream_wire ?xs" "queue_rel (smem st2) (outgoingmsg st2) []"
    using send_stored [OF q1(1-3) route q1(4,5) assms(9)] by blast
  have wf: "\<forall>x \<in> set items. wf_item x \<and> \<not> is_exit_item child x" "wf_item e"
    using assms(6,7) by (auto simp: from_server_def)
  have m: "heap_ok (nodes m)" "no_fail (nodes m)" "heap_ok (bufs m)" "no_fail (bufs m)"
    using assms(11) by (simp_all add: mem_ok_def)
  have "\<exists>r as'. receive_loop f recv active 0 child (start_receiver m q) = Ok r
      \<and> queue_rel (rmem r) (incoming_queue r) as' \<and> list_all2 (holds (rmem r)) as' (ws @ map item_wire ?xs)"
    if p: "concat ps = con_bytes con log" "\<forall>p \<in> set ps. is_packet p" "\<forall>i < length ps. recv i = Some (ps ! i)"
      "length items + length ps + 1 < f" "\<forall>k. active k" for ps recv f active
  proof -
    have "concat ps = stream_wire ?xs @ []" using p(1) b(3) by simp
    then show ?thesis
      using receive_stream [OF assms(10) m assms(12) wf assms(8) _ p(2,3,4)] p(5)
      unfolding stream_of_server_items [OF from_s] by blast
  qed
  moreover have "sent st2 = sent st @ log" using b(2) by simp
  ultimately show ?thesis using a(1) b(1,3,4) by blast
qed

definition ex_idle :: server_state where
  "ex_idle = ex_server\<lparr>outgoingmsg := wimp_create_instr_queue 3 4 5, smem := empty_mem\<rparr>"

text \<open>Two instructions for the child, cut into packets of seven bytes.\<close>

theorem end_to_end_witness:
  "\<exists>st1 st2 log r as'.
    server_add_all ex_idle [Instr ''s'' ''a'' ''go'' ''xy'', Instr ''s'' ''a'' ''exit'' []] = Ok st1
    \<and> wimp_server_send_instructions 100 (\<lambda>i n. int n) st1 = Ok (WIMP_SERVER_SUCCESS, st2) \<and> sent st2 = log
    \<and> receive_loop 200 (\<lambda>i. if i < length (chunks 100 7 (con_bytes (Some 7) log))
          then Some (chunks 100 7 (con_bytes (Some 7) log) ! i) else Some []) (\<lambda>_. True) 0 ''a''
        (start_receiver empty_mem (wimp_create_instr_queue 0 1 2)) = Ok r
    \<and> list_all2 (holds (rmem r)) as' [instr_wire ''s'' ''a'' ''go'' ''xy'', instr_wire ''s'' ''a'' ''exit'' []]"
proof -
  let ?xs = "[Instr ''s'' ''a'' ''go'' ''xy'', Instr ''s'' ''a'' ''exit'' []]"
  let ?ps = "chunks 100 7 (stream_wire ?xs)"
  have len: "length (stream_wire ?xs) \<le> 100" by (simp add: instr_size_def)
  have ps: "concat ?ps = stream_wire ?xs" using len by (intro concat_chunks) simp_all
  have pk: "\<forall>p \<in> set ?ps. is_packet p"
    using set_chunks [of _ 100 7 "stream_wire ?xs"] by (fastforce simp: is_packet_def rec_consts)
  have lp: "length ?ps \<le> 100" by (rule length_chunks)
  have f: "queue_rel (smem ex_idle) (outgoingmsg ex_idle) []" "mem_ok (smem ex_idle)"
    "length (sendbuffer ex_idle) = 512" "sends_ok (\<lambda>i n. int n) (sends ex_idle)"
    "sent ex_idle = []" "server_name ex_idle = ''s''" "mem_ok empty_mem"
    using empty_mem_ok by (simp_all add: ex_idle_def mem_ok_def sends_ok_def WIMP_ZERO_BUFFER_def rec_consts)
  have route: "routed_to ex_idle ''a'' (Some 7)"
    using ex_sendable(1) routed_to_cong [of ex_idle ex_server] by (simp add: sendable_def ex_msgs_def ex_idle_def)
  obtain st1 st2 log where st: "server_add_all ex_idle ?xs = Ok st1"
    "wimp_server_send_instructions 100 (\<lambda>i n. int n) st1 = Ok (WIMP_SERVER_SUCCESS, st2)" "sent st2 = log"
    "con_bytes (Some 7) log = stream_wire ?xs"
    and rec: "\<forall>ps recv f active. concat ps = con_bytes (Some 7) log \<and> (\<forall>p \<in> set ps. is_packet p)
         \<and> (\<forall>i < length ps. recv i = Some (ps ! i)) \<and> 1 + length ps + 1 < f \<and> (\<forall>k. active k) \<longrightarrow>
         (\<exists>r as'. receive_loop f recv active 0 ''a'' (start_receiver empty_mem (wimp_create_instr_queue 0 1 2)) = Ok r
            \<and> queue_rel (rmem r) (incoming_queue r) as'
            \<and> list_all2 (holds (rmem r)) as' (map item_wire ?xs))"
  proof -
    have "\<forall>x \<in> set ?xs. from_server (server_name ex_idle) x \<and> item_dest x = ''a''"
      using f(6) by (simp add: from_server_def instr_size_def rec_consts)
    moreover have "length ?xs + (\<Sum>x \<leftarrow> ?xs. length (item_wire x)) < 100" by (simp add: instr_size_def)
    ultimately show ?thesis
      using end_to_end [OF f(1,2) route f(3,4), of "[Instr ''s'' ''a'' ''go'' ''xy'']" "Instr ''s'' ''a'' ''exit'' []" 100
          empty_mem "wimp_create_instr_queue 0 1 2" "[]" "[]"] empty_mem_ok(1) f(5,7) that by fastforce
  qed
  have l: "1 + length ?ps + 1 < 200" using lp by simp
  obtain r as' where "receive_loop 200 (\<lambda>i. if i < length ?ps then Some (?ps ! i) else Some []) (\<lambda>_. True) 0 ''a''
      (start_receiver empty_mem (wimp_create_instr_queue 0 1 2)) = Ok r" "list_all2 (holds (rmem r)) as' (map item_wire ?xs)"
    using rec [rule_format, of ?ps "\<lambda>i. if i < length ?ps then Some (?ps ! i) else Some []" 200 "\<lambda>_. True"] ps pk l st(4)
    by auto
  then show ?thesis using st(1,2,3) unfolding st(4) [symmetric] by auto
qed

end
